(* ===== verification/Prelude.thy ===== *)
theory Prelude
  imports Main "HOL-Library.Word"
begin

text \<open>
  Shared vocabulary of the development: machine types, the faults a C function can
  end in, the result type every fallible operation returns together with its
  Hoare-style rules, and byte buffers read and written the way a little-endian
  x86-64 host reads and writes packed structs.

  Buffer accessors are total: outside the buffer \<open>u8_at\<close> is 0 and a write is
  dropped.  Every definition of the development that dereferences memory whose size
  is not yet known first passes a \<open>need\<close> guard, which ends in
  \<open>OutOfBounds\<close> when the access would leave the buffer.
\<close>

unbundle bit_operations_syntax

type_synonym byte = "8 word"
type_synonym u16 = "16 word"
type_synonym u32 = "32 word"
type_synonym u64 = "64 word"
type_synonym addr_ip = u32

named_theorems wire \<open>reading a field of a buffer after a write\<close>
named_theorems queue_simps \<open>equations of the queue operations\<close>
named_theorems safe_intros \<open>Hoare rules for the result type\<close>

section \<open>Faults and results\<close>

text \<open>
  The ways an operation of the router can fail to return: an access outside an
  object, a null or dangling pointer, \<open>free\<close> of a pointer that \<open>malloc\<close> did not
  return, the use of a variable nothing was assigned to, a failed \<open>assert\<close>, a call of \<open>die\<close>, locking a mutex that is already held,
  a division by zero, and (an artefact of the model) a recursion that ran out of fuel.
\<close>

datatype fault =
    OutOfBounds
  | NullDeref
  | UseAfterFree
  | InvalidFree
  | Uninit
  | AssertFail
  | Die
  | Deadlock
  | DivZero
  | OutOfFuel

type_synonym 'a result = "fault + 'a"

fun bindr :: "'a result \<Rightarrow> ('a \<Rightarrow> 'b result) \<Rightarrow> 'b result" where
  "bindr (Inl e) k = Inl e"
| "bindr (Inr a) k = k a"

definition need :: "bool \<Rightarrow> fault \<Rightarrow> 'a result \<Rightarrow> 'a result" where
  "need c e k = (if c then k else Inl e)"

lemma need_True [simp]: "need True e k = k"
  by (simp add: need_def)

lemma need_False [simp]: "need False e k = Inl e"
  by (simp add: need_def)

lemma bindr_Inr_iff:
  "bindr m k = Inr b \<longleftrightarrow> (\<exists>a. m = Inr a \<and> k a = Inr b)"
  by (cases m) auto

lemma need_Inr_iff: "need c e k = Inr b \<longleftrightarrow> c \<and> k = Inr b"
  by (simp add: need_def)

lemma bindr_assoc: "bindr (bindr m f) g = bindr m (\<lambda>a. bindr (f a) g)"
  by (cases m) auto

text \<open>
  \<open>safe F P r\<close>: the result \<open>r\<close> is a value satisfying \<open>P\<close>, or one of the faults
  of \<open>F\<close>.  With \<open>F = {}\<close> it says that the operation returns.
\<close>

definition safe :: "fault set \<Rightarrow> ('a \<Rightarrow> bool) \<Rightarrow> 'a result \<Rightarrow> bool" where
  "safe F P r = (case r of Inl e \<Rightarrow> e \<in> F | Inr a \<Rightarrow> P a)"

lemma safe_Inl [simp]: "safe F P (Inl e) \<longleftrightarrow> e \<in> F"
  by (simp add: safe_def)

lemma safe_Inr [simp]: "safe F P (Inr a) \<longleftrightarrow> P a"
  by (simp add: safe_def)

lemma safe_bindr [safe_intros]:
  assumes "safe F P m" and "\<And>a. P a \<Longrightarrow> safe F Q (k a)"
  shows "safe F Q (bindr m k)"
  using assms by (cases m) auto

lemma safe_need [safe_intros]:
  assumes "c \<Longrightarrow> safe F P k" and "\<not> c \<Longrightarrow> e \<in> F"
  shows "safe F P (need c e k)"
  using assms by (cases c) auto

lemma safe_mono:
  assumes "safe F P r" and "F \<subseteq> G" and "\<And>a. P a \<Longrightarrow> Q a"
  shows "safe G Q r"
  using assms by (cases r) auto

lemma safe_conj: "safe F P r \<Longrightarrow> safe F Q r \<Longrightarrow> safe F (\<lambda>a. P a \<and> Q a) r"
  by (cases r) auto

lemma safe_and: "safe F P r \<Longrightarrow> safe UNIV Q r \<Longrightarrow> safe F (\<lambda>a. P a \<and> Q a) r"
  by (cases r) auto

text \<open>Partial correctness is \<open>safe UNIV\<close>: what is bound first does not matter.\<close>

lemma safe_any_bindr: "(\<And>a. safe UNIV Q (k a)) \<Longrightarrow> safe UNIV Q (bindr m k)"
  by (cases m) auto

lemma safe_InrD: "safe F P r \<Longrightarrow> r = Inr a \<Longrightarrow> P a"
  by simp

lemma safe_empty_iff: "safe {} P r \<longleftrightarrow> (\<exists>a. r = Inr a \<and> P a)"
  by (cases r) auto

section \<open>Counting loops\<close>

text \<open>\<open>for_loop n i f s\<close>: the body \<open>f\<close> runs for \<open>i\<close>, \<open>i + 1\<close>, ..., \<open>i + n - 1\<close>.\<close>

primrec for_loop :: "nat \<Rightarrow> nat \<Rightarrow> (nat \<Rightarrow> 's \<Rightarrow> 's result) \<Rightarrow> 's \<Rightarrow> 's result" where
  "for_loop 0 i f s = Inr s"
| "for_loop (Suc n) i f s = bindr (f i s) (for_loop n (Suc i) f)"

lemma for_loop_pure:
  assumes "\<And>j s. i \<le> j \<Longrightarrow> j < i + n \<Longrightarrow> f j s = Inr (g j s)"
  shows "for_loop n i f s = Inr (fold g [i..<i + n] s)"
  using assms by (induction n arbitrary: i s) (simp_all add: upt_conv_Cons del: upt_Suc)

text \<open>The loop rule: an invariant indexed by the counter.\<close>

lemma for_loop_safe [safe_intros]:
  assumes "I i s" and "\<And>j s. i \<le> j \<Longrightarrow> j < i + n \<Longrightarrow> I j s \<Longrightarrow> safe F (I (Suc j)) (f j s)"
  shows "safe F (I (i + n)) (for_loop n i f s)"
  using assms
proof (induction n arbitrary: i s)
  case 0
  then show ?case by simp
next
  case (Suc n)
  have "safe F (I (Suc i)) (f i s)" using Suc.prems by simp
  then show ?case
    using Suc.IH [of "Suc i"] Suc.prems(2)
    by (auto intro!: safe_bindr [of F "I (Suc i)"] simp del: safe_Inl)
qed

section \<open>Words as natural numbers\<close>

lemma unat_u8_less: "unat (x :: byte) < 256"
  using unsigned_less [of x] by simp

lemma unat_u16_less: "unat (x :: u16) < 65536"
  using unsigned_less [of x] by simp

lemma unat_u32_less: "unat (x :: u32) < 4294967296"
  using unsigned_less [of x] by simp

lemma unat_ucast_u8_u16 [simp]: "unat (ucast (x :: byte) :: u16) = unat x"
  using unat_u8_less [of x] by (simp add: unsigned_ucast_eq take_bit_nat_eq_self)

lemma unat_ucast_u8_u32 [simp]: "unat (ucast (x :: byte) :: u32) = unat x"
  using unat_u8_less [of x] by (simp add: unsigned_ucast_eq take_bit_nat_eq_self)

lemma unat_ucast_u16_u32 [simp]: "unat (ucast (x :: u16) :: u32) = unat x"
  using unat_u16_less [of x] by (simp add: unsigned_ucast_eq take_bit_nat_eq_self)

lemma unat_ucast_u32_u64 [simp]: "unat (ucast (x :: u32) :: u64) = unat x"
  using unat_u32_less [of x] by (simp add: unsigned_ucast_eq take_bit_nat_eq_self)

lemma unat_ucast_u32_u16: "unat (ucast (x :: u32) :: u16) = unat x mod 65536"
  by (simp add: unsigned_ucast_eq take_bit_eq_mod)

lemma unat_add_u32: "unat (a :: u32) + unat b < 4294967296 \<Longrightarrow> unat (a + b) = unat a + unat b"
  by (simp add: unat_word_ariths)

section \<open>Byte order\<close>

text \<open>\<open>ntohs\<close>, \<open>htons\<close>, \<open>ntohl\<close> and \<open>htonl\<close> on a little-endian host.\<close>

definition ntohs :: "u16 \<Rightarrow> u16" where
  "ntohs x = push_bit 8 x OR drop_bit 8 x"

definition ntohl :: "u32 \<Rightarrow> u32" where
  "ntohl x = push_bit 24 x OR push_bit 8 (x AND 0xFF00)
             OR drop_bit 8 (x AND 0xFF0000) OR drop_bit 24 x"

abbreviation htons :: "u16 \<Rightarrow> u16" where "htons \<equiv> ntohs"
abbreviation htonl :: "u32 \<Rightarrow> u32" where "htonl \<equiv> ntohl"

lemma ntohs_ntohs [simp]: "ntohs (ntohs x) = x"
  by (rule bit_word_eqI) (auto simp: ntohs_def bit_simps)

lemma ntohs_eq_iff [simp]: "ntohs x = ntohs y \<longleftrightarrow> x = y"
  by (metis ntohs_ntohs)

lemma ntohs_0 [simp]: "ntohs 0 = 0"
  by (simp add: ntohs_def)

lemma ntohs_eq_0 [simp]: "ntohs x = 0 \<longleftrightarrow> x = 0"
  using ntohs_eq_iff [of x 0] by simp

section \<open>Byte buffers\<close>

definition u8_at :: "byte list \<Rightarrow> nat \<Rightarrow> byte" where
  "u8_at p i = (if i < length p then p ! i else 0)"

definition u16_at :: "byte list \<Rightarrow> nat \<Rightarrow> u16" where
  "u16_at p i = ucast (u8_at p i) OR push_bit 8 (ucast (u8_at p (i + 1)))"

definition u32_at :: "byte list \<Rightarrow> nat \<Rightarrow> u32" where
  "u32_at p i = ucast (u16_at p i) OR push_bit 16 (ucast (u16_at p (i + 2)))"

definition put8 :: "nat \<Rightarrow> byte \<Rightarrow> byte list \<Rightarrow> byte list" where
  "put8 i v p = p[i := v]"

definition put16 :: "nat \<Rightarrow> u16 \<Rightarrow> byte list \<Rightarrow> byte list" where
  "put16 i v p = put8 (i + 1) (ucast (drop_bit 8 v)) (put8 i (ucast v) p)"

definition put32 :: "nat \<Rightarrow> u32 \<Rightarrow> byte list \<Rightarrow> byte list" where
  "put32 i v p = put16 (i + 2) (ucast (drop_bit 16 v)) (put16 i (ucast v) p)"

text \<open>\<open>blit off bs p\<close> is \<open>memcpy (&p[off], bs, length bs)\<close>.\<close>

definition blit :: "nat \<Rightarrow> byte list \<Rightarrow> byte list \<Rightarrow> byte list" where
  "blit off bs p = take off p @ bs @ drop (off + length bs) p"

text \<open>\<open>slice off n p\<close> are the \<open>n\<close> bytes of \<open>p\<close> from \<open>off\<close>.\<close>

definition slice :: "nat \<Rightarrow> nat \<Rightarrow> byte list \<Rightarrow> byte list" where
  "slice off n p = take n (drop off p)"

lemma length_put8 [simp]: "length (put8 i v p) = length p"
  by (simp add: put8_def)

lemma length_put16 [simp]: "length (put16 i v p) = length p"
  by (simp add: put16_def)

lemma length_put32 [simp]: "length (put32 i v p) = length p"
  by (simp add: put32_def)

lemma length_blit [simp]: "off + length bs \<le> length p \<Longrightarrow> length (blit off bs p) = length p"
  by (simp add: blit_def)

lemma length_slice [simp]: "off + n \<le> length p \<Longrightarrow> length (slice off n p) = n"
  by (simp add: slice_def)

lemma u8_at_put8 [wire]:
  "u8_at (put8 i v p) j = (if i = j \<and> i < length p then v else u8_at p j)"
  by (simp add: u8_at_def put8_def)

lemma u8_at_put16 [wire]:
  "u8_at (put16 i v p) j =
     (if j = i \<and> i < length p then ucast v
      else if j = i + 1 \<and> i + 1 < length p then ucast (drop_bit 8 v) else u8_at p j)"
  by (auto simp: put16_def u8_at_put8)

lemma u16_at_put8 [wire]:
  "j \<noteq> i \<Longrightarrow> j \<noteq> i + 1 \<Longrightarrow> u16_at (put8 j v p) i = u16_at p i"
  by (simp add: u16_at_def wire)

lemma u32_at_put8 [wire]:
  "j < i \<or> i + 4 \<le> j \<Longrightarrow> u32_at (put8 j v p) i = u32_at p i"
  by (auto simp: u32_at_def u16_at_put8)

lemma bytes_of_u16: "(ucast (ucast v :: byte) :: u16)
    OR push_bit 8 (ucast (ucast (drop_bit 8 v) :: byte)) = v"
  by (rule bit_word_eqI) (auto simp: bit_simps)

lemma u16s_of_u32: "(ucast (ucast v :: u16) :: u32)
    OR push_bit 16 (ucast (ucast (drop_bit 16 v) :: u16)) = v"
  by (rule bit_word_eqI) (auto simp: bit_simps)

lemma u16_at_put16_same [wire]: "i + 1 < length p \<Longrightarrow> u16_at (put16 i v p) i = v"
  by (simp add: u16_at_def u8_at_put16 bytes_of_u16)

lemma u16_at_put16 [wire]:
  "j + 2 \<le> i \<or> i + 2 \<le> j \<Longrightarrow> u16_at (put16 j v p) i = u16_at p i"
  by (auto simp: u16_at_def u8_at_put16)

lemma u32_at_put16 [wire]:
  "j + 2 \<le> i \<or> i + 4 \<le> j \<Longrightarrow> u32_at (put16 j v p) i = u32_at p i"
  by (auto simp: u32_at_def u16_at_put16)

lemma u8_at_put32 [wire]: "j < i \<or> i + 4 \<le> j \<Longrightarrow> u8_at (put32 i v p) j = u8_at p j"
  by (auto simp: put32_def u8_at_put16)

lemma u16_at_put32 [wire]:
  "j + 4 \<le> i \<or> i + 2 \<le> j \<Longrightarrow> u16_at (put32 j v p) i = u16_at p i"
  by (auto simp: put32_def u16_at_put16)

lemma u32_at_put32_same [wire]: "i + 3 < length p \<Longrightarrow> u32_at (put32 i v p) i = v"
  by (simp add: u32_at_def put32_def u16_at_put16 u16_at_put16_same u16s_of_u32)

lemma u32_at_put32 [wire]:
  "j + 4 \<le> i \<or> i + 4 \<le> j \<Longrightarrow> u32_at (put32 j v p) i = u32_at p i"
  by (auto simp: u32_at_def u16_at_put32)

lemma u8_at_blit [wire]:
  assumes "off + length bs \<le> length p"
  shows "u8_at (blit off bs p) j =
           (if off \<le> j \<and> j < off + length bs then bs ! (j - off) else u8_at p j)"
  using assms by (auto simp: u8_at_def blit_def nth_append)

lemma u16_at_blit [wire]:
  assumes "off + length bs \<le> length p" and "j + 2 \<le> off \<or> off + length bs \<le> j"
  shows "u16_at (blit off bs p) j = u16_at p j"
  using assms by (auto simp: u16_at_def u8_at_blit)

lemma u32_at_blit [wire]:
  assumes "off + length bs \<le> length p" and "j + 4 \<le> off \<or> off + length bs \<le> j"
  shows "u32_at (blit off bs p) j = u32_at p j"
  using assms by (auto simp: u32_at_def u16_at_blit)

lemma nth_slice: "i < n \<Longrightarrow> off + n \<le> length p \<Longrightarrow> slice off n p ! i = u8_at p (off + i)"
  by (simp add: slice_def u8_at_def)

lemma slice_eqI:
  assumes "off + n \<le> length p" and "off + n \<le> length q"
    and "\<And>i. off \<le> i \<Longrightarrow> i < off + n \<Longrightarrow> u8_at p i = u8_at q i"
  shows "slice off n p = slice off n q"
  using assms by (intro nth_equalityI) (auto simp: nth_slice)

lemma slice_put8_other:
  "j < off \<or> off + n \<le> j \<Longrightarrow> slice off n (put8 j v p) = slice off n p"
  by (auto simp: slice_def put8_def drop_update_swap drop_update_cancel not_less
      intro: take_update_cancel)

lemma slice_put16_other [wire]:
  "j + 2 \<le> off \<or> off + n \<le> j \<Longrightarrow> slice off n (put16 j v p) = slice off n p"
  by (auto simp: put16_def slice_put8_other)

lemma slice_put32_other [wire]:
  "j + 4 \<le> off \<or> off + n \<le> j \<Longrightarrow> slice off n (put32 j v p) = slice off n p"
  by (auto simp: put32_def slice_put16_other)

lemmas [wire] = slice_put8_other

section \<open>MAC addresses\<close>

datatype addr_mac = MAC (octet0: byte) (octet1: byte) (octet2: byte)
                        (octet3: byte) (octet4: byte) (octet5: byte)

definition mac_at :: "byte list \<Rightarrow> nat \<Rightarrow> addr_mac" where
  "mac_at p i = MAC (u8_at p i) (u8_at p (i + 1)) (u8_at p (i + 2))
                    (u8_at p (i + 3)) (u8_at p (i + 4)) (u8_at p (i + 5))"

definition put_mac :: "nat \<Rightarrow> addr_mac \<Rightarrow> byte list \<Rightarrow> byte list" where
  "put_mac i m p =
     put8 (i + 5) (octet5 m) (put8 (i + 4) (octet4 m) (put8 (i + 3) (octet3 m)
       (put8 (i + 2) (octet2 m) (put8 (i + 1) (octet1 m) (put8 i (octet0 m) p)))))"

lemma length_put_mac [simp]: "length (put_mac i m p) = length p"
  by (simp add: put_mac_def)

lemma mac_at_put_mac_same [wire]: "i + 5 < length p \<Longrightarrow> mac_at (put_mac i m p) i = m"
  by (cases m) (simp add: mac_at_def put_mac_def u8_at_put8)

lemma u8_at_put_mac [wire]:
  "j < i \<or> i + 6 \<le> j \<Longrightarrow> u8_at (put_mac i m p) j = u8_at p j"
  by (auto simp: put_mac_def u8_at_put8)

lemma u16_at_put_mac [wire]:
  "j + 2 \<le> i \<or> i + 6 \<le> j \<Longrightarrow> u16_at (put_mac i m p) j = u16_at p j"
  by (auto simp: u16_at_def u8_at_put_mac)

lemma u32_at_put_mac [wire]:
  "j + 4 \<le> i \<or> i + 6 \<le> j \<Longrightarrow> u32_at (put_mac i m p) j = u32_at p j"
  by (auto simp: u32_at_def u16_at_put_mac)

lemma mac_at_put8 [wire]:
  "j < i \<or> i + 6 \<le> j \<Longrightarrow> mac_at (put8 j v p) i = mac_at p i"
  by (auto simp: mac_at_def u8_at_put8)

lemma mac_at_put16 [wire]:
  "j + 2 \<le> i \<or> i + 6 \<le> j \<Longrightarrow> mac_at (put16 j v p) i = mac_at p i"
  by (auto simp: mac_at_def u8_at_put16)

lemma mac_at_put32 [wire]:
  "j + 4 \<le> i \<or> i + 6 \<le> j \<Longrightarrow> mac_at (put32 j v p) i = mac_at p i"
  by (auto simp: mac_at_def u8_at_put32)

lemma mac_at_put_mac [wire]:
  "j + 6 \<le> i \<or> i + 6 \<le> j \<Longrightarrow> mac_at (put_mac j m p) i = mac_at p i"
  by (auto simp: mac_at_def u8_at_put_mac)

lemma slice_put_mac_other [wire]:
  "j + 6 \<le> off \<or> off + n \<le> j \<Longrightarrow> slice off n (put_mac j m p) = slice off n p"
  by (auto simp: put_mac_def slice_put8_other)

end
