(* ===== verification/Checksum.thy ===== *)
theory Checksum
  imports Prelude
begin

text \<open>
  The Internet checksum (\<open>globals.c\<close>): \<open>generatechecksum\<close> over a region of a
  buffer and the UDP pseudo header it is computed on.  The main result is that a
  region whose checksum field was filled by \<open>generatechecksum\<close> verifies, that is,
  \<open>generatechecksum\<close> over it returns 0: the arithmetic of the two folding steps on
  32-bit words agrees with arithmetic modulo 65535.
\<close>

section \<open>Model\<close>

text \<open>The loop \<open>for (sum = 0; size > 0; size--) sum += ntohs(*data++)\<close>.\<close>

fun sum_words :: "nat \<Rightarrow> byte list \<Rightarrow> u32 \<Rightarrow> u32" where
  "sum_words 0 data s = s"
| "sum_words (Suc n) data s =
     sum_words n (drop 2 data) (s + ucast (ntohs (u16_at data 0)))"

definition checksum_fold :: "u32 \<Rightarrow> u16" where
  "checksum_fold s =
     (let s = drop_bit 16 s + (s AND 0xffff);
          s = s + drop_bit 16 s
      in ucast (NOT s))"

text \<open>
  \<open>generatechecksum buf len\<close>.  \<open>buf\<close> holds the bytes from the pointer to the end
  of the object it points into; \<open>len\<close> is the C \<open>int\<close>, which a caller can make
  negative (the loop is then empty).
\<close>

definition generatechecksum :: "byte list \<Rightarrow> int \<Rightarrow> u16 result" where
  "generatechecksum buf len =
     need (len \<le> int (length buf) \<and> (odd len \<longrightarrow> buf \<noteq> [])) OutOfBounds
      (let size = nat (len div 2);
           s = sum_words size buf 0;
           s = (if odd len then s + push_bit 8 (ucast (u8_at buf (2 * size))) else s)
       in Inr (htons (checksum_fold s)))"

text \<open>
  \<open>malloc_udp_pseudo_header\<close> on a frame whose IP header is at 14 and whose UDP
  header is at 34.  A UDP length below 8 makes \<open>datasize\<close> negative: the 20 bytes of
  the pseudo header no longer fit the allocation.
\<close>

definition malloc_udp_pseudo_header :: "byte list \<Rightarrow> byte list result" where
  "malloc_udp_pseudo_header p =
     (let datasize = int (unat (ntohs (u16_at p 38))) - 8
      in need (0 \<le> datasize) OutOfBounds
           (need (42 + datasize \<le> int (length p)) OutOfBounds
             (Inr (slice 26 8 p @ [0, u8_at p 23] @ slice 38 2 p @ slice 34 8 p
                   @ slice 42 (nat datasize) p))))"

text \<open>
  The idiom \<open>hdr->checksum = 0; hdr->checksum = generatechecksum(hdr, n)\<close> for a
  header at \<open>base\<close> whose checksum field is at \<open>off\<close>.
\<close>

definition checksum_fill :: "nat \<Rightarrow> nat \<Rightarrow> int \<Rightarrow> byte list \<Rightarrow> byte list result" where
  "checksum_fill base off n p =
     bindr (generatechecksum (drop base (put16 off 0 p)) n) (\<lambda>c. Inr (put16 off c (put16 off 0 p)))"

section \<open>The sum over the region\<close>

definition wsum :: "nat \<Rightarrow> byte list \<Rightarrow> nat" where
  "wsum n bs = (\<Sum>i<n. unat (ntohs (u16_at bs (2 * i))))"

lemma unat_u16_le: "unat (x :: u16) \<le> 65535"
  using unat_u16_less [of x] by simp

lemma wsum_le: "wsum n bs \<le> n * 65535"
proof -
  have "wsum n bs \<le> (\<Sum>i<n. 65535)"
    unfolding wsum_def by (intro sum_mono unat_u16_le)
  then show ?thesis by simp
qed

lemma u8_at_drop: "u8_at (drop k bs) i = u8_at bs (k + i)"
  by (auto simp: u8_at_def)

lemma u16_at_drop: "u16_at (drop k bs) i = u16_at bs (k + i)"
  by (simp add: u16_at_def u8_at_drop)

lemma u32_at_drop: "u32_at (drop k bs) i = u32_at bs (k + i)"
  by (simp add: u32_at_def u16_at_drop add.assoc)

lemma wsum_Suc: "wsum (Suc n) bs = unat (ntohs (u16_at bs 0)) + wsum n (drop 2 bs)"
  unfolding wsum_def by (subst sum.lessThan_Suc_shift) (simp add: u16_at_drop)

lemma unat_sum_words:
  "unat s + n * 65535 < 2 ^ 32 \<Longrightarrow> unat (sum_words n bs s) = unat s + wsum n bs"
proof (induction n arbitrary: bs s)
  case 0
  then show ?case by (simp add: wsum_def)
next
  case (Suc n)
  let ?w = "ntohs (u16_at bs 0)"
  have le: "unat ?w \<le> 65535" by (rule unat_u16_le)
  have s: "unat (s + ucast ?w) = unat s + unat ?w"
    using Suc.prems le by (simp add: unat_add_u32)
  then have "unat (s + ucast ?w) + n * 65535 < 2 ^ 32"
    using Suc.prems le by simp
  from Suc.IH [OF this, of "drop 2 bs"] s show ?case
    by (simp add: wsum_Suc)
qed

text \<open>The total that is folded: the words of the region and the odd last byte.\<close>

definition region_sum :: "byte list \<Rightarrow> nat \<Rightarrow> nat" where
  "region_sum bs n = wsum (n div 2) bs + (if odd n then 256 * unat (u8_at bs (n - 1)) else 0)"

lemma region_sum_le: "region_sum bs n \<le> (n div 2 + 1) * 65535"
proof -
  have "unat (u8_at bs (n - 1)) < 256" by (rule unat_u8_less)
  then show ?thesis
    using wsum_le [of "n div 2" bs] by (simp add: region_sum_def)
qed

lemma region_bound:
  fixes s n :: nat
  assumes "s \<le> (n div 2 + 1) * 65535" and "n < 131000"
  shows "s < 2 ^ 32"
proof -
  have "n div 2 + 1 \<le> 65500" using assms(2) by auto
  then have "(n div 2 + 1) * 65535 \<le> 65500 * 65535" by (rule mult_le_mono1)
  with assms(1) show ?thesis by simp
qed

lemma unat_push_byte: "unat (push_bit 8 (ucast (b :: byte)) :: u32) = 256 * unat b"
proof -
  have "256 * unat b < 2 ^ 32" using unat_u8_less [of b] by simp
  then show ?thesis
    by (simp add: push_bit_eq_mult unat_word_ariths mult.commute)
qed

lemma generatechecksum_eq:
  assumes "n \<le> length buf" and "n < 131000"
  shows "generatechecksum buf (int n) =
           Inr (htons (checksum_fold (of_nat (region_sum buf n))))"
proof -
  have size: "nat (int n div 2) = n div 2" by simp
  have bound: "unat (0 :: u32) + (n div 2) * 65535 < 2 ^ 32"
    using assms(2) by simp
  have sw: "unat (sum_words (n div 2) buf 0) = wsum (n div 2) buf"
    using unat_sum_words [OF bound] by simp
  have rs: "region_sum buf n < 2 ^ 32"
    using region_sum_le [of buf n] assms(2) by (simp add: region_bound)
  have last: "2 * (n div 2) = n - 1" if "odd n"
    using that by presburger
  have "unat (if odd n then sum_words (n div 2) buf 0
                 + push_bit 8 (ucast (u8_at buf (2 * (n div 2))))
              else sum_words (n div 2) buf 0) = region_sum buf n"
    using rs sw last
    by (auto simp: region_sum_def unat_push_byte unat_word_ariths)
  then have "(if odd n then sum_words (n div 2) buf 0
                 + push_bit 8 (ucast (u8_at buf (2 * (n div 2))))
              else sum_words (n div 2) buf 0) = of_nat (region_sum buf n)"
    using rs by (simp add: word_unat_eq_iff unat_of_nat)
  with assms(1) show ?thesis
    by (auto simp: generatechecksum_def Let_def size need_def)
qed

section \<open>Folding is reduction modulo 65535\<close>

lemma fold_nat:
  assumes "s < 2 ^ 32"
  shows "(s div 65536 + s mod 65536 + (s div 65536 + s mod 65536) div 65536) mod 65536
         = (if s = 0 then 0 else Suc ((s - 1) mod 65535))"
proof -
  define a b where "a = s div 65536" and "b = s mod 65536"
  have s: "s = 65536 * a + b" and b: "b < 65536" and a: "a < 65536"
    using assms by (auto simp: a_def b_def less_mult_imp_div_less)
  show ?thesis
  proof (cases "s = 0")
    case True
    then show ?thesis by simp
  next
    case False
    have "(s - 1) mod 65535 = (65535 * a + (a + b - 1)) mod 65535"
    proof -
      have "s - 1 = 65535 * a + (a + b - 1)" using s False by auto
      then show ?thesis by (simp only:)
    qed
    also have "\<dots> = (a + b - 1) mod 65535" by simp
    finally have m: "(s - 1) mod 65535 = (a + b - 1) mod 65535" .
    have "(a + b + (a + b) div 65536) mod 65536 = Suc ((a + b - 1) mod 65535)"
    proof (cases "a + b < 65536")
      case True
      with False s show ?thesis by (cases "a + b = 65536 - 1") auto
    next
      case ge: False
      then have "(a + b) div 65536 = 1" using a b by auto
      moreover have "(a + b - 1) mod 65535 = a + b - 65536"
        using ge a b by (simp add: mod_if)
      moreover have "(a + b + 1) mod 65536 = a + b + 1 - 65536"
        using ge a b by (simp add: mod_if)
      ultimately show ?thesis using ge by simp
    qed
    with m False show ?thesis by (simp add: a_def b_def)
  qed
qed

lemma unat_checksum_fold:
  "unat (checksum_fold s) =
     65535 - (if s = 0 then 0 else Suc ((unat s - 1) mod 65535))"
proof -
  define t where "t = drop_bit 16 s + (s AND 0xffff)"
  have su: "unat s < 2 ^ 32" using unat_u32_less [of s] by simp
  have hi: "unat (drop_bit 16 s) = unat s div 65536"
    by (simp only: unat_drop_bit_eq) (simp add: drop_bit_eq_div)
  have lo: "unat (s AND 0xffff) = unat s mod 65536"
  proof -
    have "s AND 0xffff = take_bit 16 s"
      by (simp add: take_bit_eq_mask mask_eq_exp_minus_1)
    then show ?thesis by (simp add: unsigned_take_bit_eq) (simp add: take_bit_eq_mod)
  qed
  have t: "unat t = unat s div 65536 + unat s mod 65536"
  proof -
    have "unat s div 65536 + unat s mod 65536 < 2 ^ 32" using su by auto
    then show ?thesis by (simp add: t_def unat_word_ariths hi lo)
  qed
  have tle: "unat t \<le> 131070" using su by (auto simp: t)
  have "unat (t + drop_bit 16 t) = unat t + unat t div 65536"
    using tle by (simp add: unat_word_ariths unat_drop_bit_eq) (simp add: drop_bit_eq_div)
  then have u: "unat (ucast (t + drop_bit 16 t) :: u16)
      = (unat t + unat t div 65536) mod 65536"
    by (simp add: unat_ucast_u32_u16)
  have not_ucast: "(ucast (NOT x) :: u16) = NOT (ucast x)" for x :: u32
    by (rule bit_word_eqI) (auto simp: bit_simps)
  have not_unat: "unat (NOT x) = 65535 - unat x" for x :: u16
  proof -
    have "NOT x = - 1 - x" by (simp add: not_eq_complement)
    moreover have "x \<le> - 1" by simp
    ultimately have "unat (NOT x) = unat (- 1 :: u16) - unat x"
      by (simp only: unat_sub)
    moreover have "unat (- 1 :: u16) = 65535"
      by (simp add: unsigned_minus_1_eq_mask mask_eq_exp_minus_1)
    ultimately show ?thesis by simp
  qed
  have "unat (checksum_fold s) = 65535 - (unat t + unat t div 65536) mod 65536"
    by (simp add: checksum_fold_def Let_def flip: t_def) (simp add: not_ucast not_unat u)
  then show ?thesis
    using fold_nat [OF su] by (simp add: t unat_eq_zero)
qed

lemma complement_folds_to_0:
  assumes "T + 65535 < 2 ^ 32"
  shows "checksum_fold (of_nat (T + unat (checksum_fold (of_nat T)))) = 0"
proof -
  define c where "c = unat (checksum_fold (of_nat T :: u32))"
  have T: "unat (of_nat T :: u32) = T" using assms by (simp add: unat_of_nat)
  have c: "c = 65535 - (if T = 0 then 0 else Suc ((T - 1) mod 65535))"
    using T by (simp add: c_def unat_checksum_fold flip: unat_eq_zero)
  have cle: "c \<le> 65535" by (simp add: c)
  have S: "unat (of_nat (T + c) :: u32) = T + c"
    using assms cle by (simp add: unat_of_nat del: of_nat_add)
  have mod: "Suc ((T + c - 1) mod 65535) = 65535" and pos: "T + c \<noteq> 0"
  proof -
    show "T + c \<noteq> 0" by (auto simp: c)
    show "Suc ((T + c - 1) mod 65535) = 65535"
    proof (cases "T = 0")
      case True
      then show ?thesis by (simp add: c)
    next
      case False
      define r where "r = (T - 1) mod 65535"
      define q where "q = (T - 1) div 65535"
      have r: "r < 65535" by (simp add: r_def)
      have "T = Suc (65535 * q + r)"
        using False by (simp add: q_def r_def)
      moreover have "c = 65535 - Suc r" using False by (simp add: c r_def)
      ultimately have "T + c - 1 = 65535 * q + 65534" using r by simp
      then show ?thesis by simp
    qed
  qed
  have "unat (checksum_fold (of_nat (T + c) :: u32)) = 0"
    using S mod pos by (simp add: unat_checksum_fold flip: unat_eq_zero)
  then show ?thesis by (simp add: c_def unat_eq_zero)
qed

section \<open>A filled checksum verifies\<close>

lemma wsum_put16:
  assumes "m < n" and "2 * m + 1 < length bs"
  shows "wsum n (put16 (2 * m) v bs) = wsum n (put16 (2 * m) 0 bs) + unat (ntohs v)"
proof -
  let ?f = "\<lambda>v i. unat (ntohs (u16_at (put16 (2 * m) v bs) (2 * i)))"
  have rest: "(\<Sum>i\<in>{..<n} - {m}. ?f v i) = (\<Sum>i\<in>{..<n} - {m}. ?f 0 i)"
  proof (rule sum.cong [OF refl])
    fix i
    assume "i \<in> {..<n} - {m}"
    then have "2 * m + 2 \<le> 2 * i \<or> 2 * i + 2 \<le> 2 * m" by auto
    then show "?f v i = ?f 0 i" by (simp only: u16_at_put16)
  qed
  have split: "wsum n (put16 (2 * m) w bs) = unat (ntohs w) + (\<Sum>i\<in>{..<n} - {m}. ?f w i)" for w
    using assms
    by (simp add: wsum_def sum.remove [of "{..<n}" m] u16_at_put16_same)
  show ?thesis by (simp add: split [of v] split [of 0] rest)
qed

lemma region_sum_put16:
  assumes "even k" and "k + 2 \<le> n" and "n \<le> length bs"
  shows "region_sum (put16 k v bs) n = region_sum (put16 k 0 bs) n + unat (ntohs v)"
proof -
  obtain m where k: "k = 2 * m" using assms(1) by blast
  have "u8_at (put16 k w bs) (n - 1) = u8_at bs (n - 1)" if "odd n" for w
    using that assms k by (auto simp: u8_at_put16) presburger+
  then show ?thesis
    using wsum_put16 [of m "n div 2" bs v] assms k
    by (auto simp: region_sum_def)
qed

theorem checksum_field_verifies:
  assumes "even k" and "k + 2 \<le> n" and "n \<le> length bs" and "n < 130000"
    and "generatechecksum (put16 k 0 bs) (int n) = Inr c"
  shows "generatechecksum (put16 k c bs) (int n) = Inr 0"
proof -
  let ?T = "region_sum (put16 k 0 bs) n"
  have T: "?T + 65535 < 2 ^ 32"
  proof -
    have "?T + 65535 \<le> ((n + 2) div 2 + 1) * 65535"
      using region_sum_le [of "put16 k 0 bs" n] by simp
    then show ?thesis using assms(4) by (intro region_bound [of _ "n + 2"]) auto
  qed
  have c: "c = htons (checksum_fold (of_nat ?T))"
    using assms by (simp add: generatechecksum_eq)
  have "region_sum (put16 k c bs) n = ?T + unat (checksum_fold (of_nat ?T :: u32))"
    using region_sum_put16 [OF assms(1-3), of c] by (simp add: c)
  then have "checksum_fold (of_nat (region_sum (put16 k c bs) n)) = 0"
    using complement_folds_to_0 [OF T] by (simp only:)
  then show ?thesis
    using assms(3,4) by (simp add: generatechecksum_eq)
qed

lemma generatechecksum_returns:
  "n \<le> length bs \<Longrightarrow> n < 131000 \<Longrightarrow> \<exists>c. generatechecksum bs (int n) = Inr c"
  by (simp add: generatechecksum_eq)

text \<open>The checksum depends on the bytes of the region only.\<close>

lemma u16_at_cong: "u8_at p i = u8_at q i \<Longrightarrow> u8_at p (i + 1) = u8_at q (i + 1) \<Longrightarrow> u16_at p i = u16_at q i"
  by (simp add: u16_at_def)

lemma generatechecksum_cong:
  assumes "n \<le> length a" and "n \<le> length b" and "n < 131000"
    and "\<And>i. i < n \<Longrightarrow> u8_at a i = u8_at b i"
  shows "generatechecksum a (int n) = generatechecksum b (int n)"
proof -
  have "u16_at a (2 * i) = u16_at b (2 * i)" if "i < n div 2" for i
    using that by (intro u16_at_cong assms(4)) auto
  then have "wsum (n div 2) a = wsum (n div 2) b" by (simp add: wsum_def)
  then have "region_sum a n = region_sum b n"
    using assms(4) [of "n - 1"] by (auto simp: region_sum_def elim: oddE)
  then show ?thesis using assms by (simp add: generatechecksum_eq)
qed

section \<open>Headers with a checksum field\<close>

lemma put8_put8_same: "put8 i v (put8 i u p) = put8 i v p"
  by (simp add: put8_def)

lemma put16_put16_same: "put16 i v (put16 i u p) = put16 i v p"
  by (simp add: put16_def put8_def list_update_swap)

lemma drop_put8: "base \<le> i \<Longrightarrow> drop base (put8 i v p) = put8 (i - base) v (drop base p)"
  by (simp add: put8_def drop_update_swap)

lemma drop_put16: "base \<le> i \<Longrightarrow> drop base (put16 i v p) = put16 (i - base) v (drop base p)"
  by (simp add: put16_def drop_put8 Suc_diff_le)

text \<open>
  A header at \<open>base\<close> with a 16-bit aligned checksum field at \<open>off\<close>: once filled, it
  verifies, and nothing else of the buffer changes.
\<close>

locale checksummed =
  fixes base off :: nat
  assumes base_le: "base \<le> off" and aligned: "even (off - base)"
begin

lemma fill_verifies:
  assumes "off + 2 \<le> base + n" and "base + n \<le> length p" and "n < 130000"
  shows "\<exists>c. checksum_fill base off (int n) p = Inr (put16 off c p)
           \<and> generatechecksum (drop base (put16 off c p)) (int n) = Inr 0"
proof -
  let ?bs = "drop base p"
  have zero: "drop base (put16 off 0 p) = put16 (off - base) 0 ?bs"
    by (rule drop_put16 [OF base_le])
  have len: "n \<le> length ?bs" using assms(2) by simp
  obtain c where c: "generatechecksum (put16 (off - base) 0 ?bs) (int n) = Inr c"
    using generatechecksum_returns [of n "put16 (off - base) 0 ?bs"] len assms(3) by auto
  have "generatechecksum (put16 (off - base) c ?bs) (int n) = Inr 0"
    using checksum_field_verifies [OF aligned _ len assms(3) c] assms(1) base_le by simp
  moreover have "checksum_fill base off (int n) p = Inr (put16 off c p)"
    by (simp add: checksum_fill_def zero c put16_put16_same)
  ultimately show ?thesis by (auto simp: drop_put16 [OF base_le])
qed

lemma fill_safe:
  assumes "off + 2 \<le> base + n" and "base + n \<le> length p" and "n < 130000"
  shows "safe {} (\<lambda>p'. \<exists>c. p' = put16 off c p
           \<and> generatechecksum (drop base p') (int n) = Inr 0) (checksum_fill base off (int n) p)"
  using fill_verifies [OF assms] by auto

end

interpretation ip_sum: checksummed 14 24
  by unfold_locales simp_all

interpretation icmp_sum: checksummed 34 36
  by unfold_locales simp_all

interpretation ospf_sum: checksummed 34 46
  by unfold_locales simp_all

end
