(* ===== verification/Dataqueue.thy ===== *)
theory Dataqueue
  imports Prelude
begin

text \<open>
  The growable array every table of the router lives in (\<open>dataqueue.c\<close>).  A queue
  owns one buffer per entry, the parallel array of buffer sizes, the element count
  and a mutex.  The buffers are modelled by the values stored in them, so the type
  is polymorphic in the entry; the sizes are kept, because every client asserts
  them.  The mutex is a flag: locking a held mutex is the fault \<open>Deadlock\<close>.

  \<open>queue_getidandlock\<close> does not lock: the guard of its \<open>pthread_mutex_lock\<close> reads
  \<open>#if LOCKING_ENABLEDrtable_old\<close>, an undefined macro, hence 0.

  The theory ends with the two loop shapes clients write over a queue (search for
  the first match, and removal while iterating), their exact list semantics, and
  the interface locale with its interpretation.
\<close>

section \<open>State and operations\<close>

record 'a dataqueue =
  packet :: "'a list"
  packet_sizes :: "int list"
  locker :: bool
  qsize :: int

definition queue_init :: "'a dataqueue" where
  "queue_init = \<lparr>packet = [], packet_sizes = [], locker = False, qsize = 0\<rparr>"

definition queue_lockall :: "'a dataqueue \<Rightarrow> 'a dataqueue result" where
  "queue_lockall q = need (\<not> locker q) Deadlock (Inr (q\<lparr>locker := True\<rparr>))"

definition queue_unlockall :: "'a dataqueue \<Rightarrow> 'a dataqueue" where
  "queue_unlockall q = q\<lparr>locker := False\<rparr>"

text \<open>
  The arrays are reallocated to \<open>size + 1\<close> cells, the copy of the data goes into
  cell \<open>id = size\<close>, then \<open>size\<close> grows.
\<close>

definition queue_add_unsafe :: "'a dataqueue \<Rightarrow> 'a \<Rightarrow> int \<Rightarrow> 'a dataqueue" where
  "queue_add_unsafe q data sz =
     (let idx = nat (qsize q)
      in q\<lparr>packet := take idx (packet q) @ [data],
            packet_sizes := take idx (packet_sizes q) @ [sz],
            qsize := qsize q + 1\<rparr>)"

definition queue_add :: "'a dataqueue \<Rightarrow> 'a \<Rightarrow> int \<Rightarrow> 'a dataqueue result" where
  "queue_add q data sz =
     bindr (queue_lockall q) (\<lambda>q. Inr (queue_unlockall (queue_add_unsafe q data sz)))"

text \<open>
  A replacement of another size reallocates the buffer, but \<open>packet_sizes\<close> keeps
  the old size.
\<close>

definition queue_replace ::
    "'a dataqueue \<Rightarrow> 'a \<Rightarrow> int \<Rightarrow> int \<Rightarrow> (int \<times> 'a dataqueue) result" where
  "queue_replace q data sz idx =
     bindr (queue_lockall q) (\<lambda>q.
       if idx \<ge> qsize q \<or> idx < 0 then Inr (0, queue_unlockall q)
       else Inr (1, queue_unlockall (q\<lparr>packet := (packet q)[nat idx := data]\<rparr>)))"

text \<open>The loop \<open>for (i = id; i < size-1; i++) a[i] = a[i+1]\<close>.\<close>

fun shift_down :: "nat \<Rightarrow> nat \<Rightarrow> 'b list \<Rightarrow> 'b list" where
  "shift_down 0 i a = a"
| "shift_down (Suc n) i a = shift_down n (Suc i) (a[i := a ! Suc i])"

definition remove_cell :: "'a dataqueue \<Rightarrow> int \<Rightarrow> 'a dataqueue" where
  "remove_cell q idx =
     (let i = nat idx; n = nat (qsize q)
      in q\<lparr>packet := take (n - 1) (shift_down (n - 1 - i) i (packet q)),
            packet_sizes := take (n - 1) (shift_down (n - 1 - i) i (packet_sizes q)),
            qsize := qsize q - 1\<rparr>)"

definition queue_removeunsafe :: "'a dataqueue \<Rightarrow> int \<Rightarrow> 'a dataqueue" where
  "queue_removeunsafe q idx =
     (if idx \<ge> qsize q \<or> idx < 0 then q else remove_cell q idx)"

definition queue_unlockidandremove :: "'a dataqueue \<Rightarrow> int \<Rightarrow> 'a dataqueue" where
  "queue_unlockidandremove q idx =
     (if idx \<ge> qsize q \<or> idx < 0 then q\<lparr>locker := False\<rparr>
      else (remove_cell q idx)\<lparr>locker := False\<rparr>)"

definition queue_getcurrentsize :: "'a dataqueue \<Rightarrow> int" where
  "queue_getcurrentsize q = qsize q"

text \<open>\<open>None\<close> is the return value 0; \<open>Some (data, size)\<close> the value 1 with its out parameters.\<close>

definition queue_getidunsafe :: "'a dataqueue \<Rightarrow> int \<Rightarrow> ('a \<times> int) option" where
  "queue_getidunsafe q idx =
     (if idx \<ge> qsize q \<or> idx < 0 then None
      else Some (packet q ! nat idx, packet_sizes q ! nat idx))"

definition queue_getidandlock ::
    "'a dataqueue \<Rightarrow> int \<Rightarrow> ('a \<times> int) option \<times> 'a dataqueue" where
  "queue_getidandlock q idx =
     (if idx \<ge> qsize q \<or> idx < 0 then (None, q\<lparr>locker := False\<rparr>)
      else (Some (packet q ! nat idx, packet_sizes q ! nat idx), q))"

definition queue_unlockid :: "'a dataqueue \<Rightarrow> int \<Rightarrow> 'a dataqueue" where
  "queue_unlockid q idx = q\<lparr>locker := False\<rparr>"

function queue_purge :: "'a dataqueue \<Rightarrow> 'a dataqueue" where
  "queue_purge q =
     (if qsize q > 0 then
        (case queue_getidandlock q 0 of
           (Some _, q1) \<Rightarrow> queue_purge (queue_unlockidandremove q1 0)
         | (None, q1) \<Rightarrow> q1)
      else q)"
  by pat_completeness auto
termination
  by (relation "measure (\<lambda>q. nat (qsize q))")
     (auto simp: queue_getidandlock_def queue_unlockidandremove_def remove_cell_def Let_def
        split: if_splits)

function queue_purge_unsafe :: "'a dataqueue \<Rightarrow> 'a dataqueue" where
  "queue_purge_unsafe q =
     (if qsize q > 0 then
        (case queue_getidunsafe q 0 of
           Some _ \<Rightarrow> queue_purge_unsafe (queue_removeunsafe q 0)
         | None \<Rightarrow> q)
      else q)"
  by pat_completeness auto
termination
  by (relation "measure (\<lambda>q. nat (qsize q))")
     (auto simp: queue_getidunsafe_def queue_removeunsafe_def remove_cell_def Let_def
        split: if_splits)

declare queue_purge.simps [simp del] queue_purge_unsafe.simps [simp del]

text \<open>
  \<open>queue_existsunsafe\<close> compares the object representations with \<open>memcmp\<close>; \<open>eq\<close> is
  that comparison on the entry type (equality for the packed structs, which have
  no padding).
\<close>

function exists_from :: "('a \<Rightarrow> 'a \<Rightarrow> bool) \<Rightarrow> 'a dataqueue \<Rightarrow> 'a \<Rightarrow> int \<Rightarrow> int" where
  "exists_from eq q data i =
     (if 0 \<le> i \<and> i < qsize q then
        (if eq (packet q ! nat i) data then i else exists_from eq q data (i + 1))
      else -1)"
  by pat_completeness auto
termination
  by (relation "measure (\<lambda>(eq, q, data, i). nat (qsize q - i))") auto

declare exists_from.simps [simp del]

definition queue_existsunsafe :: "('a \<Rightarrow> 'a \<Rightarrow> bool) \<Rightarrow> 'a dataqueue \<Rightarrow> 'a \<Rightarrow> int" where
  "queue_existsunsafe eq q data = exists_from eq q data 0"

text \<open>\<open>queue_free\<close> purges the queue and releases the two arrays.\<close>

definition queue_free :: "'a dataqueue \<Rightarrow> 'a dataqueue" where
  "queue_free q = queue_purge q"

section \<open>Invariant and list semantics of the operations\<close>

text \<open>
  \<open>queue_inv s q\<close>: the arrays are as long as \<open>size\<close> says and every entry was stored
  with the size \<open>s\<close> its clients assert.
\<close>

definition queue_inv :: "int \<Rightarrow> 'a dataqueue \<Rightarrow> bool" where
  "queue_inv s q \<longleftrightarrow>
     qsize q = int (length (packet q)) \<and> packet_sizes q = replicate (length (packet q)) s"

lemma queue_inv_qsize: "queue_inv s q \<Longrightarrow> qsize q = int (length (packet q))"
  by (simp add: queue_inv_def)

lemma queue_inv_locker [simp]: "queue_inv s (q\<lparr>locker := b\<rparr>) = queue_inv s q"
  by (simp add: queue_inv_def)

lemma queue_inv_init [simp]: "queue_inv s queue_init"
  by (simp add: queue_inv_def queue_init_def)

lemma packet_init [simp]: "packet queue_init = []"
  by (simp add: queue_init_def)

lemma unlocked_init [simp]: "\<not> locker queue_init"
  by (simp add: queue_init_def)

lemma unlocked_eq: "\<not> locker q \<Longrightarrow> q\<lparr>locker := False\<rparr> = q"
  by simp

text \<open>A queue in normal form: a list of entries of size \<open>s\<close>, unlocked.\<close>

definition queue_of :: "int \<Rightarrow> 'a list \<Rightarrow> 'a dataqueue" where
  "queue_of s xs = \<lparr>packet = xs, packet_sizes = replicate (length xs) s,
                    locker = False, qsize = int (length xs)\<rparr>"

lemma queue_of_sel [simp]:
  "packet (queue_of s xs) = xs" "locker (queue_of s xs) = False"
  "qsize (queue_of s xs) = int (length xs)"
  "packet_sizes (queue_of s xs) = replicate (length xs) s"
  by (simp_all add: queue_of_def)

lemma queue_inv_of [simp]: "queue_inv s (queue_of s xs)"
  by (simp add: queue_inv_def)

lemma queue_of_unlock [simp]: "(queue_of s xs)\<lparr>locker := False\<rparr> = queue_of s xs"
  by (simp add: queue_of_def)

lemma queue_of_packet: "queue_inv s q \<Longrightarrow> \<not> locker q \<Longrightarrow> queue_of s (packet q) = q"
  by (cases q) (simp add: queue_of_def queue_inv_def)

lemma queue_of_cases:
  assumes "queue_inv s q" and "\<not> locker q"
  obtains xs where "q = queue_of s xs"
  using queue_of_packet [OF assms] that by metis

lemma queue_init_of: "queue_init = queue_of s []"
  by (simp add: queue_init_def queue_of_def)

lemma queue_add_unsafe_of: "queue_add_unsafe (queue_of s xs) x s = queue_of s (xs @ [x])"
  by (simp add: queue_add_unsafe_def queue_of_def Let_def flip: replicate_append_same)

lemma queue_add_of: "queue_add (queue_of s xs) x s = Inr (queue_of s (xs @ [x]))"
  by (simp add: queue_add_def queue_lockall_def queue_unlockall_def queue_add_unsafe_def
      queue_of_def Let_def flip: replicate_append_same)

lemma queue_replace_of:
  "queue_replace (queue_of s xs) x sz i =
     Inr (if 0 \<le> i \<and> i < int (length xs) then (1, queue_of s (xs[nat i := x]))
          else (0, queue_of s xs))"
  by (auto simp: queue_replace_def queue_lockall_def queue_unlockall_def queue_of_def)

lemma length_shift_down [simp]: "length (shift_down n i a) = length a"
  by (induction n i a rule: shift_down.induct) auto

lemma shift_down_eq:
  "i + n < length a \<Longrightarrow>
   take (i + n) (shift_down n i a) = take i a @ take n (drop (Suc i) a)"
proof (induction n i a rule: shift_down.induct)
  case (1 i a)
  then show ?case by simp
next
  case (2 n i a)
  let ?b = "a[i := a ! Suc i]"
  have "take (Suc i + n) (shift_down n (Suc i) ?b)
        = take (Suc i) ?b @ take n (drop (Suc (Suc i)) ?b)"
    using 2 by simp
  moreover have "take (Suc i) ?b = take i a @ [a ! Suc i]"
    using 2 by (simp add: take_Suc_conv_app_nth)
  moreover have "drop (Suc (Suc i)) ?b = drop (Suc (Suc i)) a"
    by simp
  moreover have "drop (Suc i) a = a ! Suc i # drop (Suc (Suc i)) a"
    using 2 by (simp add: Cons_nth_drop_Suc)
  ultimately show ?case by simp
qed

lemma shift_down_removes:
  assumes "i < length a"
  shows "take (length a - 1) (shift_down (length a - 1 - i) i a)
         = take i a @ drop (Suc i) a"
  using assms shift_down_eq [of i "length a - 1 - i" a] by simp

lemma remove_cell_of:
  assumes "0 \<le> i" and "i < int (length xs)"
  shows "remove_cell (queue_of s xs) i =
           queue_of s (take (nat i) xs @ drop (Suc (nat i)) xs)"
proof -
  have i: "nat i < length xs" using assms by linarith
  then have "length xs = Suc (length xs - 1)" by simp
  then have "take (nat i) (replicate (length xs) s) @ drop (Suc (nat i)) (replicate (length xs) s)
             = replicate (length xs - 1) s"
    using i by (simp flip: replicate_add)
  then show ?thesis
    using i shift_down_removes [OF i] shift_down_removes [of "nat i" "replicate (length xs) s"]
    by (simp add: remove_cell_def queue_of_def Let_def)
qed

definition remove_nth :: "nat \<Rightarrow> 'b list \<Rightarrow> 'b list" where
  "remove_nth i xs = take i xs @ drop (Suc i) xs"

lemma length_remove_nth [simp]: "i < length xs \<Longrightarrow> length (remove_nth i xs) = length xs - 1"
  by (simp add: remove_nth_def)

lemma queue_unlockidandremove_of:
  "queue_unlockidandremove (queue_of s xs) i =
     queue_of s (if 0 \<le> i \<and> i < int (length xs) then remove_nth (nat i) xs else xs)"
  by (auto simp: queue_unlockidandremove_def remove_cell_of remove_nth_def)

lemma queue_removeunsafe_of:
  "queue_removeunsafe (queue_of s xs) i =
     queue_of s (if 0 \<le> i \<and> i < int (length xs) then remove_nth (nat i) xs else xs)"
  by (auto simp: queue_removeunsafe_def remove_cell_of remove_nth_def)

lemma queue_getidandlock_of:
  "queue_getidandlock (queue_of s xs) i =
     (if 0 \<le> i \<and> i < int (length xs) then Some (xs ! nat i, s) else None, queue_of s xs)"
  by (auto simp: queue_getidandlock_def nat_less_iff)

lemma queue_getidunsafe_of:
  "queue_getidunsafe (queue_of s xs) i =
     (if 0 \<le> i \<and> i < int (length xs) then Some (xs ! nat i, s) else None)"
  by (auto simp: queue_getidunsafe_def nat_less_iff)

lemma queue_unlockid_of: "queue_unlockid (queue_of s xs) i = queue_of s xs"
  by (simp add: queue_unlockid_def)

lemmas [queue_simps] =
  queue_add_unsafe_of queue_add_of queue_replace_of queue_unlockidandremove_of
  queue_removeunsafe_of queue_getidandlock_of queue_getidunsafe_of queue_unlockid_of

lemma queue_purge_of: "queue_purge (queue_of s xs) = queue_of s []"
proof (induction xs)
  case Nil
  then show ?case by (simp add: queue_purge.simps)
next
  case (Cons x xs)
  then show ?case
    by (subst queue_purge.simps) (simp add: queue_simps remove_nth_def)
qed

lemma queue_purge_unsafe_of: "queue_purge_unsafe (queue_of s xs) = queue_of s []"
proof (induction xs)
  case Nil
  then show ?case by (simp add: queue_purge_unsafe.simps)
next
  case (Cons x xs)
  then show ?case
    by (subst queue_purge_unsafe.simps) (simp add: queue_simps remove_nth_def)
qed

section \<open>Searching a queue\<close>

text \<open>
  The search loop of the lookup functions: \<open>for (i = 0; i < q->size; i++)
  if (queue_getidandlock(q, i, &entry, &entry_size)) { assert(entry_size == sizeof(T));
  if (P) { unlock; return i; } unlock; }\<close>.  The first match is returned with its
  index; \<open>None\<close> stands for the return value \<open>-1\<close>.
\<close>

function queue_find_from ::
    "int \<Rightarrow> ('a \<Rightarrow> bool) \<Rightarrow> 'a dataqueue \<Rightarrow> int
      \<Rightarrow> ((int \<times> 'a) option \<times> 'a dataqueue) result" where
  "queue_find_from sz P q i =
     (if i < qsize q then
        (case queue_getidandlock q i of
           (Some (entry, entry_size), q1) \<Rightarrow>
             need (entry_size = sz) AssertFail
               (if P entry then Inr (Some (i, entry), queue_unlockid q1 i)
                else queue_find_from sz P (queue_unlockid q1 i) (i + 1))
         | (None, q1) \<Rightarrow> queue_find_from sz P q1 (i + 1))
      else Inr (None, q))"
  by pat_completeness auto
termination
  by (relation "measure (\<lambda>(sz, P, q, i). nat (qsize q - i))")
     (auto simp: queue_getidandlock_def queue_unlockid_def split: if_splits)

declare queue_find_from.simps [simp del]

definition queue_find ::
    "int \<Rightarrow> ('a \<Rightarrow> bool) \<Rightarrow> 'a dataqueue \<Rightarrow> ((int \<times> 'a) option \<times> 'a dataqueue) result" where
  "queue_find sz P q = queue_find_from sz P q 0"

primrec first_match :: "('a \<Rightarrow> bool) \<Rightarrow> 'a list \<Rightarrow> (nat \<times> 'a) option" where
  "first_match P [] = None"
| "first_match P (x # xs) =
     (if P x then Some (0, x) else map_option (\<lambda>(i, y). (Suc i, y)) (first_match P xs))"

lemma first_match_None: "first_match P xs = None \<longleftrightarrow> (\<forall>x\<in>set xs. \<not> P x)"
  by (induction xs) auto

lemma first_match_Some:
  "first_match P xs = Some (i, x) \<longleftrightarrow>
     i < length xs \<and> xs ! i = x \<and> P x \<and> (\<forall>j<i. \<not> P (xs ! j))"
proof (induction xs arbitrary: i)
  case Nil
  then show ?case by simp
next
  case (Cons y ys)
  show ?case
  proof (cases i)
    case 0
    then show ?thesis by auto
  next
    case (Suc k)
    have "first_match P (y # ys) = Some (i, x) \<longleftrightarrow> \<not> P y \<and> first_match P ys = Some (k, x)"
      using Suc by auto
    then show ?thesis
      using Cons.IH [of k] Suc by (auto simp: All_less_Suc2)
  qed
qed

lemma first_match_append:
  "first_match P (xs @ ys) =
     (case first_match P xs of
        Some r \<Rightarrow> Some r
      | None \<Rightarrow> map_option (\<lambda>(i, y). (length xs + i, y)) (first_match P ys))"
proof (induction xs)
  case Nil
  then show ?case by (auto simp: option.map_ident split_def cong: option.map_cong)
next
  case (Cons a xs)
  then show ?case
    by (auto simp: option.map_comp comp_def split_def split: option.splits)
qed

lemma queue_find_from_of:
  "i \<le> length xs \<Longrightarrow>
   queue_find_from s P (queue_of s xs) (int i) =
     Inr (map_option (\<lambda>(j, x). (int (i + j), x)) (first_match P (drop i xs)), queue_of s xs)"
proof (induction "length xs - i" arbitrary: i)
  case 0
  then show ?case by (simp add: queue_find_from.simps)
next
  case (Suc n)
  then have i: "i < length xs" by simp
  have IH: "queue_find_from s P (queue_of s xs) (int (Suc i)) =
      Inr (map_option (\<lambda>(j, x). (int (Suc i + j), x)) (first_match P (drop (Suc i) xs)),
           queue_of s xs)"
    using Suc.hyps(1) [of "Suc i"] Suc.hyps(2) i by simp
  have "drop i xs = xs ! i # drop (Suc i) xs"
    using i by (simp add: Cons_nth_drop_Suc)
  then show ?case
    using i IH
    by (subst queue_find_from.simps)
       (auto simp: queue_simps option.map_comp comp_def split_def ac_simps)
qed

lemma queue_find_of [queue_simps]:
  "queue_find s P (queue_of s xs) =
     Inr (map_option (\<lambda>(i, x). (int i, x)) (first_match P xs), queue_of s xs)"
  using queue_find_from_of [of 0 xs s P] by (simp add: queue_find_def)

lemma exists_from_of:
  "i \<le> length xs \<Longrightarrow>
   exists_from eq (queue_of s xs) x (int i) =
     (case first_match (\<lambda>y. eq y x) (drop i xs) of None \<Rightarrow> -1 | Some (j, _) \<Rightarrow> int (i + j))"
proof (induction "length xs - i" arbitrary: i)
  case 0
  then show ?case by (simp add: exists_from.simps)
next
  case (Suc n)
  then have i: "i < length xs" by simp
  have IH: "exists_from eq (queue_of s xs) x (int (Suc i)) =
      (case first_match (\<lambda>y. eq y x) (drop (Suc i) xs) of
         None \<Rightarrow> -1 | Some (j, _) \<Rightarrow> int (Suc i + j))"
    using Suc.hyps(1) [of "Suc i"] Suc.hyps(2) i by simp
  have "drop i xs = xs ! i # drop (Suc i) xs"
    using i by (simp add: Cons_nth_drop_Suc)
  then show ?case
    using i IH
    by (subst exists_from.simps) (auto split: option.splits simp: add.commute)
qed

lemma queue_existsunsafe_of [queue_simps]:
  "queue_existsunsafe eq (queue_of s xs) x =
     (case first_match (\<lambda>y. eq y x) xs of None \<Rightarrow> -1 | Some (j, _) \<Rightarrow> int j)"
  using exists_from_of [of 0 xs eq s x]
  by (simp add: queue_existsunsafe_def split: option.splits)

lemma queue_existsunsafe_absent:
  "queue_existsunsafe (=) (queue_of s xs) x = -1 \<longleftrightarrow> x \<notin> set xs"
  by (auto simp: queue_existsunsafe_of first_match_None split: option.splits)
     (auto simp: first_match_Some)

section \<open>Removing while iterating\<close>

text \<open>
  The clean-up loops call \<open>queue_unlockidandremove(q, i)\<close> and then go on with
  \<open>i + 1\<close>.  The removal moves the next entry into cell \<open>i\<close>, so that entry is not
  examined.  \<open>f\<close> decides about an entry and may update a local state (a clock
  reading, a \<open>changed\<close> flag).
\<close>

function queue_sweep_from ::
    "int \<Rightarrow> ('a \<Rightarrow> 'b \<Rightarrow> bool \<times> 'b) \<Rightarrow> 'a dataqueue \<Rightarrow> int \<Rightarrow> 'b
      \<Rightarrow> ('a dataqueue \<times> 'b) result" where
  "queue_sweep_from sz f q i b =
     (if i < qsize q then
        (case queue_getidandlock q i of
           (Some (entry, entry_size), q1) \<Rightarrow>
             need (entry_size = sz) AssertFail
               (case f entry b of (del, b') \<Rightarrow>
                  if del then queue_sweep_from sz f (queue_unlockidandremove q1 i) (i + 1) b'
                  else queue_sweep_from sz f (queue_unlockid q1 i) (i + 1) b')
         | (None, q1) \<Rightarrow> queue_sweep_from sz f q1 (i + 1) b)
      else Inr (q, b))"
  by pat_completeness auto
termination
  by (relation "measure (\<lambda>(sz, f, q, i, b). nat (qsize q - i))")
     (auto simp: queue_getidandlock_def queue_unlockid_def queue_unlockidandremove_def
        remove_cell_def Let_def split: if_splits)

declare queue_sweep_from.simps [simp del]

definition queue_sweep ::
    "int \<Rightarrow> ('a \<Rightarrow> 'b \<Rightarrow> bool \<times> 'b) \<Rightarrow> 'a dataqueue \<Rightarrow> 'b \<Rightarrow> ('a dataqueue \<times> 'b) result" where
  "queue_sweep sz f q b = queue_sweep_from sz f q 0 b"

fun sweep_list :: "('a \<Rightarrow> 'b \<Rightarrow> bool \<times> 'b) \<Rightarrow> 'a list \<Rightarrow> 'b \<Rightarrow> 'a list \<times> 'b" where
  "sweep_list f [] b = ([], b)"
| "sweep_list f (x # xs) b =
     (case f x b of
        (True, b') \<Rightarrow>
          (case xs of
             [] \<Rightarrow> ([], b')
           | y # ys \<Rightarrow> (case sweep_list f ys b' of (zs, b'') \<Rightarrow> (y # zs, b'')))
      | (False, b') \<Rightarrow> (case sweep_list f xs b' of (zs, b'') \<Rightarrow> (x # zs, b'')))"

lemma take_remove_nth: "i < length xs \<Longrightarrow> take i (remove_nth i xs) = take i xs"
  by (simp add: remove_nth_def)

lemma drop_remove_nth: "i < length xs \<Longrightarrow> drop i (remove_nth i xs) = drop (Suc i) xs"
  by (simp add: remove_nth_def)

lemma queue_sweep_from_of:
  "i \<le> length xs \<Longrightarrow>
   queue_sweep_from s f (queue_of s xs) (int i) b =
     (case sweep_list f (drop i xs) b of (ys, b') \<Rightarrow> Inr (queue_of s (take i xs @ ys), b'))"
proof (induction "length xs - i" arbitrary: i xs b rule: less_induct)
  case less
  show ?case
  proof (cases "i < length xs")
    case False
    with less.prems show ?thesis by (simp add: queue_sweep_from.simps)
  next
    case i: True
    then have dr: "drop i xs = xs ! i # drop (Suc i) xs"
      by (simp add: Cons_nth_drop_Suc)
    obtain del b' where f: "f (xs ! i) b = (del, b')" by fastforce
    show ?thesis
    proof (cases del)
      case False
      have "queue_sweep_from s f (queue_of s xs) (int (Suc i)) b' =
          (case sweep_list f (drop (Suc i) xs) b' of
             (ys, b'') \<Rightarrow> Inr (queue_of s (take (Suc i) xs @ ys), b''))"
        using less.hyps [of xs "Suc i" b'] i by simp
      then show ?thesis
        using i f False dr
        by (subst queue_sweep_from.simps)
           (auto simp: queue_simps add.commute take_Suc_conv_app_nth split: prod.splits)
    next
      case True
      let ?xs = "remove_nth i xs"
      have step: "queue_sweep_from s f (queue_of s xs) (int i) b =
          queue_sweep_from s f (queue_of s ?xs) (int (Suc i)) b'"
        using i f True
        by (subst queue_sweep_from.simps) (simp add: queue_simps add.commute)
      show ?thesis
      proof (cases "Suc i < length xs")
        case False
        then have "drop (Suc i) xs = []" by simp
        with i f True dr step False show ?thesis
          by (simp add: queue_sweep_from.simps remove_nth_def)
      next
        case si: True
        have IH: "queue_sweep_from s f (queue_of s ?xs) (int (Suc i)) b' =
            (case sweep_list f (drop (Suc i) ?xs) b' of
               (ys, b'') \<Rightarrow> Inr (queue_of s (take (Suc i) ?xs @ ys), b''))"
          using less.hyps [of ?xs "Suc i" b'] i si by simp
        have d2: "drop (Suc i) xs = xs ! Suc i # drop (Suc (Suc i)) xs"
          using si by (simp add: Cons_nth_drop_Suc)
        have "drop (Suc i) ?xs = drop (Suc (Suc i)) xs"
          using i si by (simp add: remove_nth_def)
        moreover have "take (Suc i) ?xs = take i xs @ [xs ! Suc i]"
          using i si d2 by (simp add: remove_nth_def)
        ultimately show ?thesis
          using IH step f True dr d2 by (auto split: prod.splits)
      qed
    qed
  qed
qed

lemma queue_sweep_of [queue_simps]:
  "queue_sweep s f (queue_of s xs) b =
     (case sweep_list f xs b of (ys, b') \<Rightarrow> Inr (queue_of s ys, b'))"
  using queue_sweep_from_of [of 0 xs s f b] by (simp add: queue_sweep_def)

text \<open>The sweep with a predicate that needs no local state.\<close>

definition skip_filter :: "('a \<Rightarrow> bool) \<Rightarrow> 'a list \<Rightarrow> 'a list" where
  "skip_filter P xs = fst (sweep_list (\<lambda>x u. (P x, u)) xs ())"

lemma skip_filter_simps [simp]:
  "skip_filter P [] = []"
  "skip_filter P [x] = (if P x then [] else [x])"
  "P x \<Longrightarrow> skip_filter P (x # y # ys) = y # skip_filter P ys"
  "\<not> P x \<Longrightarrow> skip_filter P (x # xs) = x # skip_filter P xs"
  by (auto simp: skip_filter_def split: prod.splits)

lemma sweep_list_stateless: "sweep_list (\<lambda>x u. (P x, u)) xs () = (skip_filter P xs, ())"
  by (simp add: skip_filter_def prod_eq_iff)

lemma skip_filter_induct [case_names Nil Last Drop Keep]:
  assumes "Q []" and "\<And>x. P x \<Longrightarrow> Q [x]"
    and "\<And>x y ys. P x \<Longrightarrow> Q ys \<Longrightarrow> Q (x # y # ys)"
    and "\<And>x xs. \<not> P x \<Longrightarrow> Q xs \<Longrightarrow> Q (x # xs)"
  shows "Q xs"
proof (induction xs rule: length_induct)
  case (1 xs)
  show ?case
  proof (cases xs)
    case Nil
    with assms(1) show ?thesis by simp
  next
    case (Cons x zs)
    show ?thesis
    proof (cases "P x")
      case False
      with 1 Cons assms(4) show ?thesis by simp
    next
      case True
      with 1 Cons assms(2,3) show ?thesis by (cases zs) auto
    qed
  qed
qed

lemma skip_filter_keeps: "filter (\<lambda>x. \<not> P x) (skip_filter P xs) = filter (\<lambda>x. \<not> P x) xs"
  by (induction xs rule: skip_filter_induct [where P = P]) auto

lemma skip_filter_subset: "set (skip_filter P xs) \<subseteq> set xs"
  by (induction xs rule: skip_filter_induct [where P = P]) auto

lemma skip_filter_at_most_half:
  "2 * length (filter P (skip_filter P xs)) \<le> length (filter P xs)"
  by (induction xs rule: skip_filter_induct [where P = P]) auto

lemma skip_filter_isolated:
  assumes "\<And>i. Suc i < length xs \<Longrightarrow> P (xs ! i) \<Longrightarrow> \<not> P (xs ! Suc i)"
  shows "skip_filter P xs = filter (\<lambda>x. \<not> P x) xs"
  using assms
proof (induction xs rule: skip_filter_induct [where P = P])
  case (Drop x y ys)
  have "\<not> P y" using Drop.prems [of 0] Drop.hyps by simp
  moreover have "skip_filter P ys = filter (\<lambda>x. \<not> P x) ys"
    using Drop.IH Drop.prems [of "Suc (Suc i)" for i] by simp
  ultimately show ?case using Drop.hyps by simp
next
  case (Keep x xs)
  have "skip_filter P xs = filter (\<lambda>x. \<not> P x) xs"
    using Keep.IH Keep.prems [of "Suc i" for i] by simp
  then show ?case using Keep.hyps by simp
qed auto

section \<open>The interface of a table\<close>

text \<open>
  What the tables of the router promise their clients: entries are kept in
  insertion order, a lookup returns the first match and does not disturb the table,
  a replacement changes one cell, and every operation keeps the invariant.
\<close>

locale table =
  fixes inv :: "'q \<Rightarrow> bool"
    and entries :: "'q \<Rightarrow> 'a list"
    and add :: "'q \<Rightarrow> 'a \<Rightarrow> 'q result"
    and replace :: "'q \<Rightarrow> 'a \<Rightarrow> int \<Rightarrow> (int \<times> 'q) result"
    and lookup :: "('a \<Rightarrow> bool) \<Rightarrow> 'q \<Rightarrow> ((int \<times> 'a) option \<times> 'q) result"
  assumes add_law: "inv q \<Longrightarrow> \<exists>q'. add q x = Inr q' \<and> inv q' \<and> entries q' = entries q @ [x]"
    and replace_law: "inv q \<Longrightarrow> i < length (entries q) \<Longrightarrow>
      \<exists>q'. replace q x (int i) = Inr (1, q') \<and> inv q' \<and> entries q' = (entries q)[i := x]"
    and lookup_law: "inv q \<Longrightarrow>
      lookup P q = Inr (map_option (\<lambda>(i, x). (int i, x)) (first_match P (entries q)), q)"
begin

lemma lookup_hit_iff:
  assumes "inv q"
  shows "(\<exists>i x. lookup P q = Inr (Some (i, x), q)) \<longleftrightarrow> (\<exists>x\<in>set (entries q). P x)"
proof -
  have "(\<exists>i x. lookup P q = Inr (Some (i, x), q)) \<longleftrightarrow> first_match P (entries q) \<noteq> None"
    by (auto simp: lookup_law [OF assms])
  then show ?thesis by (simp add: first_match_None)
qed

lemma lookup_hit:
  assumes "inv q" and "lookup P q = Inr (Some (i, x), q')"
  shows "q' = q \<and> 0 \<le> i \<and> nat i < length (entries q) \<and> entries q ! nat i = x \<and> P x"
  using assms by (auto simp: lookup_law first_match_Some)

lemma lookup_after_add:
  assumes "inv q" and "add q x = Inr q'"
    and "\<And>y. y \<in> set (entries q) \<Longrightarrow> \<not> P y" and "P x"
  shows "lookup P q' = Inr (Some (int (length (entries q)), x), q')"
proof -
  have q': "inv q'" "entries q' = entries q @ [x]"
    using add_law [OF assms(1), of x] assms(2) by auto
  have "first_match P (entries q) = None"
    using assms(3) by (simp add: first_match_None)
  with q' assms(4) show ?thesis
    by (simp add: lookup_law first_match_append)
qed

lemma lookup_after_replace:
  assumes "inv q" and "i < length (entries q)" and "replace q x (int i) = Inr (r, q')"
    and "\<And>j. j < i \<Longrightarrow> \<not> P (entries q ! j)" and "P x"
  shows "lookup P q' = Inr (Some (int i, x), q')"
proof -
  have q': "inv q'" "entries q' = (entries q)[i := x]"
    using replace_law [OF assms(1,2), of x] assms(3) by auto
  have "first_match P (entries q') = Some (i, x)"
    using assms(2,4,5) q' by (simp add: first_match_Some)
  with q' show ?thesis by (simp add: lookup_law)
qed

end

definition table_inv :: "int \<Rightarrow> 'a dataqueue \<Rightarrow> bool" where
  "table_inv s q \<longleftrightarrow> queue_inv s q \<and> \<not> locker q"

lemma table_inv_of [simp]: "table_inv s (queue_of s xs)"
  by (simp add: table_inv_def)

lemma table_inv_iff: "table_inv s q \<longleftrightarrow> q = queue_of s (packet q)"
  by (metis queue_inv_of queue_of_packet queue_of_sel(2) table_inv_def)

interpretation dq: table "table_inv s" packet "\<lambda>q x. queue_add q x s"
    "\<lambda>q x i. queue_replace q x s i" "queue_find s" for s
proof unfold_locales
  fix q :: "'a dataqueue" and x
  assume "table_inv s q"
  then have q: "q = queue_of s (packet q)" by (simp add: table_inv_iff)
  show "\<exists>q'. queue_add q x s = Inr q' \<and> table_inv s q' \<and> packet q' = packet q @ [x]"
    by (subst q) (simp add: queue_simps)
next
  fix q :: "'a dataqueue" and i x
  assume "table_inv s q" and i: "i < length (packet q)"
  then have q: "q = queue_of s (packet q)" by (simp add: table_inv_iff)
  show "\<exists>q'. queue_replace q x s (int i) = Inr (1, q') \<and> table_inv s q'
          \<and> packet q' = (packet q)[i := x]"
    using i by (subst q) (simp add: queue_simps)
next
  fix q :: "'a dataqueue" and P
  assume "table_inv s q"
  then have q: "q = queue_of s (packet q)" by (simp add: table_inv_iff)
  show "queue_find s P q =
      Inr (map_option (\<lambda>(i, x). (int i, x)) (first_match P (packet q)), q)"
    by (metis q queue_find_of)
qed

end
