(* ===== verification/RouterState.thy ===== *)
theory RouterState
  imports Checksum Dataqueue
begin

text \<open>
  The data of the router: the structs of \<open>packets.h\<close>, \<open>sr_interface.h\<close>,
  \<open>sr_router.h\<close> and \<open>dns.h\<close> as records, the offsets of the packed wire structs, and
  the Ethernet output path (\<open>ethernet_packet.c\<close>).

  \<^item> A pointer into the interface array is its index; \<open>None\<close> is \<open>NULL\<close>.
  \<^item> A received or generated frame is a \<open>packet_info\<close>: the allocated bytes, the
    length field \<open>len\<close> and the interface.  Its IP header starts at offset 14; every
    call of the IP layer passes that address, so the \<open>ipv4\<close> argument is implicit.
  \<^item> \<open>world\<close> extends the router with the file-scope variables of the process
    (\<open>ip_id\<close>, \<open>hid\<close>, the Dijkstra mutex, the list of outstanding pings) and with what
    leaves it: the frames handed to the driver (\<open>sent\<close>) and the datagrams handed to
    the TCP stack (\<open>transport_in\<close>), in order.
  \<^item> \<open>env\<close> holds what no source file determines: the clock, the driver's return value,
    the contents of uninitialised memory, and how \<open>memcmp\<close> sees struct padding.

  Text written to standard output and standard error is not modelled.
\<close>

section \<open>Structs\<close>

record timeval =
  tv_sec :: int
  tv_usec :: int

record arp_cache_entry =
  arp_ip :: addr_ip
  arp_mac :: addr_mac
  arp_tv :: timeval

record rtable_entry =
  router_ip :: addr_ip
  subnet :: addr_ip
  netmask :: addr_ip
  rt_interface :: "nat option"
  metric :: int
  dynamic :: bool

record pwospf_router =
  router_id :: u32
  area_id :: u32
  lsuint :: u16

record pwospf_lsa =
  lsa_subnet :: u32
  lsa_netmask :: u32
  lsa_router_id :: u32

text \<open>The heap block \<open>lsu_lastcontents\<close> points to: none yet, allocated, or freed.\<close>

datatype lsu_block = LsuNull | LsuData "pwospf_lsa list" | LsuFreed

record pwospf_list_entry =
  neighbour_id :: u32
  neighbour_ip :: addr_ip
  nb_helloint :: u16
  nb_timestamp :: timeval
  immediate_neighbour :: int
  lsu_lastseq :: u16
  lsu_lastcontents :: lsu_block
  lsu_lastcontents_count :: int
  lsu_timestamp :: timeval

record interface =
  if_name :: string
  if_mac :: addr_mac
  if_ip :: addr_ip
  enabled :: bool
  subnet_mask :: addr_ip
  hw_id :: byte
  helloint :: u16
  neighbours :: "pwospf_list_entry dataqueue"

record packet_info =
  pi_packet :: "byte list"
  pi_len :: u32
  pi_interface :: "nat option"

record iparp_buffer_entry =
  ib_packet_info :: packet_info
  reception_time :: timeval
  sent_arps_count :: int
  ib_len :: int
  ib_intf :: "nat option"
  ib_dest :: addr_ip

record dns_db_entry =
  db_names :: "byte list list"
  db_count :: byte
  db_type :: u16
  db_class :: u16
  db_rdata :: u32

record ping =
  ping_fd :: int
  ping_dst_ip :: addr_ip
  ping_seq :: u16
  send_time :: timeval
  expire_time :: timeval

record router =
  interface :: "interface list"
  num_interfaces :: nat
  arp_cache :: "arp_cache_entry dataqueue"
  ip_table :: "rtable_entry dataqueue"
  iparp_buffer :: "iparp_buffer_entry dataqueue"
  dns_db :: "dns_db_entry dataqueue"
  last_lsu :: timeval
  pw_router :: pwospf_router
  use_ospf :: bool
  is_router_running :: bool

record world = router +
  ip_id :: u16
  hid :: u16
  djkstra_locker :: bool
  ping_list :: "ping list"
  router_shutdown :: bool
  sent :: "(nat \<times> byte list) list"
  transport_in :: "byte list list"
  ticks :: nat

record env =
  clock :: "nat \<Rightarrow> timeval"
  low_level_output :: "nat \<Rightarrow> byte list \<Rightarrow> int"
  stack_bytes :: "nat \<Rightarrow> byte"
  junk_u16 :: u16
  junk_tv :: timeval
  memcmp_rtable :: "rtable_entry \<Rightarrow> rtable_entry \<Rightarrow> bool"

definition ROUTER_MAX_INTERFACES :: nat where
  "ROUTER_MAX_INTERFACES = 4"

section \<open>Sizes and wire constants\<close>

text \<open>\<open>sizeof\<close> of the entry structs on x86-64, as the queues store them.\<close>

definition sizeof_arp_cache_entry :: int where "sizeof_arp_cache_entry = 32"
definition sizeof_rtable_entry :: int where "sizeof_rtable_entry = 32"
definition sizeof_iparp_buffer_entry :: int where "sizeof_iparp_buffer_entry = 48"
definition sizeof_pwospf_list_entry :: int where "sizeof_pwospf_list_entry = 72"
definition sizeof_dns_db_entry :: int where "sizeof_dns_db_entry = 24"
definition sizeof_packet_info :: int where "sizeof_packet_info = 32"
definition sizeof_d_link :: int where "sizeof_d_link = 8"
definition sizeof_pwospf_lsa :: int where "sizeof_pwospf_lsa = 12"
definition sizeof_pwospf_lsa_dj :: int where "sizeof_pwospf_lsa_dj = 16"

text \<open>\<open>sizeof\<close> of the packed wire structs.\<close>

abbreviation (input) sizeof_packet_ethernet :: nat where "sizeof_packet_ethernet \<equiv> 14"
abbreviation (input) sizeof_packet_arp :: nat where "sizeof_packet_arp \<equiv> 28"
abbreviation (input) sizeof_packet_ip4 :: nat where "sizeof_packet_ip4 \<equiv> 20"
abbreviation (input) sizeof_packet_icmp :: nat where "sizeof_packet_icmp \<equiv> 64"
abbreviation (input) sizeof_packet_udp :: nat where "sizeof_packet_udp \<equiv> 8"
abbreviation (input) sizeof_packet_dns :: nat where "sizeof_packet_dns \<equiv> 12"
abbreviation (input) sizeof_pwospf_packet :: nat where "sizeof_pwospf_packet \<equiv> 24"
abbreviation (input) sizeof_pwospf_packet_hello :: nat where "sizeof_pwospf_packet_hello \<equiv> 32"
abbreviation (input) sizeof_pwospf_packet_link :: nat where "sizeof_pwospf_packet_link \<equiv> 32"

text \<open>
  \<open>PACKET_CAN_MARSHALL(type, offset, len)\<close> is \<open>(len - offset) >= sizeof(type)\<close> with
  \<open>len\<close> an unsigned 32-bit value and the rest of type \<open>size_t\<close>: the difference
  wraps around when \<open>len < offset\<close>.
\<close>

definition PACKET_CAN_MARSHALL :: "nat \<Rightarrow> nat \<Rightarrow> u32 \<Rightarrow> bool" where
  "PACKET_CAN_MARSHALL size_type off len \<longleftrightarrow>
     (of_nat size_type :: u64) \<le> (ucast len :: u64) - of_nat off"

text \<open>
  Fields of the wire structs, as offsets from the start of the frame: Ethernet at 0,
  ARP and IPv4 at 14, ICMP, UDP and PWOSPF at 34, DNS at 42, the PWOSPF
  advertisements at 66.
\<close>

abbreviation eth_dest_mac :: "byte list \<Rightarrow> addr_mac" where "eth_dest_mac p \<equiv> mac_at p 0"
abbreviation eth_source_mac :: "byte list \<Rightarrow> addr_mac" where "eth_source_mac p \<equiv> mac_at p 6"
abbreviation eth_type :: "byte list \<Rightarrow> u16" where "eth_type p \<equiv> u16_at p 12"

abbreviation arp_hardwaretype :: "byte list \<Rightarrow> u16" where "arp_hardwaretype p \<equiv> u16_at p 14"
abbreviation arp_protocoltype :: "byte list \<Rightarrow> u16" where "arp_protocoltype p \<equiv> u16_at p 16"
abbreviation arp_hardwareaddresslength :: "byte list \<Rightarrow> byte" where
  "arp_hardwareaddresslength p \<equiv> u8_at p 18"
abbreviation arp_protocoladdresslength :: "byte list \<Rightarrow> byte" where
  "arp_protocoladdresslength p \<equiv> u8_at p 19"
abbreviation arp_opcode :: "byte list \<Rightarrow> u16" where "arp_opcode p \<equiv> u16_at p 20"
abbreviation arp_sender_mac :: "byte list \<Rightarrow> addr_mac" where "arp_sender_mac p \<equiv> mac_at p 22"
abbreviation arp_sender_ip :: "byte list \<Rightarrow> addr_ip" where "arp_sender_ip p \<equiv> u32_at p 28"
abbreviation arp_target_mac :: "byte list \<Rightarrow> addr_mac" where "arp_target_mac p \<equiv> mac_at p 32"
abbreviation arp_target_ip :: "byte list \<Rightarrow> addr_ip" where "arp_target_ip p \<equiv> u32_at p 38"

abbreviation ip4_ihl :: "byte list \<Rightarrow> byte" where "ip4_ihl p \<equiv> u8_at p 14 AND 0x0F"
abbreviation ip4_version :: "byte list \<Rightarrow> byte" where "ip4_version p \<equiv> drop_bit 4 (u8_at p 14)"
abbreviation ip4_total_length :: "byte list \<Rightarrow> u16" where "ip4_total_length p \<equiv> u16_at p 16"
abbreviation ip4_flags_fragmentoffset :: "byte list \<Rightarrow> u16" where
  "ip4_flags_fragmentoffset p \<equiv> u16_at p 20"
abbreviation ip4_ttl :: "byte list \<Rightarrow> byte" where "ip4_ttl p \<equiv> u8_at p 22"
abbreviation ip4_protocol :: "byte list \<Rightarrow> byte" where "ip4_protocol p \<equiv> u8_at p 23"
abbreviation ip4_header_checksum :: "byte list \<Rightarrow> u16" where "ip4_header_checksum p \<equiv> u16_at p 24"
abbreviation ip4_src_ip :: "byte list \<Rightarrow> addr_ip" where "ip4_src_ip p \<equiv> u32_at p 26"
abbreviation ip4_dst_ip :: "byte list \<Rightarrow> addr_ip" where "ip4_dst_ip p \<equiv> u32_at p 30"

definition ETH_IP_TYPE :: u16 where "ETH_IP_TYPE = 0x0800"
definition ETH_ARP_TYPE :: u16 where "ETH_ARP_TYPE = 0x0806"
definition ETH_RARP_TYPE :: u16 where "ETH_RARP_TYPE = 0x8035"

definition MAC_BROADCAST :: addr_mac where
  "MAC_BROADCAST = MAC 0xFF 0xFF 0xFF 0xFF 0xFF 0xFF"

section \<open>Access to the world\<close>

definition gettimeofday :: "env \<Rightarrow> world \<Rightarrow> timeval \<times> world" where
  "gettimeofday E w = (clock E (ticks w), w\<lparr>ticks := Suc (ticks w)\<rparr>)"

definition interface_at :: "world \<Rightarrow> nat option \<Rightarrow> interface result" where
  "interface_at w p =
     (case p of
        None \<Rightarrow> Inl NullDeref
      | Some i \<Rightarrow> need (i < length (interface w)) OutOfBounds (Inr (interface w ! i)))"

section \<open>Ethernet output\<close>

text \<open>
  \<open>ethernet_packet_send\<close> writes the Ethernet header in place and hands \<open>len\<close> bytes
  to the driver.  It dies on a frame shorter than a header and on a null interface.
\<close>

definition ethernet_packet_send ::
    "env \<Rightarrow> nat option \<Rightarrow> addr_mac \<Rightarrow> addr_mac \<Rightarrow> u16 \<Rightarrow> packet_info \<Rightarrow> world
      \<Rightarrow> (int \<times> packet_info \<times> world) result" where
  "ethernet_packet_send E intf target_mac source_mac type pi w =
     need (PACKET_CAN_MARSHALL sizeof_packet_ethernet 0 (pi_len pi)) Die
      (need (unat (pi_len pi) \<le> length (pi_packet pi)) OutOfBounds
       (let p = put16 12 type (put_mac 6 source_mac (put_mac 0 target_mac (pi_packet pi)));
            frame = take (unat (pi_len pi)) p
        in case intf of
             None \<Rightarrow> Inl Die
           | Some i \<Rightarrow>
               Inr (low_level_output E i frame, pi\<lparr>pi_packet := p\<rparr>,
                    w\<lparr>sent := sent w @ [(i, frame)]\<rparr>)))"

definition update_ethernet_header ::
    "env \<Rightarrow> packet_info \<Rightarrow> addr_mac \<Rightarrow> addr_mac \<Rightarrow> world \<Rightarrow> (packet_info \<times> world) result" where
  "update_ethernet_header E pi dst_mac src_mac w =
     need (14 \<le> length (pi_packet pi)) OutOfBounds
      (let p = put_mac 6 src_mac (put_mac 0 dst_mac (pi_packet pi));
           pi = pi\<lparr>pi_packet := p\<rparr>
       in bindr (ethernet_packet_send E (pi_interface pi) (eth_dest_mac p) (eth_source_mac p)
                   (htons ETH_IP_TYPE) pi w)
            (\<lambda>(_, pi, w). Inr (pi, w)))"

section \<open>Lemmas\<close>

text \<open>
  Where the guard is used with an offset below \<open>len\<close> it means what it says; it is
  also true of every \<open>len\<close> below the offset.
\<close>

lemma u64_ucast_ge: "(of_nat n :: u64) \<le> ucast (len :: u32) \<longleftrightarrow> n \<le> unat len"
  if "n < 2 ^ 32"
proof -
  have "unat (of_nat n :: u64) = n" using that by (simp add: unat_of_nat)
  then show ?thesis by (simp add: word_le_nat_alt)
qed

lemma PACKET_CAN_MARSHALL_iff:
  assumes "off \<le> unat len" and "n < 2 ^ 32" and "off < 2 ^ 32"
  shows "PACKET_CAN_MARSHALL n off len \<longleftrightarrow> off + n \<le> unat len"
proof -
  have off: "unat (of_nat off :: u64) = off" and n: "unat (of_nat n :: u64) = n"
    using assms(2,3) by (simp_all add: unat_of_nat)
  have "(of_nat off :: u64) \<le> ucast len"
    using assms u64_ucast_ge by simp
  then have "unat ((ucast len :: u64) - of_nat off) = unat len - off"
    by (simp add: unat_sub off)
  then show ?thesis
    using assms(1) by (simp add: PACKET_CAN_MARSHALL_def word_le_nat_alt n) linarith
qed

lemma PACKET_CAN_MARSHALL_0: "PACKET_CAN_MARSHALL n 0 len \<longleftrightarrow> n \<le> unat len" if "n < 2 ^ 32"
  using PACKET_CAN_MARSHALL_iff [of 0 len n] that by simp

lemma PACKET_CAN_MARSHALL_wraps:
  assumes "unat len < off" and "off < 2 ^ 16" and "n < 2 ^ 16"
  shows "PACKET_CAN_MARSHALL n off len"
proof -
  have len: "unat (ucast len :: u64) = unat len" by simp
  have off: "unat (of_nat off :: u64) = off" and n: "unat (of_nat n :: u64) = n"
    using assms by (simp_all add: unat_of_nat)
  have "unat ((ucast len :: u64) - of_nat off) = 2 ^ 64 + unat len - off"
    using assms(1) by (simp add: unat_sub_if' off)
  then show ?thesis
    using assms by (simp add: PACKET_CAN_MARSHALL_def word_le_nat_alt n)
qed

lemma sent_ticks_frames [simp]:
  "sent (w\<lparr>ticks := t\<rparr>) = sent w" "ticks (w\<lparr>sent := s\<rparr>) = ticks w"
  by simp_all

lemma ethernet_packet_send_Some:
  assumes "14 \<le> unat (pi_len pi)" and "unat (pi_len pi) \<le> length (pi_packet pi)"
  shows "ethernet_packet_send E (Some i) tm sm ty pi w =
    (let p = put16 12 ty (put_mac 6 sm (put_mac 0 tm (pi_packet pi)));
         frame = take (unat (pi_len pi)) p
     in Inr (low_level_output E i frame, pi\<lparr>pi_packet := p\<rparr>,
             w\<lparr>sent := sent w @ [(i, frame)]\<rparr>))"
  using assms by (simp add: ethernet_packet_send_def PACKET_CAN_MARSHALL_0 Let_def)

end
