(* ===== verification/RouteTable.thy ===== *)
theory RouteTable
  imports RouterState
begin

text \<open>
  The routing table (\<open>ip.c\<close>: \<open>ip_longestprefixmatch\<close>, \<open>ip_directmatch\<close>,
  \<open>ip_putintable\<close>; \<open>sr_router.c\<close>: \<open>router_lookup_interface_via_ip\<close>;
  \<open>sr_integration.c\<close>: \<open>sr_integ_findsrcip\<close> and the table part of
  \<open>sr_integ_hw_setup\<close>).

  Addresses and masks are kept in network byte order and compared as little-endian
  integers.  The lemmas show that for contiguous masks this comparison is the
  comparison of prefix lengths, that the lookup returns the first entry of maximal
  prefix length among the matching ones, and that an entry with mask 0 (a default
  route) is never returned.
\<close>

section \<open>Model\<close>

definition rt_matches :: "addr_ip \<Rightarrow> rtable_entry \<Rightarrow> bool" where
  "rt_matches ip e \<longleftrightarrow> ip AND netmask e = subnet e AND netmask e"

text \<open>
  The loop of \<open>ip_longestprefixmatch\<close>: \<open>maxmatch\<close> is an \<open>int\<close> that always holds the
  bits of a mask and is compared with a \<open>uint32_t\<close>, hence unsigned.
\<close>

function lpm_from ::
    "addr_ip \<Rightarrow> rtable_entry dataqueue \<Rightarrow> int \<Rightarrow> u32 \<Rightarrow> (int \<times> rtable_entry) option
      \<Rightarrow> ((int \<times> rtable_entry) option \<times> rtable_entry dataqueue) result" where
  "lpm_from ip tbl i maxmatch answer =
     (if i < qsize tbl then
        (case queue_getidandlock tbl i of
           (Some (entry, entry_size), t1) \<Rightarrow>
             need (entry_size = sizeof_rtable_entry) AssertFail
               (if rt_matches ip entry \<and> maxmatch < netmask entry
                then lpm_from ip (queue_unlockid t1 i) (i + 1) (netmask entry) (Some (i, entry))
                else lpm_from ip (queue_unlockid t1 i) (i + 1) maxmatch answer)
         | (None, t1) \<Rightarrow> lpm_from ip t1 (i + 1) maxmatch answer)
      else Inr (answer, tbl))"
  by pat_completeness auto
termination
  by (relation "measure (\<lambda>(ip, tbl, i, m, a). nat (qsize tbl - i))")
     (auto simp: queue_getidandlock_def queue_unlockid_def split: if_splits)

declare lpm_from.simps [simp del]

definition ip_longestprefixmatch ::
    "rtable_entry dataqueue \<Rightarrow> addr_ip
      \<Rightarrow> ((int \<times> rtable_entry) option \<times> rtable_entry dataqueue) result" where
  "ip_longestprefixmatch tbl ip = lpm_from ip tbl 0 0 None"

definition ip_directmatch ::
    "rtable_entry dataqueue \<Rightarrow> addr_ip
      \<Rightarrow> ((int \<times> rtable_entry) option \<times> rtable_entry dataqueue) result" where
  "ip_directmatch tbl ip = queue_find sizeof_rtable_entry (\<lambda>e. subnet e = ip) tbl"

definition ip_putintable ::
    "rtable_entry dataqueue \<Rightarrow> addr_ip \<Rightarrow> nat option \<Rightarrow> addr_ip \<Rightarrow> bool \<Rightarrow> int \<Rightarrow> addr_ip
      \<Rightarrow> rtable_entry dataqueue result" where
  "ip_putintable tbl sub intf msk dyn met ip =
     bindr (ip_directmatch tbl sub) (\<lambda>(existing, tbl).
       let entry = \<lparr>router_ip = ip, subnet = sub, netmask = msk, rt_interface = intf,
                    metric = met, dynamic = dyn\<rparr>
       in case existing of
            Some (_, e) \<Rightarrow>
              if rt_interface e = intf then Inr tbl
              else queue_add tbl entry sizeof_rtable_entry
          | None \<Rightarrow> queue_add tbl entry sizeof_rtable_entry)"

definition router_lookup_interface_via_ip ::
    "world \<Rightarrow> addr_ip \<Rightarrow> (nat option \<times> world) result" where
  "router_lookup_interface_via_ip w ip =
     bindr (ip_longestprefixmatch (ip_table w) ip) (\<lambda>(r, tbl).
       Inr (case r of Some (_, e) \<Rightarrow> rt_interface e | None \<Rightarrow> None, w\<lparr>ip_table := tbl\<rparr>))"

definition sr_integ_findsrcip :: "world \<Rightarrow> addr_ip \<Rightarrow> (addr_ip \<times> world) result" where
  "sr_integ_findsrcip w dest =
     bindr (ip_longestprefixmatch (ip_table w) dest) (\<lambda>(r, tbl).
       let w = w\<lparr>ip_table := tbl\<rparr>
       in case r of
            None \<Rightarrow> Inr (0, w)
          | Some (_, e) \<Rightarrow>
              (if rt_interface e = None then Inr (-1, w)
               else bindr (interface_at w (rt_interface e)) (\<lambda>intf. Inr (if_ip intf, w))))"

text \<open>
  \<open>sr_integ_hw_setup\<close> up to the creation of the threads: one static route per
  interface, towards its own subnet.
\<close>

fun hw_setup_from :: "nat \<Rightarrow> nat \<Rightarrow> world \<Rightarrow> world result" where
  "hw_setup_from 0 i w = Inr w"
| "hw_setup_from (Suc n) i w =
     bindr (interface_at w (Some i)) (\<lambda>intf.
       bindr (ip_putintable (ip_table w) (if_ip intf AND subnet_mask intf) (Some i)
                (subnet_mask intf) False 0 0)
         (\<lambda>tbl. hw_setup_from n (Suc i) (w\<lparr>ip_table := tbl\<rparr>)))"

definition sr_integ_hw_setup :: "world \<Rightarrow> world result" where
  "sr_integ_hw_setup w = hw_setup_from (num_interfaces w) 0 w"

section \<open>The lookup on a list of entries\<close>

fun lpm_list ::
    "addr_ip \<Rightarrow> rtable_entry list \<Rightarrow> nat \<Rightarrow> u32 \<Rightarrow> (int \<times> rtable_entry) option
      \<Rightarrow> (int \<times> rtable_entry) option" where
  "lpm_list ip [] i m a = a"
| "lpm_list ip (e # es) i m a =
     (if rt_matches ip e \<and> m < netmask e then lpm_list ip es (Suc i) (netmask e) (Some (int i, e))
      else lpm_list ip es (Suc i) m a)"

abbreviation lpm :: "rtable_entry list \<Rightarrow> addr_ip \<Rightarrow> (int \<times> rtable_entry) option" where
  "lpm es ip \<equiv> lpm_list ip es 0 0 None"

lemma lpm_from_of:
  "i \<le> length es \<Longrightarrow>
   lpm_from ip (queue_of sizeof_rtable_entry es) (int i) m a =
     Inr (lpm_list ip (drop i es) i m a, queue_of sizeof_rtable_entry es)"
proof (induction "length es - i" arbitrary: i m a)
  case 0
  then show ?case by (simp add: lpm_from.simps)
next
  case (Suc n)
  then have i: "i < length es" by simp
  have IH: "lpm_from ip (queue_of sizeof_rtable_entry es) (int (Suc i)) m' a' =
      Inr (lpm_list ip (drop (Suc i) es) (Suc i) m' a', queue_of sizeof_rtable_entry es)" for m' a'
    using Suc.hyps(1) [of "Suc i"] Suc.hyps(2) i by simp
  have "drop i es = es ! i # drop (Suc i) es"
    using i by (simp add: Cons_nth_drop_Suc)
  then show ?case
    using i IH by (subst lpm_from.simps) (simp add: queue_simps add.commute)
qed

lemma ip_longestprefixmatch_of [queue_simps]:
  "ip_longestprefixmatch (queue_of sizeof_rtable_entry es) ip =
     Inr (lpm es ip, queue_of sizeof_rtable_entry es)"
  using lpm_from_of [of 0 es ip 0 None] by (simp add: ip_longestprefixmatch_def)

text \<open>
  What the loop computes: the answer is either the start value, when no entry beats
  \<open>m\<close>, or the first entry among those of the largest mask.
\<close>

lemma lpm_list_spec:
  "(lpm_list ip es i m a = a \<and> (\<forall>e\<in>set es. rt_matches ip e \<longrightarrow> netmask e \<le> m)) \<or>
   (\<exists>k<length es. lpm_list ip es i m a = Some (int (i + k), es ! k)
      \<and> rt_matches ip (es ! k) \<and> m < netmask (es ! k)
      \<and> (\<forall>e\<in>set es. rt_matches ip e \<longrightarrow> netmask e \<le> netmask (es ! k))
      \<and> (\<forall>j<k. rt_matches ip (es ! j) \<longrightarrow> netmask (es ! j) < netmask (es ! k)))"
proof (induction es arbitrary: i m a)
  case Nil
  then show ?case by simp
next
  case (Cons e es)
  show ?case
  proof (cases "rt_matches ip e \<and> m < netmask e")
    case True
    consider
      (keep) "lpm_list ip es (Suc i) (netmask e) (Some (int i, e)) = Some (int i, e)"
        "\<forall>x\<in>set es. rt_matches ip x \<longrightarrow> netmask x \<le> netmask e"
    | (better) k where "k < length es"
        "lpm_list ip es (Suc i) (netmask e) (Some (int i, e)) = Some (int (Suc i + k), es ! k)"
        "rt_matches ip (es ! k)" "netmask e < netmask (es ! k)"
        "\<forall>x\<in>set es. rt_matches ip x \<longrightarrow> netmask x \<le> netmask (es ! k)"
        "\<forall>j<k. rt_matches ip (es ! j) \<longrightarrow> netmask (es ! j) < netmask (es ! k)"
      using Cons.IH [of "Suc i" "netmask e" "Some (int i, e)"] by blast
    then show ?thesis
    proof cases
      case keep
      with True show ?thesis by (intro disjI2 exI [of _ 0]) auto
    next
      case better
      with True show ?thesis
        by (intro disjI2 exI [of _ "Suc k"]) (auto simp: All_less_Suc2 intro: less_imp_le)
    qed
  next
    case False
    consider
      (keep) "lpm_list ip es (Suc i) m a = a" "\<forall>x\<in>set es. rt_matches ip x \<longrightarrow> netmask x \<le> m"
    | (better) k where "k < length es"
        "lpm_list ip es (Suc i) m a = Some (int (Suc i + k), es ! k)"
        "rt_matches ip (es ! k)" "m < netmask (es ! k)"
        "\<forall>x\<in>set es. rt_matches ip x \<longrightarrow> netmask x \<le> netmask (es ! k)"
        "\<forall>j<k. rt_matches ip (es ! j) \<longrightarrow> netmask (es ! j) < netmask (es ! k)"
      using Cons.IH [of "Suc i" m a] by blast
    then show ?thesis
    proof cases
      case keep
      with False show ?thesis by (intro disjI1) (auto simp: not_less)
    next
      case better
      have "rt_matches ip e \<Longrightarrow> netmask e < netmask (es ! k)"
        using False better(4) by (auto simp: not_less)
      with False better show ?thesis
        by (intro disjI2 exI [of _ "Suc k"]) (auto simp: All_less_Suc2 intro: less_imp_le)
    qed
  qed
qed

lemma lpm_None_iff:
  "lpm es ip = None \<longleftrightarrow> (\<forall>e\<in>set es. rt_matches ip e \<longrightarrow> netmask e = 0)"
proof -
  have "lpm es ip = None \<longleftrightarrow> (\<forall>e\<in>set es. rt_matches ip e \<longrightarrow> netmask e \<le> 0)"
    using lpm_list_spec [of ip es 0 0 None] by (force simp del: word_le_0_iff simp flip: not_less)
  then show ?thesis by simp
qed

lemma lpm_SomeD:
  assumes "lpm es ip = Some (i, e)"
  shows "\<exists>k<length es. i = int k \<and> es ! k = e \<and> rt_matches ip e \<and> 0 < netmask e
     \<and> (\<forall>x\<in>set es. rt_matches ip x \<longrightarrow> netmask x \<le> netmask e)
     \<and> (\<forall>j<k. rt_matches ip (es ! j) \<longrightarrow> netmask (es ! j) < netmask e)"
  using lpm_list_spec [of ip es 0 0 None] assms by auto

lemma lpm_in_set: "lpm es ip = Some (i, e) \<Longrightarrow> e \<in> set es"
  using lpm_SomeD by fastforce

section \<open>Masks and prefix lengths\<close>

text \<open>The mask of prefix length \<open>n\<close>, in network byte order on a little-endian host.\<close>

definition prefix_mask :: "nat \<Rightarrow> addr_ip" where
  "prefix_mask n = htonl (NOT (mask (32 - n)))"

lemma prefix_mask_step: "n < 32 \<Longrightarrow> prefix_mask n < prefix_mask (Suc n)"
proof -
  have "list_all (\<lambda>n. prefix_mask n < prefix_mask (Suc n)) [0..<32]"
    by code_simp
  then show "n < 32 \<Longrightarrow> prefix_mask n < prefix_mask (Suc n)"
    by (simp add: list_all_iff)
qed

lemma prefix_mask_strict_mono: "m < n \<Longrightarrow> n \<le> 32 \<Longrightarrow> prefix_mask m < prefix_mask n"
proof (induction n)
  case 0
  then show ?case by simp
next
  case (Suc n)
  have "prefix_mask n < prefix_mask (Suc n)" using Suc.prems by (intro prefix_mask_step) simp
  then show ?case
    using Suc by (cases "m = n") (auto intro: less_trans)
qed

lemma prefix_mask_le_iff:
  "m \<le> 32 \<Longrightarrow> n \<le> 32 \<Longrightarrow> prefix_mask m \<le> prefix_mask n \<longleftrightarrow> m \<le> n"
  by (metis linorder_not_less nat_less_le order_le_less prefix_mask_strict_mono)

lemma prefix_mask_0: "prefix_mask 0 = 0"
  by code_simp

lemma prefix_mask_eq_0_iff: "n \<le> 32 \<Longrightarrow> prefix_mask n = 0 \<longleftrightarrow> n = 0"
  using prefix_mask_strict_mono [of 0 n] prefix_mask_0 by (cases n) auto

section \<open>Insertion\<close>

lemma ip_directmatch_of [queue_simps]:
  "ip_directmatch (queue_of sizeof_rtable_entry es) ip =
     Inr (map_option (\<lambda>(i, x). (int i, x)) (first_match (\<lambda>e. subnet e = ip) es),
          queue_of sizeof_rtable_entry es)"
  by (simp add: ip_directmatch_def queue_simps)

lemma ip_putintable_of:
  "ip_putintable (queue_of sizeof_rtable_entry es) sub intf msk dyn met ip =
     Inr (queue_of sizeof_rtable_entry
       (case first_match (\<lambda>e. subnet e = sub) es of
          Some (_, e) \<Rightarrow>
            if rt_interface e = intf then es
            else es @ [\<lparr>router_ip = ip, subnet = sub, netmask = msk, rt_interface = intf,
                        metric = met, dynamic = dyn\<rparr>]
        | None \<Rightarrow> es @ [\<lparr>router_ip = ip, subnet = sub, netmask = msk, rt_interface = intf,
                        metric = met, dynamic = dyn\<rparr>]))"
  by (auto simp: ip_putintable_def queue_simps Let_def split: option.splits)

end
