(* ===== verification/Arp.thy ===== *)
theory Arp
  imports RouteTable
begin

text \<open>
  The ARP cache and ARP output (\<open>arp.c\<close>): lookups, learning, the static and dynamic
  entries the command line manages, one pass of the ageing thread, the ARP request
  and the buffer of packets that wait for a reply.  The reception of ARP packets is
  in the theory of packet reception, since it calls the IP layer.

  In the default build (\<open>MININET_MODE\<close>) the hardware mirror
  \<open>hardware_arp_synccache\<close> is empty; the calls of it are not modelled.
\<close>

section \<open>Cache lookup\<close>

definition match_mac :: "addr_mac \<Rightarrow> addr_mac \<Rightarrow> bool" where
  "match_mac mac1 mac2 \<longleftrightarrow>
     octet0 mac1 = octet0 mac2 \<and> octet1 mac1 = octet1 mac2 \<and> octet2 mac1 = octet2 mac2
     \<and> octet3 mac1 = octet3 mac2 \<and> octet4 mac1 = octet4 mac2 \<and> octet5 mac1 = octet5 mac2"

type_synonym arp_queue = "arp_cache_entry dataqueue"

definition arp_getcachebymac ::
    "arp_queue \<Rightarrow> addr_mac \<Rightarrow> ((int \<times> arp_cache_entry) option \<times> arp_queue) result" where
  "arp_getcachebymac cache mac =
     queue_find sizeof_arp_cache_entry (\<lambda>entry. match_mac (arp_mac entry) mac) cache"

definition arp_getcachebyip ::
    "arp_queue \<Rightarrow> addr_ip \<Rightarrow> ((int \<times> arp_cache_entry) option \<times> arp_queue) result" where
  "arp_getcachebyip cache ip =
     queue_find sizeof_arp_cache_entry (\<lambda>entry. arp_ip entry = ip) cache"

section \<open>Learning and static entries\<close>

text \<open>
  The time stamp of an entry: \<open>gettimeofday\<close>, with the seconds replaced by the
  expiry time, or by \<open>-1\<close> for a static entry.
\<close>

definition stamp :: "timeval \<Rightarrow> int \<Rightarrow> timeval" where
  "stamp now timeout = now\<lparr>tv_sec := (if timeout \<noteq> -1 then timeout + tv_sec now else timeout)\<rparr>"

definition arp_putincache ::
    "env \<Rightarrow> addr_ip \<Rightarrow> addr_mac \<Rightarrow> int \<Rightarrow> world \<Rightarrow> world result" where
  "arp_putincache E ip mac timeout w =
     bindr (arp_getcachebymac (arp_cache w) mac) (\<lambda>(r, cache).
     case r of
       Some (i, result) \<Rightarrow>
         (case gettimeofday E w of (now, w) \<Rightarrow>
            bindr (queue_replace cache (result\<lparr>arp_ip := ip, arp_tv := stamp now timeout\<rparr>)
                     sizeof_arp_cache_entry i)
              (\<lambda>(_, cache). Inr (w\<lparr>arp_cache := cache\<rparr>)))
     | None \<Rightarrow>
         bindr (arp_getcachebyip cache ip) (\<lambda>(r, cache).
         case r of
           Some (i, result) \<Rightarrow>
             (case gettimeofday E w of (now, w) \<Rightarrow>
                bindr (queue_replace cache (result\<lparr>arp_mac := mac, arp_tv := stamp now timeout\<rparr>)
                         sizeof_arp_cache_entry i)
                  (\<lambda>(_, cache). Inr (w\<lparr>arp_cache := cache\<rparr>)))
         | None \<Rightarrow>
             (case gettimeofday E w of (now, w) \<Rightarrow>
                bindr (queue_add cache
                         \<lparr>arp_ip = ip, arp_mac = mac, arp_tv = stamp now timeout\<rparr>
                         sizeof_arp_cache_entry)
                  (\<lambda>cache. Inr (w\<lparr>arp_cache := cache\<rparr>)))))"

definition ARP_CACHE_TIMEOUT_REQUEST :: int where "ARP_CACHE_TIMEOUT_REQUEST = 120"
definition ARP_CACHE_TIMEOUT_BROADCAST :: int where "ARP_CACHE_TIMEOUT_BROADCAST = 60"
definition ARP_CACHE_TIMEOUT_STATIC :: int where "ARP_CACHE_TIMEOUT_STATIC = -1"
definition ARPIP_QUEUE_TIMEOUT :: int where "ARPIP_QUEUE_TIMEOUT = 2"
definition ARPIP_QUEUE_MAXARPREQUESTS :: int where "ARPIP_QUEUE_MAXARPREQUESTS = 3"
definition ARP_THRESHOLD :: int where "ARP_THRESHOLD = 32"

definition arp_add_static :: "env \<Rightarrow> addr_ip \<Rightarrow> addr_mac \<Rightarrow> world \<Rightarrow> world result" where
  "arp_add_static E ip mac w = arp_putincache E ip mac ARP_CACHE_TIMEOUT_STATIC w"

text \<open>\<open>arp_remove_ip_mac\<close> removes the first entry with this address pair.\<close>

definition arp_remove_ip_mac :: "addr_ip \<Rightarrow> addr_mac \<Rightarrow> world \<Rightarrow> world result" where
  "arp_remove_ip_mac ip mac w =
     bindr (queue_find sizeof_arp_cache_entry
              (\<lambda>entry. arp_ip entry = ip \<and> match_mac (arp_mac entry) mac) (arp_cache w))
       (\<lambda>(r, cache).
          case r of
            Some (i, _) \<Rightarrow> Inr (w\<lparr>arp_cache := queue_unlockidandremove cache i\<rparr>)
          | None \<Rightarrow> Inr (w\<lparr>arp_cache := cache\<rparr>))"

definition arp_is_static :: "arp_cache_entry \<Rightarrow> bool" where
  "arp_is_static e \<longleftrightarrow> tv_sec (arp_tv e) = -1"

definition arp_sweep :: "(arp_cache_entry \<Rightarrow> bool) \<Rightarrow> world \<Rightarrow> world result" where
  "arp_sweep P w =
     bindr (queue_sweep sizeof_arp_cache_entry (\<lambda>e (u::unit). (P e, u)) (arp_cache w) ())
       (\<lambda>(cache, _). Inr (w\<lparr>arp_cache := cache\<rparr>))"

definition arp_remove_static_ip :: "addr_ip \<Rightarrow> world \<Rightarrow> world result" where
  "arp_remove_static_ip ip = arp_sweep (\<lambda>e. arp_ip e = ip \<and> tv_sec (arp_tv e) = -1)"

definition arp_clear_static :: "world \<Rightarrow> world result" where
  "arp_clear_static = arp_sweep (\<lambda>e. tv_sec (arp_tv e) = -1)"

definition arp_clear_dynamic :: "world \<Rightarrow> world result" where
  "arp_clear_dynamic = arp_sweep (\<lambda>e. tv_sec (arp_tv e) \<noteq> -1)"

definition arp_clear_all :: "world \<Rightarrow> world" where
  "arp_clear_all w = w\<lparr>arp_cache := queue_purge (arp_cache w)\<rparr>"

section \<open>Ageing\<close>

text \<open>
  One pass of \<open>arp_maintain_cache\<close>: expired dynamic entries are removed while
  iterating, with a clock reading per entry.  Then, above the threshold, the loop
  \<open>for (i = 0; i < ARP_THRESHOLD - cache->size; i++)\<close> removes entry \<open>i\<close>.
\<close>

definition arp_expired :: "env \<Rightarrow> arp_cache_entry \<Rightarrow> nat \<Rightarrow> bool \<times> nat" where
  "arp_expired E entry t =
     (tv_sec (arp_tv entry) \<noteq> -1 \<and> tv_sec (arp_tv entry) - tv_sec (clock E t) \<le> 0, Suc t)"

function arp_evict_from :: "arp_queue \<Rightarrow> int \<Rightarrow> nat \<Rightarrow> (arp_queue \<times> nat) result" where
  "arp_evict_from cache i t =
     (if i < ARP_THRESHOLD - qsize cache then
        (case queue_getidandlock cache i of
           (Some (entry, entry_size), c1) \<Rightarrow>
             need (entry_size = sizeof_arp_cache_entry) AssertFail
               (arp_evict_from (queue_unlockidandremove c1 i) (i + 1) (Suc t))
         | (None, c1) \<Rightarrow> arp_evict_from c1 (i + 1) t)
      else Inr (cache, t))"
  by pat_completeness auto
termination
  by (relation "measures [\<lambda>(c, i, t). nat (qsize c), \<lambda>(c, i, t). nat (ARP_THRESHOLD - qsize c - i)]")
     (auto simp: queue_getidandlock_def queue_unlockidandremove_def remove_cell_def Let_def
        split: if_splits)

declare arp_evict_from.simps [simp del]

definition arp_maintain_cache_pass :: "env \<Rightarrow> world \<Rightarrow> world result" where
  "arp_maintain_cache_pass E w =
     bindr (queue_sweep sizeof_arp_cache_entry (arp_expired E) (arp_cache w) (ticks w))
       (\<lambda>(cache, t).
          bindr (if qsize cache > ARP_THRESHOLD then arp_evict_from cache 0 t else Inr (cache, t))
            (\<lambda>(cache, t). Inr (w\<lparr>arp_cache := cache, ticks := t\<rparr>)))"

section \<open>ARP output\<close>

definition ARP_OPCODE_REQUEST :: byte where "ARP_OPCODE_REQUEST = 1"
definition ARP_OP_REPLY :: byte where "ARP_OP_REPLY = 2"
definition ARP_HTYPE_ETH :: u16 where "ARP_HTYPE_ETH = 1"
definition ARP_PTYPE_IP :: u16 where "ARP_PTYPE_IP = 0x0800"

definition arp_fill ::
    "byte \<Rightarrow> addr_ip \<Rightarrow> addr_mac \<Rightarrow> addr_ip \<Rightarrow> addr_mac \<Rightarrow> byte list \<Rightarrow> byte list" where
  "arp_fill opcode target_ip target_mac source_ip source_mac p =
     put_mac 22 source_mac (put32 28 source_ip (put_mac 32 target_mac (put32 38 target_ip
       (put16 14 (htons ARP_HTYPE_ETH) (put16 16 (htons ARP_PTYPE_IP)
         (put16 20 (htons (ucast opcode)) (put8 19 4 (put8 18 6 p))))))))"

definition arp_send ::
    "env \<Rightarrow> nat option \<Rightarrow> packet_info \<Rightarrow> byte \<Rightarrow> addr_ip \<Rightarrow> addr_mac \<Rightarrow> addr_ip \<Rightarrow> addr_mac
      \<Rightarrow> world \<Rightarrow> (packet_info \<times> world) result" where
  "arp_send E intf pi opcode target_ip target_mac source_ip source_mac w =
     need (42 \<le> length (pi_packet pi)) OutOfBounds
      (bindr (ethernet_packet_send E intf target_mac source_mac (htons ETH_ARP_TYPE)
                (pi\<lparr>pi_packet := arp_fill opcode target_ip target_mac source_ip source_mac
                                  (pi_packet pi)\<rparr>) w)
        (\<lambda>(_, pi, w). Inr (pi, w)))"

text \<open>
  \<open>arp_send_request\<close> fills a fresh buffer of 42 bytes, all of which it then writes;
  the contents \<open>malloc\<close> returns do not matter and are taken as 0.
\<close>

definition arp_send_request ::
    "env \<Rightarrow> nat option \<Rightarrow> addr_ip \<Rightarrow> world \<Rightarrow> world result" where
  "arp_send_request E intf target_ip w =
     bindr (interface_at w intf) (\<lambda>iface.
       bindr (arp_send E intf
                \<lparr>pi_packet = replicate 42 0, pi_len = 42, pi_interface = intf\<rparr>
                ARP_OPCODE_REQUEST target_ip MAC_BROADCAST (if_ip iface) (if_mac iface) w)
         (\<lambda>(_, w). Inr w))"

text \<open>
  A packet whose next hop is unresolved is copied, with its \<open>packet_info\<close>, into the
  buffer, and a request is broadcast.
\<close>

definition arp_queue_ippacket_for_send_on_arp_request_response ::
    "env \<Rightarrow> packet_info \<Rightarrow> nat option \<Rightarrow> addr_ip \<Rightarrow> world \<Rightarrow> world result" where
  "arp_queue_ippacket_for_send_on_arp_request_response E pi intf dest w =
     need (unat (pi_len pi) \<le> length (pi_packet pi)) OutOfBounds
      (case gettimeofday E w of (now, w) \<Rightarrow>
         bindr (queue_add (iparp_buffer w)
                  \<lparr>ib_packet_info = pi\<lparr>pi_packet := take (unat (pi_len pi)) (pi_packet pi)\<rparr>,
                   reception_time = now, sent_arps_count = 1,
                   ib_len = sizeof_packet_info + int (unat (pi_len pi)),
                   ib_intf = intf, ib_dest = dest\<rparr>
                  sizeof_iparp_buffer_entry)
           (\<lambda>buf. arp_send_request E intf dest (w\<lparr>iparp_buffer := buf\<rparr>)))"

section \<open>Facts about the cache\<close>

lemma match_mac_eq [simp]: "match_mac m n \<longleftrightarrow> m = n"
  by (cases m; cases n) (auto simp: match_mac_def)

abbreviation arp_queue_of :: "arp_cache_entry list \<Rightarrow> arp_queue" where
  "arp_queue_of \<equiv> queue_of sizeof_arp_cache_entry"

text \<open>The cache contents after learning the pair \<open>(ip, mac)\<close>.\<close>

definition arp_learn ::
    "addr_ip \<Rightarrow> addr_mac \<Rightarrow> timeval \<Rightarrow> arp_cache_entry list \<Rightarrow> arp_cache_entry list" where
  "arp_learn ip mac tv xs =
     (case first_match (\<lambda>e. arp_mac e = mac) xs of
        Some (i, e) \<Rightarrow> xs[i := e\<lparr>arp_ip := ip, arp_tv := tv\<rparr>]
      | None \<Rightarrow>
          (case first_match (\<lambda>e. arp_ip e = ip) xs of
             Some (i, e) \<Rightarrow> xs[i := e\<lparr>arp_mac := mac, arp_tv := tv\<rparr>]
           | None \<Rightarrow> xs @ [\<lparr>arp_ip = ip, arp_mac = mac, arp_tv = tv\<rparr>]))"

lemma arp_putincache_of:
  assumes "arp_cache w = arp_queue_of xs"
  shows "arp_putincache E ip mac timeout w =
    Inr (w\<lparr>arp_cache := arp_queue_of (arp_learn ip mac (stamp (clock E (ticks w)) timeout) xs),
           ticks := Suc (ticks w)\<rparr>)"
  using assms
  by (auto simp: arp_putincache_def arp_getcachebymac_def arp_getcachebyip_def queue_simps
      arp_learn_def gettimeofday_def first_match_Some split: option.splits prod.splits)

lemma arp_learn_mac_bound:
  "\<exists>e\<in>set (arp_learn ip mac tv xs). arp_mac e = mac \<and> arp_ip e = ip \<and> arp_tv e = tv"
proof -
  have mem: "e' \<in> set (xs[i := e'])" if "first_match P xs = Some (i, e)" for P i e e'
    using that by (simp add: first_match_Some set_update_memI)
  show ?thesis
  proof (cases "first_match (\<lambda>e. arp_mac e = mac) xs")
    case (Some r)
    then obtain i e where r: "r = (i, e)" by force
    with Some have "arp_mac e = mac" by (simp add: first_match_Some)
    then show ?thesis
      using Some r mem [of _ i e "e\<lparr>arp_ip := ip, arp_tv := tv\<rparr>"]
      by (intro bexI [of _ "e\<lparr>arp_ip := ip, arp_tv := tv\<rparr>"]) (auto simp: arp_learn_def)
  next
    case None
    show ?thesis
    proof (cases "first_match (\<lambda>e. arp_ip e = ip) xs")
      case None': None
      with None show ?thesis by (simp add: arp_learn_def)
    next
      case (Some r)
      then obtain i e where r: "r = (i, e)" by force
      with Some have "arp_ip e = ip" by (simp add: first_match_Some)
      then show ?thesis
        using None Some r mem [of _ i e "e\<lparr>arp_mac := mac, arp_tv := tv\<rparr>"]
        by (intro bexI [of _ "e\<lparr>arp_mac := mac, arp_tv := tv\<rparr>"]) (auto simp: arp_learn_def)
    qed
  qed
qed

lemma map_arp_mac_update_same:
  "i < length xs \<Longrightarrow> arp_mac e = arp_mac (xs ! i) \<Longrightarrow> map arp_mac (xs[i := e]) = map arp_mac xs"
  by (metis list_update_id map_update nth_map)

text \<open>No two entries have the same MAC address: learning keeps it.\<close>

lemma arp_learn_distinct:
  assumes "distinct (map arp_mac xs)"
  shows "distinct (map arp_mac (arp_learn ip mac tv xs))"
proof (cases "first_match (\<lambda>e. arp_mac e = mac) xs")
  case (Some r)
  then obtain i e where r: "r = (i, e)" by force
  with Some have "i < length xs" "xs ! i = e" by (simp_all add: first_match_Some)
  then have "map arp_mac (xs[i := e\<lparr>arp_ip := ip, arp_tv := tv\<rparr>]) = map arp_mac xs"
    by (intro map_arp_mac_update_same) simp_all
  with Some r assms show ?thesis by (simp add: arp_learn_def)
next
  case None
  then have new: "mac \<notin> set (map arp_mac xs)"
    by (auto simp: first_match_None)
  show ?thesis
  proof (cases "first_match (\<lambda>e. arp_ip e = ip) xs")
    case ip: None
    with None new assms show ?thesis by (simp add: arp_learn_def)
  next
    case (Some r)
    then obtain i e where r: "r = (i, e)" by force
    with Some have "i < length xs" by (simp add: first_match_Some)
    with None Some r new assms show ?thesis
      by (simp add: arp_learn_def map_update distinct_list_update)
  qed
qed

text \<open>
  Looking the IP address up right after learning it gives the learned MAC address,
  unless an earlier entry holds the same IP address with another MAC address.
\<close>

lemma arp_learn_lookup:
  assumes "distinct (map arp_mac xs)"
    and "\<And>e. e \<in> set xs \<Longrightarrow> arp_ip e = ip \<Longrightarrow> arp_mac e = mac \<or> mac \<notin> set (map arp_mac xs)"
  shows "\<exists>i e. first_match (\<lambda>e. arp_ip e = ip) (arp_learn ip mac tv xs) = Some (i, e)
           \<and> arp_mac e = mac"
proof (cases "first_match (\<lambda>e. arp_mac e = mac) xs")
  case (Some r)
  then obtain i e where r: "r = (i, e)" by force
  with Some have i: "i < length xs" "xs ! i = e" "arp_mac e = mac"
    by (simp_all add: first_match_Some)
  have other: "arp_ip (xs ! j) \<noteq> ip" if "j < i" for j
  proof
    assume eq: "arp_ip (xs ! j) = ip"
    have "mac \<in> set (map arp_mac xs)" using i nth_mem [of i xs] by auto
    moreover have "xs ! j \<in> set xs" using that i by simp
    ultimately have "arp_mac (xs ! j) = mac" using assms(2) eq by blast
    then have "map arp_mac xs ! j = map arp_mac xs ! i" using that i by simp
    with assms(1) that i show False
      using nth_eq_iff_index_eq [of "map arp_mac xs" j i] by simp
  qed
  let ?e = "e\<lparr>arp_ip := ip, arp_tv := tv\<rparr>"
  have "first_match (\<lambda>e. arp_ip e = ip) (xs[i := ?e]) = Some (i, ?e)"
    using i other by (simp add: first_match_Some)
  with Some r i show ?thesis by (simp add: arp_learn_def)
next
  case None
  show ?thesis
  proof (cases "first_match (\<lambda>e. arp_ip e = ip) xs")
    case ip: None
    with None show ?thesis
      by (simp add: arp_learn_def first_match_append)
  next
    case (Some r)
    then obtain i e where r: "r = (i, e)" by force
    let ?e = "e\<lparr>arp_mac := mac, arp_tv := tv\<rparr>"
    have "first_match (\<lambda>e. arp_ip e = ip) (xs[i := ?e]) = Some (i, ?e)"
      using Some r by (simp add: first_match_Some)
    with None Some r show ?thesis by (simp add: arp_learn_def)
  qed
qed

lemma arp_sweep_of:
  assumes "arp_cache w = arp_queue_of xs"
  shows "arp_sweep P w = Inr (w\<lparr>arp_cache := arp_queue_of (skip_filter P xs)\<rparr>)"
  using assms by (simp add: arp_sweep_def queue_simps sweep_list_stateless)

text \<open>Above the threshold the eviction loop does not run: its bound is negative.\<close>

lemma arp_evict_idle: "qsize cache > ARP_THRESHOLD \<Longrightarrow> arp_evict_from cache 0 t = Inr (cache, t)"
  by (simp add: arp_evict_from.simps)

lemma arp_maintain_cache_pass_of:
  assumes "arp_cache w = arp_queue_of xs"
  shows "arp_maintain_cache_pass E w =
    (case sweep_list (arp_expired E) xs (ticks w) of
       (ys, t) \<Rightarrow> Inr (w\<lparr>arp_cache := arp_queue_of ys, ticks := t\<rparr>))"
  using assms
  by (auto simp: arp_maintain_cache_pass_def queue_simps arp_evict_idle split: prod.splits)

section \<open>Facts about ARP output\<close>

text \<open>The frame a request consists of.\<close>

definition arp_request_frame :: "interface \<Rightarrow> addr_ip \<Rightarrow> byte list" where
  "arp_request_frame iface ip =
     put16 12 (htons ETH_ARP_TYPE) (put_mac 6 (if_mac iface) (put_mac 0 MAC_BROADCAST
       (arp_fill ARP_OPCODE_REQUEST ip MAC_BROADCAST (if_ip iface) (if_mac iface)
          (replicate 42 0))))"

lemma arp_send_request_eq:
  assumes "i < length (interface w)"
  shows "arp_send_request E (Some i) ip w =
    Inr (w\<lparr>sent := sent w @ [(i, arp_request_frame (interface w ! i) ip)]\<rparr>)"
  using assms
  by (simp add: arp_send_request_def interface_at_def arp_send_def ethernet_packet_send_Some
      Let_def arp_fill_def arp_request_frame_def)

lemma arp_queue_ippacket_eq:
  assumes "i < length (interface w)" and "unat (pi_len pi) \<le> length (pi_packet pi)"
    and "iparp_buffer w = queue_of sizeof_iparp_buffer_entry bs"
  shows "arp_queue_ippacket_for_send_on_arp_request_response E pi (Some i) dest w =
    Inr (w\<lparr>ticks := Suc (ticks w),
           iparp_buffer := queue_of sizeof_iparp_buffer_entry (bs @
            [\<lparr>ib_packet_info = pi\<lparr>pi_packet := take (unat (pi_len pi)) (pi_packet pi)\<rparr>,
              reception_time = clock E (ticks w), sent_arps_count = 1,
              ib_len = sizeof_packet_info + int (unat (pi_len pi)),
              ib_intf = Some i, ib_dest = dest\<rparr>]),
           sent := sent w @ [(i, arp_request_frame (interface w ! i) dest)]\<rparr>)"
  using assms
  by (simp add: arp_queue_ippacket_for_send_on_arp_request_response_def gettimeofday_def
      queue_simps arp_send_request_eq)

end
