(* ===== verification/IpHeader.thy ===== *)
theory IpHeader
  imports Arp
begin

text \<open>
  The IP header functions of \<open>ip.c\<close>: construction (\<open>generate_ipv4_header\<close>,
  \<open>update_ip_packet_response\<close>), validation (\<open>ip_header_check\<close>) and the diagnostic dump
  \<open>ip_print\<close> of a rejected packet, which reads as many bytes as the header claims;
  and \<open>packetinfo_ip_allocate\<close> of \<open>sr_router.c\<close>.

  The lemmas show that a generated header passes the check, what the check accepts
  in terms of the header fields, and that it never rejects a packet for its length
  unless the length field is 0.
\<close>

section \<open>Model\<close>

definition IP_TYPE_ICMP :: byte where "IP_TYPE_ICMP = 1"
definition IP_TYPE_TCP :: byte where "IP_TYPE_TCP = 6"
definition IP_TYPE_UDP :: byte where "IP_TYPE_UDP = 17"
definition IP_TYPE_OSPF :: byte where "IP_TYPE_OSPF = 89"

definition ALLSPFRouters :: addr_ip where "ALLSPFRouters = 0x050000E0"

definition ip_fields ::
    "addr_ip \<Rightarrow> int \<Rightarrow> byte \<Rightarrow> byte \<Rightarrow> addr_ip \<Rightarrow> byte list \<Rightarrow> byte list" where
  "ip_fields src_ip total_length ttl protocol dest p =
     put32 30 dest (put32 26 src_ip (put16 24 0 (put8 23 protocol (put8 22 ttl
       (put16 20 0 (put16 18 0 (put16 16 (htons (word_of_int total_length))
         (put8 15 0 (put8 14 0x45 p)))))))))"

definition generate_ipv4_header ::
    "addr_ip \<Rightarrow> int \<Rightarrow> byte \<Rightarrow> addr_ip \<Rightarrow> byte list \<Rightarrow> byte list result" where
  "generate_ipv4_header src_ip datagram_size protocol dest p =
     need (34 \<le> length p) OutOfBounds
      (checksum_fill 14 24 20 (ip_fields src_ip (20 + datagram_size) 65 protocol dest p))"

definition update_ip_packet_response ::
    "env \<Rightarrow> packet_info \<Rightarrow> addr_ip \<Rightarrow> addr_ip \<Rightarrow> byte \<Rightarrow> world \<Rightarrow> (packet_info \<times> world) result"
  where
  "update_ip_packet_response E pi dst_ip src_ip ttl w =
     need (34 \<le> length (pi_packet pi)) OutOfBounds
      (let p = put16 18 (htons (ip_id w)) (put16 20 0 (put8 22 ttl
                 (put32 26 src_ip (put32 30 dst_ip (pi_packet pi)))))
       in bindr (checksum_fill 14 24 20 p) (\<lambda>p.
            update_ethernet_header E (pi\<lparr>pi_packet := p\<rparr>) (eth_source_mac p) (eth_dest_mac p)
              (w\<lparr>ip_id := ip_id w + 1\<rparr>)))"

text \<open>
  The length test compares the raw \<open>total_length\<close> with
  \<open>sizeof(pi->packet[sizeof(packet_ethernet_t)])\<close>, the size of one byte.
\<close>

definition ip_header_check :: "byte list \<Rightarrow> bool result" where
  "ip_header_check p =
     need (34 \<le> length p) OutOfBounds
      (if ip4_version p \<noteq> 4 then Inr False
       else if ip4_ihl p \<noteq> 5 then Inr False
       else if unat (ip4_total_length p) < 1 then Inr False
       else bindr (generatechecksum (drop 14 p) 20) (\<lambda>c.
              if c \<noteq> 0 then Inr False
              else if ntohs (ip4_flags_fragmentoffset p) AND 0x3FFF \<noteq> 0 then Inr False
              else Inr True))"

text \<open>
  \<open>ip_print\<close> dumps the payload: \<open>datasize\<close> bytes after the headers, with the sizes
  taken from the packet.  Only its memory accesses matter here.
\<close>

definition ip_print :: "byte list \<Rightarrow> unit result" where
  "ip_print p =
     (let total = int (unat (ntohs (ip4_total_length p)))
      in if ip4_protocol p = IP_TYPE_TCP then
           need (54 \<le> length p) OutOfBounds
            (let offset = int (unat (u8_at p 46 AND 0x0F));
                 datasize = total - 20 - 20 - offset
             in need (datasize \<le> 0 \<or> 14 + 20 + 20 + offset + datasize \<le> int (length p)) OutOfBounds
                  (Inr ()))
         else
           let datasize = total - 20
           in need (datasize \<le> 0 \<or> 14 + 20 + datasize \<le> int (length p)) OutOfBounds (Inr ()))"

text \<open>
  \<open>packetinfo_ip_allocate\<close>: \<open>None\<close> is the return value 0 (no route).  \<open>src = -1\<close>
  asks for the address of the outgoing interface.  The bytes after the IP header
  are what \<open>malloc\<close> returned; the only caller, \<open>icmp_allocate_and_send\<close>, overwrites
  all those its final length covers before the frame is used, so they are taken as 0.
\<close>

definition packetinfo_ip_allocate ::
    "nat \<Rightarrow> addr_ip \<Rightarrow> addr_ip \<Rightarrow> byte \<Rightarrow> int \<Rightarrow> world \<Rightarrow> (packet_info option \<times> world) result" where
  "packetinfo_ip_allocate size_pkt dest src protocol total_length w =
     bindr (ip_longestprefixmatch (ip_table w) dest) (\<lambda>(r, tbl).
     let w = w\<lparr>ip_table := tbl\<rparr>
     in case r of
          None \<Rightarrow> Inr (None, w)
        | Some (_, entry) \<Rightarrow>
            bindr (interface_at w (rt_interface entry)) (\<lambda>intf.
            bindr (arp_getcachebyip (arp_cache w) dest) (\<lambda>(ra, cache).
            let w = w\<lparr>arp_cache := cache\<rparr>;
                dest_mac = (case ra of Some (_, e) \<Rightarrow> arp_mac e | None \<Rightarrow> MAC_BROADCAST);
                src_ip = (if src = -1 then if_ip intf else src);
                p = put16 12 (htons ETH_IP_TYPE) (put_mac 0 dest_mac
                      (put_mac 6 (if_mac intf) (replicate size_pkt 0)))
            in need (34 \<le> size_pkt) OutOfBounds
                 (bindr (checksum_fill 14 24 20
                           (ip_fields src_ip total_length 65 protocol dest p)) (\<lambda>p.
                    Inr (Some \<lparr>pi_packet = p, pi_len = of_nat size_pkt,
                               pi_interface = rt_interface entry\<rparr>, w))))))"

section \<open>The header check\<close>

text \<open>What a valid IP header is: the fields the check looks at, and the checksum.\<close>

definition ip_header_ok :: "byte list \<Rightarrow> bool" where
  "ip_header_ok p \<longleftrightarrow>
     u8_at p 14 = 0x45 \<and> ip4_total_length p \<noteq> 0
     \<and> generatechecksum (drop 14 p) 20 = Inr 0
     \<and> ntohs (ip4_flags_fragmentoffset p) AND 0x3FFF = 0"

lemma nibbles_0x45: "drop_bit 4 (b :: byte) = 4 \<and> b AND 0x0F = 5 \<longleftrightarrow> b = 0x45"
proof
  assume h: "drop_bit 4 b = 4 \<and> b AND 0x0F = 5"
  have "b AND 0x0F = take_bit 4 b"
    by (simp add: take_bit_eq_mask mask_eq_exp_minus_1)
  with h bits_ident [of 4 b] have "b = push_bit 4 4 + 5" by simp
  then show "b = 0x45" by simp
qed simp

lemma ip_header_check_iff:
  assumes "34 \<le> length p"
  shows "ip_header_check p = Inr (ip_header_ok p)"
proof -
  have "20 \<le> length (drop 14 p)" using assms by simp
  then obtain c where c: "generatechecksum (drop 14 p) (int 20) = Inr c"
    using generatechecksum_returns [of 20 "drop 14 p"] by auto
  have "unat (ip4_total_length p) < 1 \<longleftrightarrow> ip4_total_length p = 0"
    by (simp add: unat_eq_zero)
  then show ?thesis
    using c assms nibbles_0x45 [of "u8_at p 14"]
    by (auto simp: ip_header_check_def ip_header_ok_def)
qed

text \<open>The check depends on the bytes of the header only.\<close>

lemma ip_header_ok_cong:
  assumes "34 \<le> length p" and "34 \<le> length q"
    and same: "\<And>i. 14 \<le> i \<Longrightarrow> i < 34 \<Longrightarrow> u8_at p i = u8_at q i"
  shows "ip_header_ok p \<longleftrightarrow> ip_header_ok q"
proof -
  have "generatechecksum (drop 14 p) (int 20) = generatechecksum (drop 14 q) (int 20)"
    by (rule generatechecksum_cong) (use assms in \<open>auto simp: u8_at_drop\<close>)
  moreover have "u16_at p i = u16_at q i" if "14 \<le> i" "i + 1 < 34" for i
    using that by (intro u16_at_cong same) auto
  ultimately show ?thesis using same by (simp add: ip_header_ok_def)
qed

lemma length_ip_fields [simp]: "length (ip_fields s n ttl prot d p) = length p"
  by (simp add: ip_fields_def)

lemma ip_fields_wire:
  assumes "34 \<le> length p"
  shows "u8_at (ip_fields s n ttl prot d p) 14 = 0x45"
    "u16_at (ip_fields s n ttl prot d p) 16 = htons (word_of_int n)"
    "u16_at (ip_fields s n ttl prot d p) 20 = 0"
    "u8_at (ip_fields s n ttl prot d p) 22 = ttl"
    "u8_at (ip_fields s n ttl prot d p) 23 = prot"
    "u32_at (ip_fields s n ttl prot d p) 26 = s"
    "u32_at (ip_fields s n ttl prot d p) 30 = d"
  using assms by (simp_all add: ip_fields_def wire)

text \<open>
  Filling the checksum of a freshly written header gives a valid header with the
  fields that were written.
\<close>

definition ip_header_is ::
    "addr_ip \<Rightarrow> int \<Rightarrow> byte \<Rightarrow> byte \<Rightarrow> addr_ip \<Rightarrow> byte list \<Rightarrow> bool" where
  "ip_header_is src_ip total_length ttl protocol dest p \<longleftrightarrow>
     ip4_src_ip p = src_ip \<and> ip4_dst_ip p = dest \<and> ip4_ttl p = ttl \<and> ip4_protocol p = protocol
     \<and> ip4_total_length p = htons (word_of_int total_length) \<and> ip4_flags_fragmentoffset p = 0"

lemma ip_fill_fields:
  assumes "34 \<le> length p" and "(word_of_int n :: u16) \<noteq> 0"
  shows "safe {} (\<lambda>p'. length p' = length p \<and> ip_header_ok p' \<and> ip_header_is s n ttl prot d p'
           \<and> (\<forall>i. i < 14 \<or> 34 \<le> i \<longrightarrow> u8_at p' i = u8_at p i))
     (checksum_fill 14 24 20 (ip_fields s n ttl prot d p))"
proof -
  let ?q = "ip_fields s n ttl prot d p"
  obtain c where c: "checksum_fill 14 24 (int 20) ?q = Inr (put16 24 c ?q)"
      "generatechecksum (drop 14 (put16 24 c ?q)) (int 20) = Inr 0"
    using ip_sum.fill_verifies [of 20 ?q] assms(1) by auto
  have "u8_at (put16 24 c ?q) i = u8_at p i" if "i < 14 \<or> 34 \<le> i" for i
    using that by (auto simp: ip_fields_def wire)
  moreover have "ip_header_ok (put16 24 c ?q)"
    using c(2) assms by (simp add: ip_header_ok_def ip_fields_wire wire)
  moreover have "ip_header_is s n ttl prot d (put16 24 c ?q)"
    using assms(1) by (simp add: ip_header_is_def ip_fields_wire wire)
  ultimately show ?thesis using c(1) by simp
qed

lemma generate_ipv4_header_safe:
  assumes "34 \<le> length p" and "(word_of_int (20 + n) :: u16) \<noteq> 0"
  shows "safe {} (\<lambda>p'. length p' = length p \<and> ip_header_ok p'
           \<and> ip_header_is s (20 + n) 65 prot d p'
           \<and> (\<forall>i. i < 14 \<or> 34 \<le> i \<longrightarrow> u8_at p' i = u8_at p i))
     (generate_ipv4_header s n prot d p)"
  using ip_fill_fields [OF assms] assms(1) by (simp add: generate_ipv4_header_def)

text \<open>Decrementing the TTL and refilling the checksum keeps a header valid.\<close>

lemma ip_refill_ok:
  assumes "34 \<le> length p" and "ip_header_ok p" and "i = 22 \<or> i = 23"
  shows "safe {} (\<lambda>p'. length p' = length p \<and> ip_header_ok p' \<and> u8_at p' i = v
           \<and> (\<forall>j. j \<noteq> i \<and> j \<noteq> 24 \<and> j \<noteq> 25 \<longrightarrow> u8_at p' j = u8_at p j))
     (checksum_fill 14 24 20 (put8 i v p))"
proof -
  let ?q = "put8 i v p"
  obtain c where c: "checksum_fill 14 24 (int 20) ?q = Inr (put16 24 c ?q)"
      "generatechecksum (drop 14 (put16 24 c ?q)) (int 20) = Inr 0"
    using ip_sum.fill_verifies [of 20 ?q] assms(1) by auto
  have "u8_at (put16 24 c ?q) j = u8_at p j" if "j \<noteq> i \<and> j \<noteq> 24 \<and> j \<noteq> 25" for j
    using that by (auto simp: wire)
  moreover have "u8_at (put16 24 c ?q) i = v" using assms by (auto simp: wire)
  moreover have "ip_header_ok (put16 24 c ?q)"
    using c(2) assms by (auto simp: ip_header_ok_def wire)
  ultimately show ?thesis using c(1) by simp
qed

end
