(* ===== verification/ShortestPath.thy ===== *)
theory ShortestPath
  imports Prelude
begin

text \<open>
  The shortest-path core of \<open>djikstra.c\<close>: \<open>minDistance\<close> and the relaxation loop that
  \<open>djikstra_recompute\<close> runs once per interface over the adjacency matrix of the
  subnets.  The locale \<open>hop_graph\<close> states what the loop needs of a graph, and the
  theory shows that for a 0/1 matrix the loop computes hop distances: an entry of
  \<open>dist\<close> is the length of a shortest walk, and \<open>INT_MAX\<close> exactly for the unreachable
  vertices.
\<close>

section \<open>Model\<close>

definition INT_MAX :: int where "INT_MAX = 2147483647"

text \<open>
  \<open>min_index\<close> is not initialised: \<open>None\<close> until the first assignment, and reading it
  before is the fault \<open>Uninit\<close>.
\<close>

definition minDistance_step ::
    "int list \<Rightarrow> bool list \<Rightarrow> nat \<Rightarrow> int \<times> nat option \<Rightarrow> int \<times> nat option" where
  "minDistance_step dist sptSet v acc =
     (if \<not> sptSet ! v \<and> dist ! v \<le> fst acc then (dist ! v, Some v) else acc)"

definition minDistance :: "int list \<Rightarrow> bool list \<Rightarrow> nat \<Rightarrow> nat result" where
  "minDistance dist sptSet V =
     (case snd (fold (minDistance_step dist sptSet) [0..<V] (INT_MAX, None)) of
        None \<Rightarrow> Inl Uninit
      | Some min_index \<Rightarrow> Inr min_index)"

definition relax_step ::
    "int list list \<Rightarrow> bool list \<Rightarrow> nat \<Rightarrow> nat \<Rightarrow> int list \<Rightarrow> int list" where
  "relax_step graph sptSet u v dist =
     (if \<not> sptSet ! v \<and> graph ! u ! v \<noteq> 0 \<and> dist ! u \<noteq> INT_MAX
         \<and> dist ! u + graph ! u ! v < dist ! v
      then dist[v := dist ! u + graph ! u ! v] else dist)"

definition relax :: "int list list \<Rightarrow> bool list \<Rightarrow> nat \<Rightarrow> nat \<Rightarrow> int list \<Rightarrow> int list" where
  "relax graph sptSet u V dist = fold (relax_step graph sptSet u) [0..<V] dist"

definition visit ::
    "int list list \<Rightarrow> nat \<Rightarrow> int list \<times> bool list \<Rightarrow> (int list \<times> bool list) result" where
  "visit graph V = (\<lambda>(dist, sptSet).
     bindr (minDistance dist sptSet V) (\<lambda>u.
       let sptSet = sptSet[u := True]
       in Inr (relax graph sptSet u V dist, sptSet)))"

definition djikstra_from :: "int list list \<Rightarrow> nat \<Rightarrow> nat \<Rightarrow> int list result" where
  "djikstra_from graph V src =
     bindr (for_loop V 0 (\<lambda>_. visit graph V)
              ((replicate V INT_MAX)[src := 0], replicate V False))
       (\<lambda>(dist, _). Inr dist)"

section \<open>Walks in a graph\<close>

inductive walk :: "('a \<Rightarrow> 'a \<Rightarrow> bool) \<Rightarrow> 'a \<Rightarrow> nat \<Rightarrow> 'a \<Rightarrow> bool" for edge s where
  here: "walk edge s 0 s"
| step: "walk edge s d u \<Longrightarrow> edge u v \<Longrightarrow> walk edge s (Suc d) v"

inductive_cases walk_SucE: "walk edge s (Suc d) v"

inductive_simps walk_0_iff [simp]: "walk edge s 0 v"

definition shortest :: "('a \<Rightarrow> 'a \<Rightarrow> bool) \<Rightarrow> 'a \<Rightarrow> nat \<Rightarrow> 'a \<Rightarrow> bool" where
  "shortest edge s d v \<longleftrightarrow> walk edge s d v \<and> (\<forall>d'<d. \<not> walk edge s d' v)"

lemma shortest_pred: "shortest edge s (Suc d) v \<Longrightarrow> \<exists>u. shortest edge s d u"
proof -
  assume short: "shortest edge s (Suc d) v"
  then obtain u where u: "walk edge s d u" "edge u v"
    unfolding shortest_def by (auto elim: walk_SucE)
  have "\<not> walk edge s d' u" if "d' < d" for d'
    using short u(2) that walk.step [of edge s d' u v] by (auto simp: shortest_def)
  with u show ?thesis by (auto simp: shortest_def)
qed

lemma shortest_levels:
  assumes "shortest edge s d v" and "k \<le> d"
  shows "\<exists>u. shortest edge s k u"
  using assms
proof (induction d arbitrary: v)
  case 0
  then show ?case by auto
next
  case (Suc d)
  then show ?case by (metis le_Suc_eq shortest_pred)
qed

lemma shortest_unique: "shortest edge s d v \<Longrightarrow> shortest edge s d' v \<Longrightarrow> d = d'"
  unfolding shortest_def by (meson linorder_neqE_nat)

lemma shortest_exists: "walk edge s d v \<Longrightarrow> \<exists>d'\<le>d. shortest edge s d' v"
  using exists_least_iff [of "\<lambda>d. walk edge s d v"] unfolding shortest_def
  by (metis linorder_not_less)

text \<open>Walks do not depend on how the vertices are numbered.\<close>

lemma walk_rename:
  assumes "inj_on f A" and "s \<in> A" and "\<And>u v. edge u v \<Longrightarrow> u \<in> A \<and> v \<in> A"
    and "\<And>u v. edge' u v \<Longrightarrow> u \<in> f ` A \<and> v \<in> f ` A"
    and "\<And>u v. u \<in> A \<Longrightarrow> v \<in> A \<Longrightarrow> edge' (f u) (f v) \<longleftrightarrow> edge u v"
    and "v \<in> A"
  shows "walk edge' (f s) d (f v) \<longleftrightarrow> walk edge s d v"
proof
  show "walk edge' (f s) d (f v)" if "walk edge s d v"
    using that assms(3,5) by (induction rule: walk.induct) (auto intro: walk.intros)
  have "\<exists>v\<in>A. x = f v \<and> walk edge s d v" if "walk edge' (f s) d x" for x
    using that
  proof (induction rule: walk.induct)
    case here
    then show ?case using assms(2) by (auto intro: walk.intros)
  next
    case (step d u v)
    then show ?case using assms(4,5) by (blast intro: walk.step)
  qed
  then show "walk edge s d v" if "walk edge' (f s) d (f v)"
    using that assms(1,6) by (metis inj_onD)
qed

text \<open>A graph on the vertices below \<open>V\<close>: what the distance computation relies on.\<close>

locale hop_graph =
  fixes V :: nat and edge :: "nat \<Rightarrow> nat \<Rightarrow> bool"
  assumes edge_bound: "edge u v \<Longrightarrow> u < V \<and> v < V"
begin

lemma walk_bound: "walk edge s d v \<Longrightarrow> s < V \<Longrightarrow> v < V"
  by (induction rule: walk.induct) (use edge_bound in auto)

lemma shortest_less:
  assumes "s < V" and "shortest edge s d v"
  shows "d < V"
proof -
  obtain f where f: "\<And>k. k \<le> d \<Longrightarrow> shortest edge s k (f k)"
    using shortest_levels [OF assms(2)] by metis
  have "inj_on f {..d}"
    by (rule inj_onI) (metis atMost_iff f shortest_unique)
  moreover have "f ` {..d} \<subseteq> {..<V}"
    using f walk_bound assms(1) unfolding shortest_def by blast
  ultimately have "card {..d} \<le> card {..<V}"
    by (intro card_inj_on_le) auto
  then show ?thesis by simp
qed

text \<open>
  A labelling that is sound (every finite label is the length of a walk) and has no
  edge left to relax is the distance function.
\<close>

lemma relaxed_le:
  assumes "lab s = 0" and "\<And>u v. edge u v \<Longrightarrow> lab u \<noteq> unreach \<Longrightarrow> lab v \<le> lab u + 1"
    and "walk edge s d v" and "int d < unreach"
  shows "lab v \<le> int d"
  using assms(3,4)
proof (induction rule: walk.induct)
  case here
  then show ?case using assms(1) by simp
next
  case (step d u v)
  then have "lab u \<le> int d" by simp
  moreover have "lab u \<noteq> unreach" using step calculation by auto
  ultimately show ?case using assms(2) step by fastforce
qed

lemma relaxed_is_distance:
  assumes "s < V" and "int V \<le> unreach" and "lab s = 0"
    and "\<And>u v. edge u v \<Longrightarrow> lab u \<noteq> unreach \<Longrightarrow> lab v \<le> lab u + 1"
    and "\<And>v. v < V \<Longrightarrow> lab v \<noteq> unreach \<Longrightarrow> walk edge s (nat (lab v)) v"
    and "\<And>v. v < V \<Longrightarrow> 0 \<le> lab v \<and> lab v \<le> unreach"
    and "v < V"
  shows "if lab v = unreach then (\<forall>d. \<not> walk edge s d v) else shortest edge s (nat (lab v)) v"
proof -
  have le: "lab v \<le> int d" if "shortest edge s d v" for d
    using relaxed_le [of lab s unreach d v] assms(2,3,4) that shortest_less [OF assms(1) that]
    by (auto simp: shortest_def)
  show ?thesis
  proof (cases "lab v = unreach")
    case True
    have "\<not> walk edge s d v" for d
    proof
      assume "walk edge s d v"
      then obtain d' where d': "shortest edge s d' v"
        using shortest_exists [of edge s d v] by blast
      with le True shortest_less [OF assms(1) d'] assms(2) show False by fastforce
    qed
    with True show ?thesis by simp
  next
    case False
    then have w: "walk edge s (nat (lab v)) v" using assms by blast
    then obtain d where d: "d \<le> nat (lab v)" "shortest edge s d v"
      using shortest_exists [of edge s "nat (lab v)" v] by blast
    moreover have "nat (lab v) \<le> d" using le [OF d(2)] by simp
    ultimately show ?thesis using False by simp
  qed
qed

end

text \<open>The graph an adjacency matrix represents.\<close>

definition adj :: "int list list \<Rightarrow> nat \<Rightarrow> nat \<Rightarrow> nat \<Rightarrow> bool" where
  "adj graph V u v \<longleftrightarrow> u < V \<and> v < V \<and> graph ! u ! v \<noteq> 0"

interpretation gm: hop_graph V "adj graph V" for graph V
  by unfold_locales (simp add: adj_def)

definition unit_matrix :: "int list list \<Rightarrow> nat \<Rightarrow> bool" where
  "unit_matrix graph V \<longleftrightarrow> (\<forall>u<V. \<forall>v<V. graph ! u ! v = 0 \<or> graph ! u ! v = 1)"

section \<open>The loops\<close>

lemma minDistance_fold:
  assumes "\<And>v. v < V \<Longrightarrow> dist ! v \<le> INT_MAX" and "n \<le> V"
  shows "case fold (minDistance_step dist spt) [0..<n] (INT_MAX, None) of
      (m, None) \<Rightarrow> m = INT_MAX \<and> (\<forall>v<n. spt ! v)
    | (m, Some u) \<Rightarrow> u < n \<and> \<not> spt ! u \<and> m = dist ! u \<and> (\<forall>v<n. \<not> spt ! v \<longrightarrow> m \<le> dist ! v)"
  using assms(2)
proof (induction n)
  case 0
  then show ?case by simp
next
  case (Suc n)
  obtain m r where acc: "fold (minDistance_step dist spt) [0..<n] (INT_MAX, None) = (m, r)"
    by fastforce
  have le: "dist ! n \<le> INT_MAX" using assms(1) Suc.prems by simp
  have step: "fold (minDistance_step dist spt) [0..<Suc n] (INT_MAX, None)
      = minDistance_step dist spt n (m, r)"
    using acc by simp
  have IH: "case (m, r) of (m, None) \<Rightarrow> m = INT_MAX \<and> (\<forall>v<n. spt ! v)
      | (m, Some u) \<Rightarrow> u < n \<and> \<not> spt ! u \<and> m = dist ! u \<and> (\<forall>v<n. \<not> spt ! v \<longrightarrow> m \<le> dist ! v)"
    using Suc acc by simp
  show ?case
    unfolding step using IH le
    by (cases r) (auto simp: minDistance_step_def less_Suc_eq)
qed

lemma minDistance_spec:
  assumes "\<And>v. v < V \<Longrightarrow> dist ! v \<le> INT_MAX" and "v < V" and "\<not> spt ! v"
  shows "\<exists>u<V. minDistance dist spt V = Inr u \<and> \<not> spt ! u
           \<and> (\<forall>v<V. \<not> spt ! v \<longrightarrow> dist ! u \<le> dist ! v)"
proof -
  obtain m r where acc: "fold (minDistance_step dist spt) [0..<V] (INT_MAX, None) = (m, r)"
    by fastforce
  then show ?thesis
    using minDistance_fold [of V dist V spt] assms
    by (cases r) (auto simp: minDistance_def)
qed

lemma relax_fold:
  assumes "spt ! u" and "n \<le> length dist" and "u < length dist"
  shows "length (fold (relax_step g spt u) [0..<n] dist) = length dist \<and>
    (\<forall>v<length dist. fold (relax_step g spt u) [0..<n] dist ! v =
      (if v < n \<and> \<not> spt ! v \<and> g ! u ! v \<noteq> 0 \<and> dist ! u \<noteq> INT_MAX
          \<and> dist ! u + g ! u ! v < dist ! v
       then dist ! u + g ! u ! v else dist ! v))"
  using assms(2)
proof (induction n)
  case 0
  then show ?case by simp
next
  case (Suc n)
  define d where "d = fold (relax_step g spt u) [0..<n] dist"
  have len: "length d = length dist" and d: "\<And>v. v < length dist \<Longrightarrow> d ! v =
      (if v < n \<and> \<not> spt ! v \<and> g ! u ! v \<noteq> 0 \<and> dist ! u \<noteq> INT_MAX
          \<and> dist ! u + g ! u ! v < dist ! v
       then dist ! u + g ! u ! v else dist ! v)"
    using Suc by (simp_all add: d_def)
  have u: "d ! u = dist ! u" and n: "d ! n = dist ! n" using d Suc.prems assms(1,3) by simp_all
  have step: "fold (relax_step g spt u) [0..<Suc n] dist = relax_step g spt u n d"
    by (simp add: d_def)
  show ?case
    unfolding step using Suc.prems u n len d
    by (auto simp: relax_step_def nth_list_update less_Suc_eq)
qed

lemma relax_nth:
  assumes "spt ! u" and "u < V" and "v < V" and "length dist = V"
  shows "relax g spt u V dist ! v =
      (if \<not> spt ! v \<and> g ! u ! v \<noteq> 0 \<and> dist ! u \<noteq> INT_MAX \<and> dist ! u + g ! u ! v < dist ! v
       then dist ! u + g ! u ! v else dist ! v)"
  using relax_fold [of spt u V dist g] assms by (simp add: relax_def)

lemma length_relax [simp]:
  "spt ! u \<Longrightarrow> u < V \<Longrightarrow> length dist = V \<Longrightarrow> length (relax g spt u V dist) = V"
  using relax_fold [of spt u V dist g] by (simp add: relax_def)

section \<open>The invariant of the main loop\<close>

definition djk_inv :: "int list list \<Rightarrow> nat \<Rightarrow> nat \<Rightarrow> int list \<Rightarrow> bool list \<Rightarrow> bool" where
  "djk_inv g V s dist spt \<longleftrightarrow>
     length dist = V \<and> length spt = V \<and> dist ! s = 0 \<and>
     (\<forall>v<V. 0 \<le> dist ! v \<and> dist ! v \<le> INT_MAX
            \<and> (dist ! v \<noteq> INT_MAX \<longrightarrow> walk (adj g V) s (nat (dist ! v)) v)) \<and>
     (\<forall>u<V. spt ! u \<longrightarrow>
        (\<forall>v. adj g V u v \<longrightarrow> dist ! u \<noteq> INT_MAX \<longrightarrow> dist ! v \<le> dist ! u + 1) \<and>
        (\<forall>v<V. \<not> spt ! v \<longrightarrow> dist ! u \<le> dist ! v))"

lemma djk_inv_init:
  "s < V \<Longrightarrow> djk_inv g V s ((replicate V INT_MAX)[s := 0]) (replicate V False)"
  by (auto simp: djk_inv_def nth_list_update INT_MAX_def)

lemma djk_inv_visit:
  assumes inv: "djk_inv g V s dist spt" and um: "unit_matrix g V"
    and u: "u < V" "\<not> spt ! u" "\<And>v. v < V \<Longrightarrow> \<not> spt ! v \<Longrightarrow> dist ! u \<le> dist ! v"
    and s: "s < V"
  shows "djk_inv g V s (relax g (spt[u := True]) u V dist) (spt[u := True])"
proof -
  let ?spt = "spt[u := True]"
  let ?d = "relax g ?spt u V dist"
  have len: "length dist = V" "length spt = V" using inv by (simp_all add: djk_inv_def)
  have marked: "?spt ! u" using u len by simp
  have d: "?d ! v = (if \<not> ?spt ! v \<and> adj g V u v \<and> dist ! u \<noteq> INT_MAX \<and> dist ! u + 1 < dist ! v
       then dist ! u + 1 else dist ! v)" if "v < V" for v
  proof -
    have "g ! u ! v = 0 \<or> g ! u ! v = 1" using um u(1) that by (simp add: unit_matrix_def)
    then show ?thesis
      using relax_nth [OF marked u(1) that len(1), of g] u(1) that by (auto simp: adj_def)
  qed
  have range: "0 \<le> dist ! v" "dist ! v \<le> INT_MAX" if "v < V" for v
    using inv that unfolding djk_inv_def by blast+
  have wk: "walk (adj g V) s (nat (dist ! v)) v" if "v < V" "dist ! v \<noteq> INT_MAX" for v
    using inv that unfolding djk_inv_def by blast
  have rel: "dist ! v \<le> dist ! x + 1" if "spt ! x" "adj g V x v" "dist ! x \<noteq> INT_MAX" for x v
  proof -
    have "x < V" using that by (simp add: adj_def)
    then show ?thesis using inv that unfolding djk_inv_def by blast
  qed
  have ord: "dist ! x \<le> dist ! v" if "x < V" "spt ! x" "v < V" "\<not> spt ! v" for x v
    using inv that unfolding djk_inv_def by blast
  have le: "?d ! v \<le> dist ! v" if "v < V" for v using d [OF that] by auto
  have same: "?d ! v = dist ! v" if "v < V" "?spt ! v" for v using d that by auto
  have A: "?d ! s = 0"
  proof -
    have "dist ! s = 0" using inv by (simp add: djk_inv_def)
    then show ?thesis using d [OF s] range(1) [OF u(1)] by simp
  qed
  have B: "0 \<le> ?d ! v \<and> ?d ! v \<le> INT_MAX
      \<and> (?d ! v \<noteq> INT_MAX \<longrightarrow> walk (adj g V) s (nat (?d ! v)) v)" if "v < V" for v
  proof (cases "?d ! v = dist ! v")
    case True
    then show ?thesis using range [OF that] wk [OF that] by simp
  next
    case False
    then have new: "adj g V u v" "dist ! u \<noteq> INT_MAX" "dist ! u + 1 < dist ! v"
        "?d ! v = dist ! u + 1"
      using d [OF that] by (auto split: if_splits)
    then have "walk (adj g V) s (Suc (nat (dist ! u))) v"
      using wk [OF u(1)] by (blast intro: walk.step)
    moreover have "Suc (nat (dist ! u)) = nat (dist ! u + 1)" using range [OF u(1)] by simp
    ultimately show ?thesis using new range [OF u(1)] range [OF that] by simp
  qed
  have C: "?d ! v \<le> ?d ! x + 1"
    if "x < V" "?spt ! x" "adj g V x v" "?d ! x \<noteq> INT_MAX" for x v
  proof -
    have v: "v < V" using that by (simp add: adj_def)
    show ?thesis
    proof (cases "x = u")
      case True
      have du: "?d ! u = dist ! u" using same u(1) marked by blast
      show ?thesis
      proof (cases "?spt ! v")
        case visited: True
        then have "dist ! v \<le> dist ! u"
          using ord [OF v _ u(1,2)] by (cases "v = u") simp_all
        then show ?thesis using same [OF v visited] du True by simp
      next
        case False
        then show ?thesis using d [OF v] that du True by simp
      qed
    next
      case False
      then have "spt ! x" using that by simp
      moreover have "?d ! x = dist ! x" using same that by blast
      ultimately show ?thesis using rel [of x v] le [OF v] that by simp
    qed
  qed
  have D: "?d ! x \<le> ?d ! v" if "x < V" "?spt ! x" "v < V" "\<not> ?spt ! v" for x v
  proof -
    have "v \<noteq> u" using that(4) marked by auto
    then have nv: "\<not> spt ! v" using that by simp
    have "dist ! x \<le> dist ! u"
      using that(1,2) ord [OF _ _ u(1,2)] by (cases "x = u") simp_all
    moreover have "dist ! u \<le> dist ! v" using u(3) that(3) nv by blast
    moreover have "?d ! x = dist ! x" using same that by blast
    ultimately show ?thesis using d [OF that(3)] by simp
  qed
  have "length ?d = V" "length ?spt = V" using len marked u(1) by simp_all
  then show ?thesis
    unfolding djk_inv_def
    by (intro conjI allI impI)
       (assumption | rule A B [THEN conjunct1] B [THEN conjunct2, THEN conjunct1]
          B [THEN conjunct2, THEN conjunct2, THEN mp] C D)+
qed

lemma visited_count:
  assumes "u < V" and "\<not> spt ! u" and "length spt = V"
  shows "card {v. v < V \<and> spt[u := True] ! v} = Suc (card {v. v < V \<and> spt ! v})"
proof -
  have "{v. v < V \<and> spt[u := True] ! v} = insert u {v. v < V \<and> spt ! v}"
    using assms by (auto simp: nth_list_update)
  then show ?thesis using assms by simp
qed

lemma visited_all: "card {v. v < V \<and> P v} = V \<Longrightarrow> v < V \<Longrightarrow> P v"
proof -
  assume "card {v. v < V \<and> P v} = V" and v: "v < V"
  then have "{v. v < V \<and> P v} = {..<V}"
    by (intro card_subset_eq) auto
  then show "P v" using v by auto
qed

lemma visit_safe:
  assumes "djk_inv g V s dist spt" and "card {v. v < V \<and> spt ! v} < V"
    and "unit_matrix g V" and "s < V"
  shows "safe {} (\<lambda>(dist', spt'). djk_inv g V s dist' spt'
           \<and> card {v. v < V \<and> spt' ! v} = Suc (card {v. v < V \<and> spt ! v})) (visit g V (dist, spt))"
proof -
  have "\<exists>v<V. \<not> spt ! v"
  proof (rule ccontr)
    assume "\<not> ?thesis"
    then have "{v. v < V \<and> spt ! v} = {..<V}" by auto
    with assms(2) show False by simp
  qed
  moreover have "\<And>v. v < V \<Longrightarrow> dist ! v \<le> INT_MAX" "length spt = V"
    using assms(1) by (auto simp: djk_inv_def)
  ultimately obtain u where "u < V" "minDistance dist spt V = Inr u" "\<not> spt ! u"
      "\<forall>v<V. \<not> spt ! v \<longrightarrow> dist ! u \<le> dist ! v"
    using minDistance_spec by blast
  with assms \<open>length spt = V\<close> show ?thesis
    using djk_inv_visit [of g V s dist spt u] visited_count [of u V spt]
    by (simp add: visit_def Let_def)
qed

lemma djikstra_from_loop:
  assumes "unit_matrix g V" and "s < V"
  shows "safe {} (\<lambda>(dist, spt). djk_inv g V s dist spt \<and> card {v. v < V \<and> spt ! v} = V)
      (for_loop V 0 (\<lambda>_. visit g V) ((replicate V INT_MAX)[s := 0], replicate V False))"
proof -
  let ?I = "\<lambda>n (dist, spt). djk_inv g V s dist spt \<and> card {v. v < V \<and> spt ! v} = n"
  have "safe {} (?I (0 + V))
      (for_loop V 0 (\<lambda>_. visit g V) ((replicate V INT_MAX)[s := 0], replicate V False))"
  proof (rule for_loop_safe)
    show "?I 0 ((replicate V INT_MAX)[s := 0], replicate V False)"
      using assms(2) by (simp add: djk_inv_init)
    show "safe {} (?I (Suc j)) (visit g V st)" if "j < 0 + V" "?I j st" for j st
    proof -
      obtain dist spt where st: "st = (dist, spt)" by fastforce
      then have "card {v. v < V \<and> spt ! v} = j" using that by simp
      with st that visit_safe [of g V s dist spt] assms(1,2) show ?thesis by simp
    qed
  qed
  then show ?thesis by simp
qed

text \<open>Without a bound on the size: the computation returns distances of at most \<open>INT_MAX\<close>.\<close>

lemma djikstra_from_returns:
  assumes "unit_matrix g V" and "s < V"
  shows "safe {} (\<lambda>dist. length dist = V \<and> (\<forall>v<V. 0 \<le> dist ! v \<and> dist ! v \<le> INT_MAX))
           (djikstra_from g V s)"
  unfolding djikstra_from_def
  by (rule safe_bindr [OF djikstra_from_loop [OF assms]]) (auto simp: djk_inv_def)

lemma djikstra_from_safe:
  assumes "unit_matrix g V" and "s < V" and "int V \<le> INT_MAX"
  shows "safe {} (\<lambda>dist. length dist = V \<and> (\<forall>v<V. 0 \<le> dist ! v \<and> dist ! v \<le> INT_MAX \<and>
     (if dist ! v = INT_MAX then (\<forall>d. \<not> walk (adj g V) s d v)
      else shortest (adj g V) s (nat (dist ! v)) v))) (djikstra_from g V s)"
proof -
  let ?I = "\<lambda>(dist, spt). djk_inv g V s dist spt \<and> card {v. v < V \<and> spt ! v} = V"
  note djikstra_from_loop [OF assms(1,2)]
  then show ?thesis
    unfolding djikstra_from_def
  proof (rule safe_bindr)
    fix r assume r: "?I r"
    obtain dist spt where rr: "r = (dist, spt)" by fastforce
    have inv: "djk_inv g V s dist spt" and count: "card {v. v < V \<and> spt ! v} = V"
      using r rr by simp_all
    have all: "spt ! v" if "v < V" for v
      using visited_all [OF count that] .
    have "if dist ! v = INT_MAX then (\<forall>d. \<not> walk (adj g V) s d v)
        else shortest (adj g V) s (nat (dist ! v)) v" if "v < V" for v
    proof (rule gm.relaxed_is_distance [of s V INT_MAX "\<lambda>v. dist ! v"])
      show "dist ! s = 0" using inv by (simp add: djk_inv_def)
      show "dist ! v \<le> dist ! u + 1" if e: "adj g V u v" and "dist ! u \<noteq> INT_MAX" for u v
      proof -
        have "u < V" using e by (simp add: adj_def)
        then show ?thesis using inv all that unfolding djk_inv_def by blast
      qed
      show "walk (adj g V) s (nat (dist ! v)) v" if "v < V" "dist ! v \<noteq> INT_MAX" for v
        using inv that unfolding djk_inv_def by blast
      show "0 \<le> dist ! v \<and> dist ! v \<le> INT_MAX" if "v < V" for v
        using inv that unfolding djk_inv_def by blast
    qed (use assms that in simp_all)
    with inv rr show "safe {} (\<lambda>dist. length dist = V \<and> (\<forall>v<V. 0 \<le> dist ! v \<and> dist ! v \<le> INT_MAX \<and>
       (if dist ! v = INT_MAX then (\<forall>d. \<not> walk (adj g V) s d v)
        else shortest (adj g V) s (nat (dist ! v)) v)))
      (case r of (dist, _) \<Rightarrow> Inr dist)"
      by (auto simp: djk_inv_def)
  qed
qed

end
