(* ===== verification/Djikstra.thy ===== *)
theory Djikstra
  imports Arp ShortestPath
begin

text \<open>
  \<open>djikstra_recompute\<close> (\<open>djikstra.c\<close>): the advertisements of all neighbours are
  gathered into a topology, the subnets become the vertices of a graph in which the
  subnets of one router are joined, a shortest-path computation runs from the subnet
  of each interface, and the routing table is rebuilt from the result and the static
  routes.

  The local arrays are lists, the local queues \<open>topology\<close> and \<open>subnets\<close> are queues;
  their release at the end, and the printing of the table, have no effect on the
  state.  Exhaustion of the stack by the variable-length arrays is not modelled, nor
  is the hardware mirror of \<open>_CPUMODE_\<close> builds.
\<close>

section \<open>Gathering the topology\<close>

record d_link =
  dl_subnet :: addr_ip
  dl_netmask :: addr_ip

record pwospf_lsa_dj =
  dj_lsa :: pwospf_lsa
  dj_router_ip :: addr_ip

record dj_topology =
  topology :: "pwospf_lsa_dj dataqueue"
  subnets :: "d_link dataqueue"
  routers :: "addr_ip list"

text \<open>
  \<open>if (queue_existsunsafe(q, &x) == -1) queue_add(q, &x, sizeof(x))\<close>.  Both entry
  types are packed, so \<open>memcmp\<close> is equality.
\<close>

definition queue_add_new :: "int \<Rightarrow> 'a dataqueue \<Rightarrow> 'a \<Rightarrow> 'a dataqueue result" where
  "queue_add_new sz q x =
     (if queue_existsunsafe (=) q x = -1 then queue_add q x sz else Inr q)"

definition own_subnet :: "interface \<Rightarrow> addr_ip" where
  "own_subnet intf = subnet_mask intf AND if_ip intf"

definition own_link :: "interface \<Rightarrow> d_link" where
  "own_link intf = \<lparr>dl_subnet = own_subnet intf, dl_netmask = subnet_mask intf\<rparr>"

definition own_lsa :: "world \<Rightarrow> interface \<Rightarrow> pwospf_lsa_dj" where
  "own_lsa w intf =
     \<lparr>dj_lsa = \<lparr>lsa_subnet = own_subnet intf, lsa_netmask = subnet_mask intf,
                lsa_router_id = router_id (pw_router w)\<rparr>, dj_router_ip = 0\<rparr>"

definition lsu_at :: "lsu_block \<Rightarrow> nat \<Rightarrow> pwospf_lsa result" where
  "lsu_at blk j =
     (case blk of
        LsuNull \<Rightarrow> Inl NullDeref
      | LsuFreed \<Rightarrow> Inl UseAfterFree
      | LsuData xs \<Rightarrow> need (j < length xs) OutOfBounds (Inr (xs ! j)))"

definition gather_lsa ::
    "nat \<Rightarrow> pwospf_list_entry \<Rightarrow> nat \<Rightarrow> dj_topology \<Rightarrow> dj_topology result" where
  "gather_lsa i entry j st =
     bindr (lsu_at (lsu_lastcontents entry) j) (\<lambda>lsa.
     let st = (if immediate_neighbour entry = 1
               then st\<lparr>routers := (routers st)[i := neighbour_ip entry]\<rparr> else st)
     in bindr (queue_add_new sizeof_pwospf_lsa_dj (topology st)
                 \<lparr>dj_lsa = lsa, dj_router_ip = neighbour_ip entry\<rparr>) (\<lambda>t.
        bindr (queue_add_new sizeof_d_link (subnets st)
                 \<lparr>dl_subnet = lsa_subnet lsa, dl_netmask = lsa_netmask lsa\<rparr>) (\<lambda>s.
          Inr (st\<lparr>topology := t, subnets := s\<rparr>))))"

definition gather_neighbour ::
    "nat \<Rightarrow> pwospf_list_entry dataqueue \<Rightarrow> nat \<Rightarrow> dj_topology \<Rightarrow> dj_topology result" where
  "gather_neighbour i nbs n st =
     (case queue_getidunsafe nbs (int n) of
        None \<Rightarrow> Inr st
      | Some (entry, entry_size) \<Rightarrow>
          need (entry_size = sizeof_pwospf_list_entry) AssertFail
            (if lsu_lastcontents entry \<noteq> LsuNull
             then for_loop (nat (lsu_lastcontents_count entry)) 0 (gather_lsa i entry) st
             else Inr st))"

definition gather_interface :: "world \<Rightarrow> nat \<Rightarrow> dj_topology \<Rightarrow> dj_topology result" where
  "gather_interface w i st =
     bindr (interface_at w (Some i)) (\<lambda>intf.
     bindr (queue_add_new sizeof_d_link (subnets st) (own_link intf)) (\<lambda>s.
     bindr (queue_add_new sizeof_pwospf_lsa_dj (topology st) (own_lsa w intf)) (\<lambda>t.
       for_loop (nat (qsize (neighbours intf))) 0 (gather_neighbour i (neighbours intf))
         (st\<lparr>topology := t, subnets := s\<rparr>))))"

definition djikstra_gather :: "world \<Rightarrow> dj_topology result" where
  "djikstra_gather w =
     for_loop (num_interfaces w) 0 (gather_interface w)
       \<lparr>topology = queue_init, subnets = queue_init, routers = replicate (num_interfaces w) 0\<rparr>"

section \<open>The graph\<close>

definition link_of :: "pwospf_lsa_dj \<Rightarrow> d_link" where
  "link_of e = \<lparr>dl_subnet = lsa_subnet (dj_lsa e), dl_netmask = lsa_netmask (dj_lsa e)\<rparr>"

definition set_edge :: "int \<Rightarrow> int \<Rightarrow> int list list \<Rightarrow> int list list" where
  "set_edge a b graph = graph[nat a := (graph ! nat a)[nat b := 1]]"

definition connect ::
    "dj_topology \<Rightarrow> pwospf_lsa_dj \<Rightarrow> nat \<Rightarrow> int list list \<Rightarrow> int list list result" where
  "connect st entry p graph =
     (case queue_getidunsafe (topology st) (int p) of
        None \<Rightarrow> Inr graph
      | Some (entry_t, entry_size_t) \<Rightarrow>
          need (entry_size_t = sizeof_pwospf_lsa_dj) AssertFail
            (if lsa_router_id (dj_lsa entry) = lsa_router_id (dj_lsa entry_t)
                \<and> lsa_subnet (dj_lsa entry) \<noteq> lsa_subnet (dj_lsa entry_t)
             then let id1 = queue_existsunsafe (=) (subnets st) (link_of entry);
                      id2 = queue_existsunsafe (=) (subnets st) (link_of entry_t)
                  in need (id1 \<noteq> -1) AssertFail
                      (need (id2 \<noteq> -1) AssertFail
                        (Inr (set_edge id2 id1 (set_edge id1 id2 graph))))
             else Inr graph))"

definition connect_all :: "dj_topology \<Rightarrow> nat \<Rightarrow> int list list \<Rightarrow> int list list result" where
  "connect_all st k graph =
     (case queue_getidunsafe (topology st) (int k) of
        None \<Rightarrow> Inr graph
      | Some (entry, entry_size) \<Rightarrow>
          need (entry_size = sizeof_pwospf_lsa_dj) AssertFail
            (for_loop (nat (qsize (topology st)) - Suc k) (Suc k) (connect st entry) graph))"

definition populate_graph :: "dj_topology \<Rightarrow> int list list result" where
  "populate_graph st =
     (let s = nat (qsize (subnets st))
      in for_loop (nat (qsize (topology st))) 0 (connect_all st) (replicate s (replicate s 0)))"

section \<open>Choosing the best interface for each subnet\<close>

text \<open>\<open>rips\<close> is not initialised: \<open>None\<close> until the first assignment.\<close>

record dj_select =
  final :: "int list"
  dj_intf :: "int list"
  rips :: "addr_ip option list"

definition select_subnet ::
    "dj_topology \<Rightarrow> interface \<Rightarrow> nat \<Rightarrow> int list \<Rightarrow> nat \<Rightarrow> dj_select \<Rightarrow> dj_select result" where
  "select_subnet st intf i dist v sel =
     (if dist ! v < final sel ! v then
        (case queue_getidunsafe (subnets st) (int v) of
           None \<Rightarrow> Inl Uninit
         | Some (link, entry_size) \<Rightarrow>
             need (entry_size = sizeof_d_link) AssertFail
               (Inr (sel\<lparr>final := (final sel)[v := dist ! v],
                         dj_intf := (dj_intf sel)[v := int i],
                         rips := (rips sel)[v := Some (if dl_subnet link = own_subnet intf
                                                       then 0 else routers st ! i)]\<rparr>)))
      else Inr sel)"

definition select_interface ::
    "world \<Rightarrow> dj_topology \<Rightarrow> int list list \<Rightarrow> nat \<Rightarrow> dj_select \<Rightarrow> dj_select result" where
  "select_interface w st graph i sel =
     bindr (interface_at w (Some i)) (\<lambda>intf.
     let V = nat (qsize (subnets st));
         idx = queue_existsunsafe (=) (subnets st) (own_link intf)
     in need (idx \<noteq> -1) AssertFail
       (bindr (djikstra_from graph V (nat idx)) (\<lambda>dist.
          for_loop V 0 (select_subnet st intf i dist) sel)))"

definition djikstra_select :: "world \<Rightarrow> dj_topology \<Rightarrow> int list list \<Rightarrow> dj_select result" where
  "djikstra_select w st graph =
     (let V = nat (qsize (subnets st))
      in for_loop (num_interfaces w) 0 (select_interface w st graph)
           \<lparr>final = replicate V INT_MAX, dj_intf = replicate V INT_MAX,
            rips = replicate V None\<rparr>)"

section \<open>Rebuilding the table\<close>

definition dynamic_entry ::
    "world \<Rightarrow> dj_topology \<Rightarrow> dj_select \<Rightarrow> nat \<Rightarrow> rtable_entry list \<Rightarrow> rtable_entry list result" where
  "dynamic_entry w st sel q entries =
     (if 0 \<le> dj_intf sel ! q \<and> dj_intf sel ! q < int (num_interfaces w) then
        (case queue_getidunsafe (subnets st) (int q) of
           None \<Rightarrow> Inl Uninit
         | Some (link, entry_size) \<Rightarrow>
             need (entry_size = sizeof_d_link) AssertFail
              (bindr (interface_at w (Some (nat (dj_intf sel ! q)))) (\<lambda>intf.
                 if own_subnet intf \<noteq> dl_subnet link then
                   (case rips sel ! q of
                      None \<Rightarrow> Inl Uninit
                    | Some ip \<Rightarrow>
                        Inr (entries @
                          [\<lparr>router_ip = ip, subnet = dl_subnet link, netmask = dl_netmask link,
                            rt_interface = Some (nat (dj_intf sel ! q)),
                            metric = final sel ! q, dynamic = True\<rparr>]))
                 else Inr entries)))
      else Inr entries)"

definition static_entry ::
    "rtable_entry dataqueue \<Rightarrow> nat \<Rightarrow> rtable_entry list \<Rightarrow> rtable_entry list result" where
  "static_entry rtable q entries =
     (case queue_getidunsafe rtable (int q) of
        None \<Rightarrow> Inr entries
      | Some (entry_old, entry_size_old) \<Rightarrow>
          need (entry_size_old = sizeof_rtable_entry) AssertFail
            (Inr (if \<not> dynamic entry_old then entries @ [entry_old] else entries)))"

definition cmpfunc :: "rtable_entry \<Rightarrow> rtable_entry \<Rightarrow> int" where
  "cmpfunc p1 p2 = (if netmask p1 \<le> netmask p2 then -1 else 1)"

text \<open>
  \<open>qsort\<close> is the merge sort of the GNU C library: the first half has \<open>n / 2\<close>
  elements, and the merge takes the left element when \<open>cmp(left, right) <= 0\<close>.
\<close>

fun qsort_merge :: "('a \<Rightarrow> 'a \<Rightarrow> int) \<Rightarrow> 'a list \<Rightarrow> 'a list \<Rightarrow> 'a list" where
  "qsort_merge cmp [] ys = ys"
| "qsort_merge cmp xs [] = xs"
| "qsort_merge cmp (x # xs) (y # ys) =
     (if cmp x y \<le> 0 then x # qsort_merge cmp xs (y # ys)
      else y # qsort_merge cmp (x # xs) ys)"

fun qsort :: "('a \<Rightarrow> 'a \<Rightarrow> int) \<Rightarrow> 'a list \<Rightarrow> 'a list" where
  "qsort cmp xs =
     (if length xs \<le> 1 then xs
      else qsort_merge cmp (qsort cmp (take (length xs div 2) xs))
             (qsort cmp (drop (length xs div 2) xs)))"

declare qsort.simps [simp del]

definition refill ::
    "env \<Rightarrow> rtable_entry list \<Rightarrow> rtable_entry dataqueue \<Rightarrow> rtable_entry dataqueue" where
  "refill E entries rtable =
     fold (\<lambda>e tbl. if queue_existsunsafe (memcmp_rtable E) tbl e = -1
                   then queue_add_unsafe tbl e sizeof_rtable_entry else tbl) entries rtable"

section \<open>The whole computation\<close>

definition set_neighbours :: "nat \<Rightarrow> pwospf_list_entry dataqueue \<Rightarrow> world \<Rightarrow> world" where
  "set_neighbours i q w =
     w\<lparr>interface := (interface w)[i := (interface w ! i)\<lparr>neighbours := q\<rparr>]\<rparr>"

definition djikstra_lock_router :: "world \<Rightarrow> world result" where
  "djikstra_lock_router w =
     for_loop (num_interfaces w) 0 (\<lambda>i w.
       bindr (interface_at w (Some i)) (\<lambda>intf.
       bindr (queue_lockall (neighbours intf)) (\<lambda>q. Inr (set_neighbours i q w)))) w"

definition djikstra_unlock_router :: "world \<Rightarrow> world result" where
  "djikstra_unlock_router w =
     for_loop (num_interfaces w) 0 (\<lambda>i w.
       bindr (interface_at w (Some i)) (\<lambda>intf.
         Inr (set_neighbours i (queue_unlockall (neighbours intf)) w))) w"

text \<open>
  \<open>entries\<close> is assigned by the first \<open>malloc\<close>; with no entry at all the final
  \<open>free(entries)\<close> uses an uninitialised pointer.
\<close>

definition djikstra_recompute :: "env \<Rightarrow> world \<Rightarrow> world result" where
  "djikstra_recompute E w =
     need (\<not> djkstra_locker w) Deadlock
     (bindr (djikstra_lock_router (w\<lparr>djkstra_locker := True\<rparr>)) (\<lambda>w.
      bindr (djikstra_gather w) (\<lambda>st.
      bindr (populate_graph st) (\<lambda>graph.
      bindr (djikstra_select w st graph) (\<lambda>sel.
      bindr (for_loop (nat (qsize (subnets st))) 0 (dynamic_entry w st sel) []) (\<lambda>entries.
      bindr (queue_lockall (ip_table w)) (\<lambda>rtable.
      bindr (for_loop (nat (queue_getcurrentsize rtable)) 0 (static_entry rtable) entries)
        (\<lambda>entries.
      let rtable = queue_unlockall
                     (refill E (qsort cmpfunc entries) (queue_purge_unsafe rtable))
      in need (entries \<noteq> []) Uninit
        (bindr (djikstra_unlock_router (w\<lparr>ip_table := rtable\<rparr>)) (\<lambda>w.
          Inr (w\<lparr>djkstra_locker := False\<rparr>)))))))))))"

end
