(* ===== verification/Pwospf.thy ===== *)
theory Pwospf
  imports IpHeader Djikstra
begin

text \<open>
  PWOSPF (\<open>pwospf.c\<close>): reception of HELLO and link-state packets, flooding,
  generation of both kinds of packets, and one pass of the protocol thread.

  A pointer to an entry of a neighbour table, used while the table is locked, is the
  index of the entry.  The payload of a link-state packet is patched inside the
  received frame, as the code does.  \<open>malloc\<close> and \<open>realloc\<close> behave as in the GNU C
  library: \<open>malloc(0)\<close> returns a block, \<open>realloc(p, 0)\<close> frees \<open>p\<close> and returns
  \<open>NULL\<close>, and a request close to the size of the address space fails.
\<close>

section \<open>Constants and payload access\<close>

definition OSPF_VERSION :: byte where "OSPF_VERSION = 2"
definition OSPF_TYPE_HELLO :: byte where "OSPF_TYPE_HELLO = 1"
definition OSPF_TYPE_LINK :: byte where "OSPF_TYPE_LINK = 4"
definition HELLOINT :: u16 where "HELLOINT = 5"
definition LSUINT :: int where "LSUINT = 30"
definition LSUINT_TIMEOUT :: int where "LSUINT_TIMEOUT = 90"

definition lsa_at :: "byte list \<Rightarrow> nat \<Rightarrow> pwospf_lsa" where
  "lsa_at p off = \<lparr>lsa_subnet = u32_at p off, lsa_netmask = u32_at p (off + 4),
                   lsa_router_id = u32_at p (off + 8)\<rparr>"

definition put_lsa :: "nat \<Rightarrow> pwospf_lsa \<Rightarrow> byte list \<Rightarrow> byte list" where
  "put_lsa off l p =
     put32 (off + 8) (lsa_router_id l) (put32 (off + 4) (lsa_netmask l) (put32 off (lsa_subnet l) p))"

text \<open>The \<open>n\<close> advertisements of a link-state packet.\<close>

definition payload :: "nat \<Rightarrow> byte list \<Rightarrow> pwospf_lsa list" where
  "payload n p = map (\<lambda>g. lsa_at p (66 + 12 * g)) [0..<n]"

text \<open>
  \<open>for (g = 0; g < n; g++) if (payload[g].router_id == from) payload[g].router_id = to\<close>
\<close>

definition patch_ids :: "nat \<Rightarrow> u32 \<Rightarrow> u32 \<Rightarrow> byte list \<Rightarrow> byte list" where
  "patch_ids n from to p =
     fold (\<lambda>g p. if u32_at p (66 + 12 * g + 8) = from then put32 (66 + 12 * g + 8) to p else p)
       [0..<n] p"

section \<open>Looking a neighbour up\<close>

fun getneighbour_from ::
    "pwospf_list_entry dataqueue \<Rightarrow> u32 \<Rightarrow> nat \<Rightarrow> nat \<Rightarrow> nat option result" where
  "getneighbour_from nbs rid 0 n = Inr None"
| "getneighbour_from nbs rid (Suc k) n =
     (case queue_getidunsafe nbs (int n) of
        None \<Rightarrow> getneighbour_from nbs rid k (Suc n)
      | Some (entry, entry_size) \<Rightarrow>
          need (entry_size = sizeof_pwospf_list_entry) AssertFail
            (if neighbour_id entry = rid then Inr (Some n)
             else getneighbour_from nbs rid k (Suc n)))"

definition getneighbourfromidunsafe ::
    "pwospf_list_entry dataqueue \<Rightarrow> u32 \<Rightarrow> nat option result" where
  "getneighbourfromidunsafe nbs rid = getneighbour_from nbs rid (nat (qsize nbs)) 0"

section \<open>Flooding\<close>

definition pwospf_reflood_to ::
    "env \<Rightarrow> packet_info \<Rightarrow> nat \<Rightarrow> addr_ip \<Rightarrow> world \<Rightarrow> (packet_info \<times> world) result" where
  "pwospf_reflood_to E pi i dest w =
     need (34 \<le> length (pi_packet pi)) OutOfBounds
     (bindr (interface_at w (Some i)) (\<lambda>intf.
      let p = put32 26 (if_ip intf) (put32 30 dest (pi_packet pi))
      in bindr (arp_getcachebyip (arp_cache w) dest) (\<lambda>(r, cache).
         let w = w\<lparr>arp_cache := cache\<rparr>
         in case r of
              Some (_, arp_dest) \<Rightarrow>
                bindr (checksum_fill 14 24 20 p) (\<lambda>p.
                  if unat (ip4_ttl p) < 1 then Inr (pi\<lparr>pi_packet := p\<rparr>, w)
                  else bindr (ethernet_packet_send E (Some i) (arp_mac arp_dest) (if_mac intf)
                                (htons ETH_IP_TYPE) (pi\<lparr>pi_packet := p\<rparr>) w)
                         (\<lambda>(_, pi, w). Inr (pi, w)))
            | None \<Rightarrow>
                bindr (arp_queue_ippacket_for_send_on_arp_request_response E
                         (pi\<lparr>pi_packet := p\<rparr>) (Some i) dest w)
                  (\<lambda>w. Inr (pi\<lparr>pi_packet := p\<rparr>, w)))))"

text \<open>\<open>compare_lsus\<close>: the structs are packed, so \<open>memcmp\<close> is equality.\<close>

definition compare_lsus :: "pwospf_lsa list \<Rightarrow> pwospf_lsa list \<Rightarrow> nat \<Rightarrow> bool" where
  "compare_lsus a b n \<longleftrightarrow> list_all (\<lambda>i. list_ex (\<lambda>j. a ! i = b ! j) [0..<n]) [0..<n]"

text \<open>
  Flooding to one neighbour; \<open>li\<close> is the interface whose table the caller holds
  locked, \<open>excluded\<close> the address of the neighbour the packet came from.
\<close>

definition reflood_neighbour ::
    "env \<Rightarrow> addr_ip \<Rightarrow> nat \<Rightarrow> nat \<Rightarrow> nat \<Rightarrow> packet_info \<times> world \<Rightarrow> (packet_info \<times> world) result"
  where
  "reflood_neighbour E excluded li i n = (\<lambda>(pi, w).
     bindr (interface_at w (Some i)) (\<lambda>intf.
     if i \<noteq> li then
       (case queue_getidandlock (neighbours intf) (int n) of
          (Some (entry, entry_size), nbs) \<Rightarrow>
            need (entry_size = sizeof_pwospf_list_entry) AssertFail
              (bindr (pwospf_reflood_to E pi i (neighbour_ip entry) (set_neighbours i nbs w))
                (\<lambda>(pi, w). bindr (interface_at w (Some i)) (\<lambda>intf.
                   Inr (pi, set_neighbours i (queue_unlockid (neighbours intf) (int n)) w))))
        | (None, nbs) \<Rightarrow> Inr (pi, set_neighbours i nbs w))
     else
       (case queue_getidunsafe (neighbours intf) (int n) of
          Some (entry, entry_size) \<Rightarrow>
            need (entry_size = sizeof_pwospf_list_entry) AssertFail
              (if neighbour_ip entry \<noteq> excluded
               then pwospf_reflood_to E pi i (neighbour_ip entry) w
               else Inr (pi, w))
        | None \<Rightarrow> Inr (pi, w))))"

definition reflood_interface ::
    "env \<Rightarrow> addr_ip \<Rightarrow> nat \<Rightarrow> nat \<Rightarrow> packet_info \<times> world \<Rightarrow> (packet_info \<times> world) result" where
  "reflood_interface E excluded li i = (\<lambda>(pi, w).
     bindr (interface_at w (Some i)) (\<lambda>intf.
       for_loop (nat (qsize (neighbours intf))) 0 (reflood_neighbour E excluded li i) (pi, w)))"

definition pwospf_reflood_packetpartiallyunsafe ::
    "env \<Rightarrow> packet_info \<Rightarrow> addr_ip \<Rightarrow> nat \<Rightarrow> world \<Rightarrow> (packet_info \<times> world) result" where
  "pwospf_reflood_packetpartiallyunsafe E pi excluded li w =
     for_loop (num_interfaces w) 0 (reflood_interface E excluded li) (pi, w)"

section \<open>Generating packets\<close>

definition pwospf_fields ::
    "byte \<Rightarrow> u16 \<Rightarrow> addr_ip \<Rightarrow> addr_ip \<Rightarrow> byte list \<Rightarrow> byte list" where
  "pwospf_fields type len rid aid p =
     put32 54 0 (put32 50 0 (put16 48 0 (put32 42 aid (put32 38 rid (put16 36 (htons len)
       (put8 35 type (put8 34 OSPF_VERSION p)))))))"

definition generate_pwospf_hello_header ::
    "addr_ip \<Rightarrow> addr_ip \<Rightarrow> u32 \<Rightarrow> byte list \<Rightarrow> byte list result" where
  "generate_pwospf_hello_header rid aid msk p =
     need (66 \<le> length p) OutOfBounds
      (checksum_fill 34 46 32
        (put16 64 0 (put16 62 (htons HELLOINT) (put32 58 msk
          (pwospf_fields OSPF_TYPE_HELLO 32 rid aid p)))))"

text \<open>\<open>hid\<close> is the sequence number of the link-state packets, an \<open>uint16_t\<close>.\<close>

definition generate_pwospf_link_header ::
    "addr_ip \<Rightarrow> addr_ip \<Rightarrow> nat \<Rightarrow> int \<Rightarrow> byte list \<Rightarrow> world \<Rightarrow> (byte list \<times> world) result" where
  "generate_pwospf_link_header rid aid advert len p w =
     need (66 \<le> length p) OutOfBounds
      (bindr (checksum_fill 34 46 (32 + int advert * 12)
               (put32 62 (htonl (of_nat advert)) (put16 60 (htons 64)
                 (put16 58 (htons (hid w))
                   (pwospf_fields OSPF_TYPE_LINK (word_of_int len) rid aid p)))))
        (\<lambda>p. Inr (p, w\<lparr>hid := hid w + 1\<rparr>)))"

text \<open>\<open>get_topology\<close>: the advertisements of this router, without duplicates.\<close>

type_synonym topo = "int \<times> pwospf_lsa dataqueue \<times> world"

definition topo_add :: "pwospf_lsa \<Rightarrow> int \<Rightarrow> pwospf_lsa dataqueue \<Rightarrow> (int \<times> pwospf_lsa dataqueue) result"
  where
  "topo_add l count t =
     (if queue_existsunsafe (=) t l = -1
      then bindr (queue_add t l sizeof_pwospf_lsa) (\<lambda>t. Inr (count + 1, t))
      else Inr (count, t))"

definition topo_neighbour :: "nat \<Rightarrow> nat \<Rightarrow> topo \<Rightarrow> topo result" where
  "topo_neighbour i n = (\<lambda>(count, t, w).
     bindr (interface_at w (Some i)) (\<lambda>intf.
     case queue_getidandlock (neighbours intf) (int n) of
       (Some (entry, entry_size), nbs) \<Rightarrow>
         need (entry_size = sizeof_pwospf_list_entry) AssertFail
           (bindr (if immediate_neighbour entry \<noteq> 0
                   then topo_add \<lparr>lsa_subnet = own_subnet intf, lsa_netmask = subnet_mask intf,
                                  lsa_router_id = neighbour_id entry\<rparr> count t
                   else Inr (count, t))
             (\<lambda>(count, t). Inr (count, t, set_neighbours i (queue_unlockid nbs (int n)) w)))
     | (None, nbs) \<Rightarrow> Inr (count, t, set_neighbours i nbs w)))"

definition topo_interface :: "nat \<Rightarrow> topo \<Rightarrow> topo result" where
  "topo_interface i = (\<lambda>(count, t, w).
     bindr (interface_at w (Some i)) (\<lambda>intf.
     bindr (topo_add \<lparr>lsa_subnet = own_subnet intf, lsa_netmask = subnet_mask intf,
                      lsa_router_id = 0\<rparr> count t) (\<lambda>(count, t).
       for_loop (nat (qsize (neighbours intf))) 0 (topo_neighbour i) (count, t, w))))"

definition get_topology :: "world \<Rightarrow> topo result" where
  "get_topology w = for_loop (num_interfaces w) 0 topo_interface (0, queue_init, w)"

text \<open>
  The frame of \<open>send_pwospf_lsa_packet\<close> is allocated with \<open>malloc (pi->len)\<close>, where
  \<open>len\<close> has 32 bits; every byte of it is written before it is sent, so its first
  contents are taken as 0.
\<close>

definition lsa_copy ::
    "pwospf_lsa dataqueue \<Rightarrow> nat \<Rightarrow> byte list \<Rightarrow> byte list result" where
  "lsa_copy t i p =
     (case queue_getidunsafe t (int i) of
        None \<Rightarrow> Inl AssertFail
      | Some (entry, entry_size) \<Rightarrow>
          need (entry_size = sizeof_pwospf_lsa) AssertFail
            (need (66 + 12 * i + 12 \<le> length p) OutOfBounds
              (Inr (put_lsa (66 + 12 * i) entry p))))"

definition lsa_send ::
    "env \<Rightarrow> nat \<Rightarrow> int \<Rightarrow> nat \<Rightarrow> nat \<Rightarrow> packet_info \<times> world \<Rightarrow> (packet_info \<times> world) result" where
  "lsa_send E topologysize lsa_packet_length i n = (\<lambda>(pi, w).
     bindr (interface_at w (Some i)) (\<lambda>intf.
     case queue_getidunsafe (neighbours intf) (int n) of
       None \<Rightarrow> Inr (pi, w)
     | Some (entry, entry_size) \<Rightarrow>
         need (entry_size = sizeof_pwospf_list_entry) AssertFail
           (if immediate_neighbour entry = 1 then
              bindr (generate_ipv4_header (if_ip intf) lsa_packet_length IP_TYPE_OSPF
                       (neighbour_ip entry) (pi_packet pi)) (\<lambda>p.
              bindr (generate_pwospf_link_header (router_id (pw_router w)) 0 topologysize
                       lsa_packet_length p w) (\<lambda>(p, w).
              bindr (ethernet_packet_send E (Some i) MAC_BROADCAST (if_mac intf)
                       (htons ETH_IP_TYPE) (pi\<lparr>pi_packet := p\<rparr>) w) (\<lambda>(_, pi, w).
                Inr (pi, w))))
            else Inr (pi, w))))"

definition lsa_send_interface ::
    "env \<Rightarrow> nat \<Rightarrow> int \<Rightarrow> nat \<Rightarrow> packet_info \<times> world \<Rightarrow> (packet_info \<times> world) result" where
  "lsa_send_interface E topologysize lsa_packet_length i = (\<lambda>(pi, w).
     bindr (interface_at w (Some i)) (\<lambda>intf.
       for_loop (nat (qsize (neighbours intf))) 0 (lsa_send E topologysize lsa_packet_length i)
         (pi\<lparr>pi_interface := Some i\<rparr>, w)))"

definition send_pwospf_lsa_packet :: "env \<Rightarrow> world \<Rightarrow> world result" where
  "send_pwospf_lsa_packet E w =
     bindr (get_topology w) (\<lambda>(topologysize, t, w).
     if topologysize = 0 then Inr w
     else
       let lsa_packet_length = 32 + topologysize * 12;
           len = nat (34 + lsa_packet_length)
       in bindr (for_loop (nat (queue_getcurrentsize t)) 0 (lsa_copy t)
                   (replicate (unat (of_nat len :: u32)) 0)) (\<lambda>p.
          bindr (for_loop (num_interfaces w) 0
                   (lsa_send_interface E (nat topologysize) lsa_packet_length)
                   (\<lparr>pi_packet = p, pi_len = of_nat len, pi_interface = None\<rparr>, w)) (\<lambda>(_, w).
            case gettimeofday E w of (now, w) \<Rightarrow> Inr (w\<lparr>last_lsu := now\<rparr>))))"

definition hello_send ::
    "env \<Rightarrow> nat \<Rightarrow> packet_info \<times> world \<Rightarrow> (packet_info \<times> world) result" where
  "hello_send E i = (\<lambda>(pi, w).
     bindr (interface_at w (Some i)) (\<lambda>intf.
     bindr (generate_ipv4_header (if_ip intf) 32 IP_TYPE_OSPF ALLSPFRouters (pi_packet pi)) (\<lambda>p.
     bindr (generate_pwospf_hello_header (router_id (pw_router w)) 0 (subnet_mask intf) p) (\<lambda>p.
     bindr (ethernet_packet_send E (Some i) MAC_BROADCAST (if_mac intf) (htons ETH_IP_TYPE)
              (pi\<lparr>pi_packet := p, pi_interface := Some i\<rparr>) w) (\<lambda>(_, pi, w). Inr (pi, w))))))"

definition send_pwospf_hello_packet :: "env \<Rightarrow> world \<Rightarrow> world result" where
  "send_pwospf_hello_packet E w =
     bindr (for_loop (num_interfaces w) 0 (hello_send E)
              (\<lparr>pi_packet = replicate 66 0, pi_len = 66, pi_interface = None\<rparr>, w))
       (\<lambda>(_, w). Inr w)"

text \<open>The two calls that follow every change of the link-state database.\<close>

definition recompute_and_send :: "env \<Rightarrow> world \<Rightarrow> world result" where
  "recompute_and_send E w =
     bindr (djikstra_recompute E w) (\<lambda>w. send_pwospf_lsa_packet E w)"

section \<open>Reception\<close>

text \<open>
  \<open>pwospf_onreceive_hello\<close>.  The loop ends at the first neighbour with the source
  address, whose entry is updated in place.
\<close>

definition pwospf_onreceive_hello ::
    "env \<Rightarrow> packet_info \<Rightarrow> world \<Rightarrow> world result" where
  "pwospf_onreceive_hello E pi w =
     bindr (interface_at w (pi_interface pi)) (\<lambda>intf.
     let p = pi_packet pi; ii = the (pi_interface pi)
     in bindr (generatechecksum (drop 34 p) 32) (\<lambda>c.
        if c \<noteq> 0 then Inr w
        else if u32_at p 58 \<noteq> subnet_mask intf then Inr w
        else if ntohs (u16_at p 62) \<noteq> helloint intf then Inr w
        else
          bindr (queue_find sizeof_pwospf_list_entry (\<lambda>e. neighbour_ip e = ip4_src_ip p)
                   (neighbours intf)) (\<lambda>(r, nbs).
          case r of
            Some (k, entry) \<Rightarrow>
              (case gettimeofday E w of (now, w) \<Rightarrow>
                 let entry' = entry\<lparr>neighbour_id := u32_at p 38,
                                    nb_helloint := ntohs (u16_at p 62),
                                    immediate_neighbour := 1, nb_timestamp := now\<rparr>;
                     w = set_neighbours ii
                           (nbs\<lparr>packet := (packet nbs)[nat k := entry']\<rparr>) w
                 in if immediate_neighbour entry = 0 then recompute_and_send E w else Inr w)
          | None \<Rightarrow>
              (case gettimeofday E w of (now, w) \<Rightarrow>
                 bindr (queue_add nbs
                          \<lparr>neighbour_id = u32_at p 38, neighbour_ip = ip4_src_ip p,
                           nb_helloint = ntohs (u16_at p 62), nb_timestamp = now,
                           immediate_neighbour = 1, lsu_lastseq = junk_u16 E,
                           lsu_lastcontents = LsuNull, lsu_lastcontents_count = 0,
                           lsu_timestamp = junk_tv E\<rparr> sizeof_pwospf_list_entry) (\<lambda>nbs.
                   recompute_and_send E (set_neighbours ii nbs w))))))"

text \<open>
  The new contents of \<open>lsu_lastcontents\<close> for a payload count and a payload: a
  negative count asks for a block that cannot be allocated, and \<open>memcpy\<close> then
  writes to a null pointer.
\<close>

definition lsu_alloc :: "int \<Rightarrow> pwospf_lsa list \<Rightarrow> lsu_block result" where
  "lsu_alloc payload_count ls =
     need (0 \<le> payload_count) NullDeref (Inr (LsuData ls))"

definition lsu_store ::
    "pwospf_list_entry \<Rightarrow> int \<Rightarrow> pwospf_lsa list \<Rightarrow> lsu_block result" where
  "lsu_store e payload_count ls =
     (case lsu_lastcontents e of
        LsuNull \<Rightarrow> lsu_alloc payload_count ls
      | LsuFreed \<Rightarrow> Inl UseAfterFree
      | LsuData _ \<Rightarrow>
          if lsu_lastcontents_count e \<noteq> payload_count \<and> payload_count = 0 then Inr LsuNull
          else lsu_alloc payload_count ls)"

definition lsu_unchanged ::
    "pwospf_list_entry \<Rightarrow> int \<Rightarrow> pwospf_lsa list \<Rightarrow> bool result" where
  "lsu_unchanged e payload_count ls =
     (if lsu_lastcontents e \<noteq> LsuNull \<and> lsu_lastcontents_count e = payload_count then
        (case lsu_lastcontents e of
           LsuData old \<Rightarrow>
             need (nat payload_count \<le> length old) OutOfBounds
               (Inr (compare_lsus old ls (nat payload_count)))
         | _ \<Rightarrow> need (payload_count \<le> 0) UseAfterFree (Inr True))
      else Inr False)"

definition modify_neighbour ::
    "nat \<Rightarrow> nat \<Rightarrow> (pwospf_list_entry \<Rightarrow> pwospf_list_entry) \<Rightarrow> world \<Rightarrow> world" where
  "modify_neighbour ii k f w =
     set_neighbours ii
       (neighbours (interface w ! ii)\<lparr>packet :=
          (packet (neighbours (interface w ! ii)))[k := f (packet (neighbours (interface w ! ii)) ! k)]\<rparr>) w"

definition unlock_neighbours :: "nat \<Rightarrow> world \<Rightarrow> world" where
  "unlock_neighbours ii w =
     set_neighbours ii (queue_unlockall (neighbours (interface w ! ii))) w"

text \<open>
  A link-state packet from a router that has an entry \<open>k\<close> in the (locked) table.
\<close>

definition link_known ::
    "env \<Rightarrow> packet_info \<Rightarrow> nat \<Rightarrow> nat \<Rightarrow> int \<Rightarrow> world \<Rightarrow> world result" where
  "link_known E pi ii k payload_count w =
     (let e = packet (neighbours (interface w ! ii)) ! k;
          rid = u32_at (pi_packet pi) 38; seq = u16_at (pi_packet pi) 58
      in if lsu_lastcontents e \<noteq> LsuNull \<and> lsu_lastseq e = seq
         then Inr (unlock_neighbours ii w)
         else
           bindr (pwospf_reflood_packetpartiallyunsafe E pi (neighbour_ip e) ii w) (\<lambda>(pi, w).
           let p = patch_ids (nat payload_count) 0 rid (pi_packet pi);
               ls = payload (nat payload_count) p
           in bindr (lsu_unchanged e payload_count ls) (\<lambda>same.
              if same then
                (case gettimeofday E w of (now, w) \<Rightarrow>
                   Inr (unlock_neighbours ii
                     (modify_neighbour ii k (\<lambda>e. e\<lparr>lsu_lastseq := seq, lsu_timestamp := now\<rparr>) w)))
              else
                bindr (lsu_store e payload_count ls) (\<lambda>blk.
                case gettimeofday E w of (now, w) \<Rightarrow>
                  recompute_and_send E (unlock_neighbours ii
                    (modify_neighbour ii k (\<lambda>e. e\<lparr>lsu_lastcontents := blk,
                         lsu_lastcontents_count := payload_count,
                         lsu_lastseq := seq, lsu_timestamp := now\<rparr>) w))))))"

text \<open>A link-state packet from a router that has no entry yet.\<close>

definition link_new ::
    "env \<Rightarrow> packet_info \<Rightarrow> nat \<Rightarrow> int \<Rightarrow> world \<Rightarrow> world result" where
  "link_new E pi ii payload_count w =
     (let rid = u32_at (pi_packet pi) 38; seq = u16_at (pi_packet pi) 58;
          p = patch_ids (nat payload_count) 0 rid (pi_packet pi);
          ls = payload (nat payload_count) p
      in bindr (lsu_alloc payload_count ls) (\<lambda>blk.
         case gettimeofday E w of (now, w) \<Rightarrow>
           bindr (queue_add (neighbours (interface w ! ii))
                    \<lparr>neighbour_id = rid, neighbour_ip = ip4_src_ip p, nb_helloint = junk_u16 E,
                     nb_timestamp = junk_tv E, immediate_neighbour = 0, lsu_lastseq = seq,
                     lsu_lastcontents = blk, lsu_lastcontents_count = payload_count,
                     lsu_timestamp = now\<rparr> sizeof_pwospf_list_entry) (\<lambda>nbs.
           bindr (queue_lockall nbs) (\<lambda>nbs.
           let w = set_neighbours ii nbs w
           in bindr (getneighbourfromidunsafe nbs rid) (\<lambda>r.
              bindr (case r of
                       None \<Rightarrow> Inr (pi, w)
                     | Some k \<Rightarrow>
                         pwospf_reflood_packetpartiallyunsafe E
                           (pi\<lparr>pi_packet := patch_ids (nat payload_count) rid 0 p\<rparr>)
                           (neighbour_ip (packet nbs ! k)) ii w)
                (\<lambda>(_, w). recompute_and_send E (unlock_neighbours ii w)))))))"

text \<open>
  \<open>pwospf_onreceive_link\<close>.  \<open>payload_count\<close> is a signed \<open>int\<close>; the length test is
  done in \<open>size_t\<close> arithmetic, and the length passed to \<open>generatechecksum\<close> is
  truncated to \<open>int\<close>.
\<close>

definition pwospf_onreceive_link :: "env \<Rightarrow> packet_info \<Rightarrow> world \<Rightarrow> world result" where
  "pwospf_onreceive_link E pi w =
     bindr (interface_at w (pi_interface pi)) (\<lambda>intf.
     let p = pi_packet pi; ii = the (pi_interface pi);
         advert = ntohl (u32_at p 62);
         payload_count = sint advert
     in if (ucast (pi_len pi) :: u64) < 66 + (scast advert :: u64) * 12 then Inr w
        else
          bindr (generatechecksum (drop 34 p) (sint (32 + advert * 12))) (\<lambda>c.
          if c \<noteq> 0 then Inr w
          else if u32_at p 38 = router_id (pw_router w) then Inr w
          else
            bindr (queue_lockall (neighbours intf)) (\<lambda>nbs.
            bindr (getneighbourfromidunsafe nbs (u32_at p 38)) (\<lambda>r.
            let w = set_neighbours ii nbs w
            in case r of
                 Some k \<Rightarrow> link_known E pi ii k payload_count w
               | None \<Rightarrow> link_new E pi ii payload_count (unlock_neighbours ii w)))))"

definition pwospf_onreceive :: "env \<Rightarrow> packet_info \<Rightarrow> world \<Rightarrow> world result" where
  "pwospf_onreceive E pi w =
     (let p = pi_packet pi
      in need (58 \<le> length p) OutOfBounds
          (if u8_at p 34 \<noteq> OSPF_VERSION then Inr w
           else if ntohl (u32_at p 42) \<noteq> area_id (pw_router w) then Inr w
           else if u32_at p 50 \<noteq> 0 then Inr w
           else if u8_at p 35 = OSPF_TYPE_HELLO then
             (if PACKET_CAN_MARSHALL sizeof_pwospf_packet_hello 34 (pi_len pi)
              then pwospf_onreceive_hello E pi w else Inr w)
           else if u8_at p 35 = OSPF_TYPE_LINK then
             (if PACKET_CAN_MARSHALL sizeof_pwospf_packet_link 34 (pi_len pi)
              then pwospf_onreceive_link E pi w else Inr w)
           else Inr w))"

section \<open>One pass of the protocol thread\<close>

definition removeallneighbourswithrouterid :: "u32 \<Rightarrow> world \<Rightarrow> world result" where
  "removeallneighbourswithrouterid rid w =
     for_loop (num_interfaces w) 0 (\<lambda>j w.
       bindr (interface_at w (Some j)) (\<lambda>intf.
       bindr (queue_sweep sizeof_pwospf_list_entry (\<lambda>e (u::unit). (neighbour_id e = rid, u))
                (neighbours intf) ()) (\<lambda>(nbs, _). Inr (set_neighbours j nbs w)))) w"

definition neighbour_dead :: "timeval \<Rightarrow> pwospf_list_entry \<Rightarrow> bool" where
  "neighbour_dead now e \<longleftrightarrow>
     (immediate_neighbour e \<noteq> 0
        \<and> tv_sec now - tv_sec (nb_timestamp e) > 3 * int (unat (nb_helloint e)))
     \<or> (lsu_lastcontents e \<noteq> LsuNull
        \<and> tv_sec now - tv_sec (lsu_timestamp e) > LSUINT_TIMEOUT)"

definition free_lsu :: "pwospf_list_entry \<Rightarrow> pwospf_list_entry result" where
  "free_lsu e =
     (case lsu_lastcontents e of
        LsuNull \<Rightarrow> Inr e
      | LsuData _ \<Rightarrow> Inr (e\<lparr>lsu_lastcontents := LsuFreed\<rparr>)
      | LsuFreed \<Rightarrow> Inl InvalidFree)"

text \<open>
  The inner loop \<open>for (i = 0; i < neighbours->size; i++)\<close>: the size shrinks when
  neighbours are removed, and never grows.
\<close>

definition reap_neighbour ::
    "timeval \<Rightarrow> nat \<Rightarrow> nat \<Rightarrow> bool \<times> world \<Rightarrow> (bool \<times> world) result" where
  "reap_neighbour now j i = (\<lambda>(changed, w).
     bindr (interface_at w (Some j)) (\<lambda>intf.
     if int i < qsize (neighbours intf) then
       (case queue_getidandlock (neighbours intf) (int i) of
          (Some (entry, entry_size), nbs) \<Rightarrow>
            need (entry_size = sizeof_pwospf_list_entry) AssertFail
              (if neighbour_dead now entry then
                 bindr (free_lsu entry) (\<lambda>entry.
                 bindr (removeallneighbourswithrouterid (neighbour_id entry)
                          (set_neighbours j
                            (queue_unlockid (nbs\<lparr>packet := (packet nbs)[i := entry]\<rparr>) (int i)) w))
                   (\<lambda>w. Inr (True, w)))
               else Inr (changed, set_neighbours j (queue_unlockid nbs (int i)) w))
        | (None, nbs) \<Rightarrow> Inr (changed, set_neighbours j nbs w))
     else Inr (changed, w)))"

definition reap_interface :: "timeval \<Rightarrow> nat \<Rightarrow> bool \<times> world \<Rightarrow> (bool \<times> world) result" where
  "reap_interface now j = (\<lambda>(changed, w).
     bindr (interface_at w (Some j)) (\<lambda>intf.
       for_loop (nat (qsize (neighbours intf))) 0 (reap_neighbour now j) (changed, w)))"

definition pwospf_thread_pass :: "env \<Rightarrow> world \<Rightarrow> world result" where
  "pwospf_thread_pass E w =
     bindr (send_pwospf_hello_packet E w) (\<lambda>w.
     case gettimeofday E w of (now, w) \<Rightarrow>
       bindr (for_loop (num_interfaces w) 0 (reap_interface now) (False, w)) (\<lambda>(changed, w).
       bindr (if changed then recompute_and_send E w else Inr w) (\<lambda>w.
         if tv_sec now - tv_sec (last_lsu w) > LSUINT then send_pwospf_lsa_packet E w
         else Inr w)))"

end
