(* ===== verification/Dns.thy ===== *)
theory Dns
  imports IpHeader
begin

text \<open>
  The DNS responder (\<open>dns.c\<close>): parsing of the question section, the lookup in the
  static database, construction of the answer and the reply frame.

  A C string is the list of its bytes without the terminating 0; a label copied out
  of a packet may contain a 0 byte, where \<open>strlen\<close> and \<open>strcmp\<close> stop (\<open>c_string\<close>).
  The parser reads the frame without length checks; every read is guarded by the
  size of the buffer, so that reading past its end is the fault \<open>OutOfBounds\<close>.

  Not modelled: the loading and saving of the database file and the parser for
  answer sections, which nothing calls.
\<close>

section \<open>Names\<close>

definition c_string :: "byte list \<Rightarrow> byte list" where
  "c_string s = takeWhile (\<lambda>c. c \<noteq> 0) s"

definition strlen :: "byte list \<Rightarrow> nat" where
  "strlen s = length (c_string s)"

text \<open>\<open>encode_dns_string\<close>: the length byte is the low byte of \<open>strlen\<close>.\<close>

definition encode_label :: "byte list \<Rightarrow> byte list" where
  "encode_label s = of_nat (strlen s) # c_string s"

definition encode_dns_string :: "byte list list \<Rightarrow> byte list" where
  "encode_dns_string names = concat (map encode_label names) @ [0]"

definition calctotalsizeofencoding :: "byte list list \<Rightarrow> nat" where
  "calctotalsizeofencoding names = sum_list (map (\<lambda>s. strlen s + 1) names) + 1"

section \<open>Parsing questions\<close>

record dns_query_ho =
  query_names :: "byte list list"
  q_count :: int
  qtype :: u16
  qclass :: u16

text \<open>
  The inner loop \<open>while ((char_size = *(address++)) != 0)\<close> at offset \<open>a\<close> of the
  buffer: the labels and the offset after the terminating 0.
\<close>

function parse_labels :: "byte list \<Rightarrow> nat \<Rightarrow> (byte list list \<times> nat) result" where
  "parse_labels p a =
     (if a < length p then
        let char_size = unat (p ! a)
        in if char_size = 0 then Inr ([], a + 1)
           else need (a + 1 + char_size \<le> length p) OutOfBounds
                  (bindr (parse_labels p (a + 1 + char_size))
                     (\<lambda>(names, b). Inr (slice (a + 1) char_size p # names, b)))
      else Inl OutOfBounds)"
  by pat_completeness auto
termination
  by (relation "measure (\<lambda>(p, a). length p - a)") auto

declare parse_labels.simps [simp del]

definition parse_query :: "byte list \<Rightarrow> nat \<Rightarrow> (dns_query_ho \<times> nat) result" where
  "parse_query p a =
     bindr (parse_labels p a) (\<lambda>(names, b).
       need (b + 4 \<le> length p) OutOfBounds
         (Inr (\<lparr>query_names = names, q_count = int (length names),
                qtype = ntohs (u16_at p b), qclass = ntohs (u16_at p (b + 2))\<rparr>, b + 4)))"

primrec dns_mallocandparse_query_array ::
    "nat \<Rightarrow> byte list \<Rightarrow> nat \<Rightarrow> dns_query_ho list result" where
  "dns_mallocandparse_query_array 0 p a = Inr []"
| "dns_mallocandparse_query_array (Suc n) p a =
     bindr (parse_query p a) (\<lambda>(q, b).
     bindr (dns_mallocandparse_query_array n p b) (\<lambda>qs. Inr (q # qs)))"

section \<open>The database\<close>

definition names_match :: "byte list list \<Rightarrow> int \<Rightarrow> dns_db_entry \<Rightarrow> bool" where
  "names_match dn dn_size entry \<longleftrightarrow>
     dn_size = int (unat (db_count entry))
     \<and> list_all (\<lambda>j. c_string (dn ! j) = c_string (db_names entry ! j)) [0..<nat dn_size]"

definition get_by_domainname_array_safe ::
    "byte list list \<Rightarrow> int \<Rightarrow> world \<Rightarrow> (dns_db_entry option \<times> world) result" where
  "get_by_domainname_array_safe dn dn_size w =
     bindr (queue_find sizeof_dns_db_entry (names_match dn dn_size) (dns_db w))
       (\<lambda>(r, db). Inr (map_option snd r, w\<lparr>dns_db := db\<rparr>))"

definition get_by_ip_safe :: "addr_ip \<Rightarrow> world \<Rightarrow> (dns_db_entry option \<times> world) result" where
  "get_by_ip_safe ip w =
     bindr (queue_find sizeof_dns_db_entry (\<lambda>entry. ip = db_rdata entry) (dns_db w))
       (\<lambda>(r, db). Inr (map_option snd r, w\<lparr>dns_db := db\<rparr>))"

section \<open>Building the answer\<close>

definition DNS_TYPE_A :: u16 where "DNS_TYPE_A = 1"
definition DNS_TYPE_PTR :: u16 where "DNS_TYPE_PTR = 12"
definition DNS_CLASS_IN :: u16 where "DNS_CLASS_IN = 1"
definition DNS_ERROR_NO_ERROR :: byte where "DNS_ERROR_NO_ERROR = 0"
definition DNS_ERROR_NAMEERROR :: byte where "DNS_ERROR_NAMEERROR = 3"
definition DNS_ERROR_NOTIMPLEMENTED :: byte where "DNS_ERROR_NOTIMPLEMENTED = 4"

text \<open>
  The answer is the byte buffer \<open>packet\<close>; \<open>totalsize\<close> is its length and \<open>adding\<close> is
  always 0.  The bits of the flag bytes are, from the lowest: RD, TC, AA, Opcode(4),
  QR, and Rcode(4), CD, AD, Z, RA.
\<close>

definition dns_malloc_answer :: "u16 \<Rightarrow> byte list" where
  "dns_malloc_answer transact_id = put8 2 0x80 (put16 0 transact_id (replicate 12 0))"

definition put_u16 :: "u16 \<Rightarrow> byte list" where
  "put_u16 v = [ucast v, ucast (drop_bit 8 v)]"

definition put_u32 :: "u32 \<Rightarrow> byte list" where
  "put_u32 v = put_u16 (ucast v) @ put_u16 (ucast (drop_bit 16 v))"

definition dns_answer_add_query_to_end :: "dns_query_ho \<Rightarrow> byte list \<Rightarrow> byte list" where
  "dns_answer_add_query_to_end question answer =
     put16 4 (htons (ntohs (u16_at answer 4) + 1)) answer
     @ encode_dns_string (query_names question)
     @ put_u16 (htons (qtype question)) @ put_u16 (htons (qclass question))"

text \<open>The resource record up to its data; the caller appends the data.\<close>

definition dns_answer_add_generic_answer_to_end ::
    "byte list list \<Rightarrow> u32 \<Rightarrow> u16 \<Rightarrow> u16 \<Rightarrow> u16 \<Rightarrow> byte list \<Rightarrow> byte list" where
  "dns_answer_add_generic_answer_to_end name ttlseconds type_rr class_rr additional_data_size answer =
     put16 6 (htons (ntohs (u16_at answer 6) + 1)) answer
     @ encode_dns_string name
     @ put_u16 (htons type_rr) @ put_u16 (htons class_rr) @ put_u32 (htonl ttlseconds)
     @ put_u16 (htons additional_data_size)"

definition dns_answer_add_PTR_answer_to_end ::
    "byte list list \<Rightarrow> byte list list \<Rightarrow> u32 \<Rightarrow> byte list \<Rightarrow> byte list" where
  "dns_answer_add_PTR_answer_to_end name answer_name ttlseconds answer =
     dns_answer_add_generic_answer_to_end name ttlseconds DNS_TYPE_PTR DNS_CLASS_IN
       (of_nat (calctotalsizeofencoding answer_name)) answer
     @ encode_dns_string answer_name"

definition dns_answer_add_A_answer_to_end ::
    "byte list list \<Rightarrow> addr_ip \<Rightarrow> u32 \<Rightarrow> byte list \<Rightarrow> byte list" where
  "dns_answer_add_A_answer_to_end name ip ttlseconds answer =
     dns_answer_add_generic_answer_to_end name ttlseconds DNS_TYPE_A DNS_CLASS_IN 4 answer
     @ put_u32 ip"

section \<open>The reply\<close>

text \<open>
  \<open>send_dns_proto_response\<close>: every byte of the fresh frame is written before it is
  sent.  The frame is allocated with the 32-bit \<open>len\<close>, so the copy of an answer for
  which that wraps around would leave it.  \<open>udp->checksum\<close> is 0 while the pseudo header is summed.
\<close>

definition udp_fields :: "u16 \<Rightarrow> u16 \<Rightarrow> nat \<Rightarrow> byte list \<Rightarrow> byte list" where
  "udp_fields source_port destination_port len p =
     put16 40 0 (put16 34 source_port (put16 36 destination_port
       (put16 38 (htons (of_nat len)) p)))"

definition send_dns_proto_response ::
    "env \<Rightarrow> packet_info \<Rightarrow> byte list \<Rightarrow> byte \<Rightarrow> world \<Rightarrow> world result" where
  "send_dns_proto_response E incoming answer dns_err_code w =
     (let totalsize = length answer;
          inp = pi_packet incoming;
          answer = put8 3 ((u8_at answer 3 AND 0xF0) OR (dns_err_code AND 0x0F)) answer;
          p = udp_fields (u16_at inp 36) (u16_at inp 34) (8 + totalsize)
                (blit 42 answer (replicate (42 + totalsize) 0))
      in need (42 \<le> length inp \<and> 42 + totalsize < 2 ^ 32) OutOfBounds
        (bindr (interface_at w (pi_interface incoming)) (\<lambda>intf.
         bindr (generate_ipv4_header (if_ip intf) (8 + int totalsize) IP_TYPE_UDP
                  (ip4_src_ip inp) p) (\<lambda>p.
         bindr (checksum_fill 14 24 20 p) (\<lambda>p.
         bindr (malloc_udp_pseudo_header p) (\<lambda>pseudo.
         bindr (generatechecksum pseudo (int (length pseudo))) (\<lambda>c.
         let p = put16 40 c p
         in if unat (ip4_ttl p) < 1 then Inr w
            else bindr (ethernet_packet_send E (pi_interface incoming) (eth_source_mac inp)
                          (if_mac intf) (htons ETH_IP_TYPE)
                          \<lparr>pi_packet = p, pi_len = of_nat (42 + totalsize),
                           pi_interface = pi_interface incoming\<rparr> w)
                   (\<lambda>(_, _, w). Inr w))))))))"

text \<open>\<open>atoi\<close>: leading white space, an optional sign, then digits.\<close>

definition is_digit :: "byte \<Rightarrow> bool" where
  "is_digit c \<longleftrightarrow> 48 \<le> c \<and> c \<le> 57"

definition atoi :: "byte list \<Rightarrow> int" where
  "atoi s =
     (let s = dropWhile (\<lambda>c. c = 32 \<or> 9 \<le> c \<and> c \<le> 13) (c_string s);
          (neg, s) = (case s of
                        c # cs \<Rightarrow> if c = 45 then (True, cs) else if c = 43 then (False, cs)
                                  else (False, s)
                      | [] \<Rightarrow> (False, []));
          v = foldl (\<lambda>acc c. acc * 10 + int (unat c - 48)) 0 (takeWhile is_digit s)
      in if neg then - v else v)"

definition IP_CONVERT :: "int \<Rightarrow> int \<Rightarrow> int \<Rightarrow> int \<Rightarrow> addr_ip" where
  "IP_CONVERT a b c d =
     word_of_int a OR push_bit 8 (word_of_int b) OR push_bit 16 (word_of_int c)
     OR push_bit 24 (word_of_int d)"

definition parse_ip :: "byte list list \<Rightarrow> addr_ip" where
  "parse_ip a = IP_CONVERT (atoi (a ! 3)) (atoi (a ! 2)) (atoi (a ! 1)) (atoi (a ! 0))"

definition DNS_TTL :: u32 where "DNS_TTL = 60 * 60 * 24"

definition handle_question ::
    "env \<Rightarrow> packet_info \<Rightarrow> dns_query_ho \<Rightarrow> world \<Rightarrow> world result" where
  "handle_question E pi question w =
     (let answer = dns_answer_add_query_to_end question
                     (dns_malloc_answer (u16_at (pi_packet pi) 42))
      in if qclass question \<noteq> DNS_CLASS_IN then
           send_dns_proto_response E pi answer DNS_ERROR_NOTIMPLEMENTED w
         else if qtype question = DNS_TYPE_PTR then
           (if q_count question < 4 then
              send_dns_proto_response E pi answer DNS_ERROR_NAMEERROR w
            else
              bindr (get_by_ip_safe (parse_ip (query_names question)) w) (\<lambda>(r, w).
              case r of
                Some entry \<Rightarrow>
                  send_dns_proto_response E pi
                    (dns_answer_add_PTR_answer_to_end (query_names question)
                       (take (unat (db_count entry)) (db_names entry)) DNS_TTL answer)
                    DNS_ERROR_NO_ERROR w
              | None \<Rightarrow> send_dns_proto_response E pi answer DNS_ERROR_NAMEERROR w))
         else if qtype question = DNS_TYPE_A then
           bindr (get_by_domainname_array_safe (query_names question) (q_count question) w)
             (\<lambda>(r, w).
              case r of
                Some entry \<Rightarrow>
                  send_dns_proto_response E pi
                    (dns_answer_add_A_answer_to_end (query_names question) (db_rdata entry)
                       DNS_TTL answer) DNS_ERROR_NO_ERROR w
              | None \<Rightarrow> send_dns_proto_response E pi answer DNS_ERROR_NAMEERROR w)
         else send_dns_proto_response E pi answer DNS_ERROR_NOTIMPLEMENTED w)"

text \<open>
  \<open>dns_onreceive\<close>: a query with no question makes the code read \<open>questions[0]\<close> of an
  empty allocation.
\<close>

definition dns_onreceive :: "env \<Rightarrow> packet_info \<Rightarrow> world \<Rightarrow> world result" where
  "dns_onreceive E pi w =
     (let p = pi_packet pi; totalquestions = unat (ntohs (u16_at p 46))
      in need (54 \<le> length p) OutOfBounds
          (if u8_at p 44 AND 0x80 = 0 then
             bindr (dns_mallocandparse_query_array totalquestions p 54) (\<lambda>questions.
               case questions of
                 [] \<Rightarrow> Inl OutOfBounds
               | q # _ \<Rightarrow> handle_question E pi q w)
           else Inr w))"

section \<open>Encoding and parsing are inverse\<close>

text \<open>The labels the wire format can carry.\<close>

definition dns_label :: "byte list \<Rightarrow> bool" where
  "dns_label s \<longleftrightarrow> s \<noteq> [] \<and> length s < 256 \<and> 0 \<notin> set s"

lemma c_string_id: "0 \<notin> set s \<Longrightarrow> c_string s = s"
  unfolding c_string_def by (rule takeWhile_eq_all_conv [THEN iffD2]) auto

lemma c_string_no_0: "0 \<notin> set (c_string s)"
  unfolding c_string_def using set_takeWhileD by fastforce

lemma length_encode_dns_string: "length (encode_dns_string names) = calctotalsizeofencoding names"
  by (induction names)
     (simp_all add: encode_dns_string_def calctotalsizeofencoding_def encode_label_def strlen_def)

lemma parse_encode:
  assumes "\<forall>s\<in>set names. dns_label s"
  shows "parse_labels (pre @ encode_dns_string names @ post) (length pre) =
           Inr (names, length pre + calctotalsizeofencoding names)"
  using assms
proof (induction names arbitrary: pre)
  case Nil
  then show ?case
    by (subst parse_labels.simps)
       (simp add: encode_dns_string_def calctotalsizeofencoding_def nth_append)
next
  case (Cons s names)
  then have s: "dns_label s" by simp
  then have cs: "c_string s = s" "strlen s = length s"
    by (simp_all add: dns_label_def c_string_id strlen_def)
  have size: "unat (of_nat (length s) :: byte) = length s" "length s \<noteq> 0"
    using s by (simp_all add: dns_label_def unat_of_nat)
  let ?buf = "pre @ encode_dns_string (s # names) @ post"
  have buf: "?buf = (pre @ encode_label s) @ encode_dns_string names @ post"
    by (simp add: encode_dns_string_def)
  have IH: "parse_labels ?buf (length pre + 1 + length s) =
      Inr (names, length pre + 1 + length s + calctotalsizeofencoding names)"
    using Cons.IH [of "pre @ encode_label s"] Cons.prems unfolding buf
    by (simp add: encode_label_def cs)
  have "?buf ! length pre = of_nat (length s)"
    by (simp add: encode_dns_string_def encode_label_def cs nth_append)
  moreover have "slice (length pre + 1) (length s) ?buf = s"
    by (simp add: slice_def encode_dns_string_def encode_label_def cs)
  moreover have "length pre < length ?buf" "length pre + 1 + length s \<le> length ?buf"
    by (simp_all add: encode_dns_string_def encode_label_def cs)
  ultimately show ?case
    using IH size
    by (subst parse_labels.simps) (simp add: Let_def calctotalsizeofencoding_def cs)
qed

text \<open>The question an answer repeats is parsed back.\<close>

lemma u16_at_put_u16: "length pre = b \<Longrightarrow> u16_at (pre @ put_u16 v @ post) b = v"
  by (simp add: u16_at_def u8_at_def nth_append put_u16_def bytes_of_u16)

lemma length_put_u16 [simp]: "length (put_u16 v) = 2"
  by (simp add: put_u16_def)

lemma parse_query_answer:
  assumes "\<forall>s\<in>set (query_names q). dns_label s" and "q_count q = int (length (query_names q))"
  shows "parse_query (dns_answer_add_query_to_end q answer @ post) (length answer) =
    Inr (q, length answer + calctotalsizeofencoding (query_names q) + 4)"
proof -
  let ?pre = "put16 4 (htons (ntohs (u16_at answer 4) + 1)) answer"
  let ?enc = "encode_dns_string (query_names q)"
  let ?ty = "put_u16 (htons (qtype q))" and ?cl = "put_u16 (htons (qclass q))"
  let ?b = "length answer + calctotalsizeofencoding (query_names q)"
  let ?buf = "dns_answer_add_query_to_end q answer @ post"
  have buf: "?buf = ?pre @ ?enc @ (?ty @ ?cl @ post)" by (simp add: dns_answer_add_query_to_end_def)
  have "parse_labels ?buf (length ?pre) = Inr (query_names q, length ?pre + calctotalsizeofencoding (query_names q))"
    unfolding buf by (rule parse_encode [OF assms(1)])
  then have names: "parse_labels ?buf (length answer) = Inr (query_names q, ?b)" by simp
  have "u16_at ?buf ?b = htons (qtype q)"
    using u16_at_put_u16 [of "?pre @ ?enc" ?b "htons (qtype q)" "?cl @ post"]
    by (simp add: buf length_encode_dns_string)
  moreover have "u16_at ?buf (?b + 2) = htons (qclass q)"
    using u16_at_put_u16 [of "?pre @ ?enc @ ?ty" "?b + 2" "htons (qclass q)" post]
    by (simp add: buf length_encode_dns_string)
  moreover have "?b + 4 \<le> length ?buf" by (simp add: buf length_encode_dns_string)
  ultimately show ?thesis using assms(2) by (simp add: parse_query_def names)
qed

end
