(* ===== verification/Ip.thy ===== *)
theory Ip
  imports Pwospf Dns
begin

text \<open>
  The IP layer and ICMP: \<open>ip_onreceive\<close> (\<open>ip.c\<close>), the ICMP generators
  (\<open>icmp_type.c\<close>) and the matching of echo replies with outstanding pings
  (\<open>cli_ping.c\<close>).

  \<open>ip_onreceive\<close> generates ICMP messages, and a generated message goes through
  \<open>ip_onreceive\<close> again.  The functions below it therefore take the receive function
  \<open>recv\<close> as an argument, \<open>ip_receive\<close> is the body, and \<open>ip_onreceive\<close> is its
  iteration with an explicit bound on the depth; the theory of packet reception
  shows that depth 2 is always enough.  Nothing uses the frame after
  \<open>ip_onreceive\<close>, so only the world is returned.
\<close>

section \<open>Constants\<close>

definition ICMP_TYPE_REPLAY :: byte where "ICMP_TYPE_REPLAY = 0"
definition ICMP_TYPE_DST_UNREACH :: byte where "ICMP_TYPE_DST_UNREACH = 3"
definition ICMP_TYPE_REQUEST :: byte where "ICMP_TYPE_REQUEST = 8"
definition ICMP_TYPE_TIME_EXCEEDED :: byte where "ICMP_TYPE_TIME_EXCEEDED = 11"
definition ICMP_CODE_HOST_UNREACH :: byte where "ICMP_CODE_HOST_UNREACH = 1"
definition ICMP_CODE_PROT_UNREACH :: byte where "ICMP_CODE_PROT_UNREACH = 2"
definition ICMP_CODE_PORT_UNREACH :: byte where "ICMP_CODE_PORT_UNREACH = 3"
definition PORT_DNS :: u16 where "PORT_DNS = 53"

type_synonym receiver = "packet_info \<Rightarrow> world \<Rightarrow> world result"

section \<open>ICMP\<close>

definition icmp_type_echo_replay :: "env \<Rightarrow> packet_info \<Rightarrow> world \<Rightarrow> world result" where
  "icmp_type_echo_replay E pi w =
     (let p = put8 34 ICMP_TYPE_REPLAY (pi_packet pi)
      in bindr (checksum_fill 34 36 64 p) (\<lambda>p.
         bindr (update_ip_packet_response E (pi\<lparr>pi_packet := p\<rparr>) (ip4_src_ip p) (ip4_dst_ip p) 64 w)
           (\<lambda>(_, w). Inr w)))"

definition icmp_fields ::
    "byte \<Rightarrow> byte \<Rightarrow> u16 \<Rightarrow> u16 \<Rightarrow> byte list \<Rightarrow> byte list \<Rightarrow> byte list" where
  "icmp_fields code type idn count data p =
     blit 42 data (put16 40 (htons count) (put8 34 type (put16 38 (htons idn) (put8 35 code p))))"

text \<open>
  \<open>icmp_allocate_and_send\<close>: \<open>data\<close> are the \<open>data_size\<close> bytes the code copies; the
  frame has room for 56.  The result is the return value.
\<close>

definition icmp_allocate_and_send ::
    "receiver \<Rightarrow> addr_ip \<Rightarrow> byte \<Rightarrow> byte \<Rightarrow> u16 \<Rightarrow> u16 \<Rightarrow> byte list \<Rightarrow> addr_ip \<Rightarrow> world
      \<Rightarrow> (int \<times> world) result" where
  "icmp_allocate_and_send recv ip code type idn count data src w =
     bindr (packetinfo_ip_allocate 98 ip src IP_TYPE_ICMP (20 + 8 + int (length data)) w)
       (\<lambda>(r, w).
        case r of
          None \<Rightarrow> Inr (0, w)
        | Some pi \<Rightarrow>
            need (length data \<le> 56) OutOfBounds
             (bindr (checksum_fill 34 36 (8 + int (length data))
                       (icmp_fields code type idn count data (pi_packet pi))) (\<lambda>p.
              bindr (recv (pi\<lparr>pi_packet := p, pi_len := of_nat (42 + length data)\<rparr>) w)
                (\<lambda>w. Inr (1, w)))))"

text \<open>
  The 56 bytes an error message carries: 28 bytes of the offending packet and, since
  the copy reads past the array \<open>byte data[28]\<close>, 28 bytes of the stack.
\<close>

definition icmp_error_data :: "env \<Rightarrow> byte list \<Rightarrow> byte list" where
  "icmp_error_data E p = slice 14 20 p @ slice 34 8 p @ map (stack_bytes E) [0..<28]"

definition icmp_send ::
    "receiver \<Rightarrow> env \<Rightarrow> packet_info \<Rightarrow> addr_ip \<Rightarrow> byte \<Rightarrow> byte \<Rightarrow> world \<Rightarrow> world result" where
  "icmp_send recv E pi src type code w =
     need (42 \<le> length (pi_packet pi)) OutOfBounds
      (bindr (icmp_allocate_and_send recv (ip4_src_ip (pi_packet pi)) code type 0 0
                (icmp_error_data E (pi_packet pi)) src w)
        (\<lambda>(_, w). Inr w))"

definition icmp_type_time_exceeded ::
    "receiver \<Rightarrow> env \<Rightarrow> packet_info \<Rightarrow> addr_ip \<Rightarrow> world \<Rightarrow> world result" where
  "icmp_type_time_exceeded recv E pi src w =
     need (42 \<le> length (pi_packet pi)) OutOfBounds
      (bindr (icmp_allocate_and_send recv (ip4_src_ip (pi_packet pi)) 0 ICMP_TYPE_TIME_EXCEEDED
                0 0 (icmp_error_data E (pi_packet pi)) src w)
        (\<lambda>(_, w). Inr w))"

text \<open>
  \<open>cli_ping_handle_reply\<close>: the first ping with this address and sequence number is
  removed.  The return value is 0 when no ping matched and also when the list is
  empty afterwards.
\<close>

definition ping_matches :: "addr_ip \<Rightarrow> u16 \<Rightarrow> ping \<Rightarrow> bool" where
  "ping_matches ip seq p \<longleftrightarrow> ping_dst_ip p = ip \<and> ping_seq p = seq"

definition cli_ping_handle_reply :: "addr_ip \<Rightarrow> u16 \<Rightarrow> world \<Rightarrow> bool \<times> world" where
  "cli_ping_handle_reply ip seq w =
     (if router_shutdown w then (False, w)
      else
        case first_match (ping_matches ip seq) (ping_list w) of
          None \<Rightarrow> (False, w)
        | Some (i, _) \<Rightarrow>
            (let rest = remove_nth i (ping_list w) in (rest \<noteq> [], w\<lparr>ping_list := rest\<rparr>)))"

section \<open>Local delivery\<close>

definition sr_transport_input :: "byte list \<Rightarrow> world \<Rightarrow> world" where
  "sr_transport_input p w = w\<lparr>transport_in := transport_in w @ [drop 14 p]\<rparr>"

definition ip_deliver_icmp ::
    "receiver \<Rightarrow> env \<Rightarrow> packet_info \<Rightarrow> addr_ip \<Rightarrow> world \<Rightarrow> world result" where
  "ip_deliver_icmp recv E pi own w =
     (let p = pi_packet pi
      in need (34 < length p) OutOfBounds
          (if u8_at p 34 = ICMP_TYPE_REQUEST then icmp_type_echo_replay E pi w
           else if u8_at p 34 = ICMP_TYPE_REPLAY then
             need (42 \<le> length p) OutOfBounds
              (case cli_ping_handle_reply (ip4_src_ip p) (u16_at p 40) w of
                 (worked, w) \<Rightarrow>
                   if \<not> worked
                   then icmp_send recv E pi own ICMP_TYPE_DST_UNREACH ICMP_CODE_PORT_UNREACH w
                   else Inr w)
           else Inr w))"

definition ip_deliver_udp ::
    "receiver \<Rightarrow> env \<Rightarrow> packet_info \<Rightarrow> addr_ip \<Rightarrow> world \<Rightarrow> world result" where
  "ip_deliver_udp recv E pi own w =
     (let p = pi_packet pi;
          unreach = icmp_send recv E pi own ICMP_TYPE_DST_UNREACH ICMP_CODE_PORT_UNREACH w
      in if PACKET_CAN_MARSHALL sizeof_packet_udp 34 (pi_len pi) then
           bindr (malloc_udp_pseudo_header p) (\<lambda>pseudo.
           bindr (if u16_at p 40 \<noteq> 0 then
                    bindr (generatechecksum pseudo (int (length pseudo))) (\<lambda>c. Inr (c \<noteq> 0))
                  else Inr False) (\<lambda>bad.
           if bad then unreach
           else if ntohs (u16_at p 36) = PORT_DNS then
             (if PACKET_CAN_MARSHALL sizeof_packet_dns 42 (pi_len pi)
              then dns_onreceive E pi w else Inr w)
           else unreach))
         else unreach)"

definition ip_local_deliver ::
    "receiver \<Rightarrow> env \<Rightarrow> packet_info \<Rightarrow> addr_ip \<Rightarrow> world \<Rightarrow> world result" where
  "ip_local_deliver recv E pi own w =
     (let p = pi_packet pi
      in if ip4_ttl p \<le> 0 then icmp_type_time_exceeded recv E pi own w
         else if ip4_protocol p = IP_TYPE_ICMP then ip_deliver_icmp recv E pi own w
         else if ip4_protocol p = IP_TYPE_TCP then Inr (sr_transport_input p w)
         else if ip4_protocol p = IP_TYPE_OSPF then
           (if PACKET_CAN_MARSHALL sizeof_pwospf_packet 34 (pi_len pi)
            then pwospf_onreceive E pi w else Inr w)
         else if ip4_protocol p = IP_TYPE_UDP then ip_deliver_udp recv E pi own w
         else icmp_send recv E pi own ICMP_TYPE_DST_UNREACH ICMP_CODE_PROT_UNREACH w)"

section \<open>Forwarding\<close>

definition ip_send_next_hop ::
    "env \<Rightarrow> packet_info \<Rightarrow> nat option \<Rightarrow> addr_mac \<Rightarrow> world \<Rightarrow> world result" where
  "ip_send_next_hop E pi intf dest_mac w =
     (let p = pi_packet pi
      in bindr (checksum_fill 14 24 20 (put8 22 (ip4_ttl p - 1) p)) (\<lambda>p.
         bindr (interface_at w intf) (\<lambda>iface.
         bindr (ethernet_packet_send E intf dest_mac (if_mac iface) (htons ETH_IP_TYPE)
                  (pi\<lparr>pi_packet := p\<rparr>) w)
           (\<lambda>(_, _, w). Inr w))))"

text \<open>
  When no route matches, the source address of the error is taken from
  \<open>interface[i]\<close> with the value \<open>i = num_interfaces\<close> the loop ended with.
\<close>

definition ip_forward :: "receiver \<Rightarrow> env \<Rightarrow> packet_info \<Rightarrow> world \<Rightarrow> world result" where
  "ip_forward recv E pi w =
     (let p = pi_packet pi
      in if ip4_ttl p \<le> 1 then icmp_type_time_exceeded recv E pi (-1) w
         else
           bindr (ip_longestprefixmatch (ip_table w) (ip4_dst_ip p)) (\<lambda>(r, tbl).
           let w = w\<lparr>ip_table := tbl\<rparr>
           in case r of
                Some (_, entry) \<Rightarrow>
                  let hop = (if router_ip entry = 0 then ip4_dst_ip p else router_ip entry)
                  in bindr (arp_getcachebyip (arp_cache w) hop) (\<lambda>(ra, cache).
                     let w = w\<lparr>arp_cache := cache\<rparr>
                     in case ra of
                          Some (_, arp_dest) \<Rightarrow>
                            ip_send_next_hop E pi (rt_interface entry) (arp_mac arp_dest) w
                        | None \<Rightarrow>
                            arp_queue_ippacket_for_send_on_arp_request_response E pi
                              (rt_interface entry) hop w)
              | None \<Rightarrow>
                  bindr (interface_at w (Some (num_interfaces w))) (\<lambda>iface.
                    icmp_send recv E pi (if_ip iface) ICMP_TYPE_DST_UNREACH
                      ICMP_CODE_HOST_UNREACH w)))"

section \<open>Reception\<close>

text \<open>The loop that compares the destination with the addresses of the interfaces.\<close>

fun own_interface_from :: "world \<Rightarrow> addr_ip \<Rightarrow> nat \<Rightarrow> nat \<Rightarrow> nat option result" where
  "own_interface_from w ip 0 i = Inr None"
| "own_interface_from w ip (Suc n) i =
     bindr (interface_at w (Some i)) (\<lambda>intf.
       if ip = if_ip intf then Inr (Some i) else own_interface_from w ip n (Suc i))"

definition own_interface :: "world \<Rightarrow> addr_ip \<Rightarrow> nat option result" where
  "own_interface w ip = own_interface_from w ip (num_interfaces w) 0"

definition ip_receive :: "receiver \<Rightarrow> env \<Rightarrow> packet_info \<Rightarrow> world \<Rightarrow> world result" where
  "ip_receive recv E pi w =
     (let p = pi_packet pi
      in bindr (ip_header_check p) (\<lambda>ok.
         if \<not> ok then bindr (ip_print p) (\<lambda>_. Inr w)
         else if ip4_dst_ip p = ALLSPFRouters \<and> ip4_protocol p = IP_TYPE_OSPF then
           (if PACKET_CAN_MARSHALL sizeof_pwospf_packet 34 (pi_len pi)
            then pwospf_onreceive E pi w else Inr w)
         else
           bindr (own_interface w (ip4_dst_ip p)) (\<lambda>r.
           case r of
             Some i \<Rightarrow>
               bindr (interface_at w (Some i)) (\<lambda>iface.
                 ip_local_deliver recv E pi (if_ip iface) w)
           | None \<Rightarrow> ip_forward recv E pi w)))"

primrec ip_onreceive :: "nat \<Rightarrow> env \<Rightarrow> packet_info \<Rightarrow> world \<Rightarrow> world result" where
  "ip_onreceive 0 E pi w = Inl OutOfFuel"
| "ip_onreceive (Suc n) E pi w = ip_receive (ip_onreceive n E) E pi w"

text \<open>
  \<open>sr_integ_ip_output\<close>: a datagram of the TCP stack.  The identification field and
  the Ethernet header are left uninitialised; the first does not matter to the
  router (\<open>junk_u16\<close>), the second is written when the frame is sent, and is taken
  as 0.  The function always returns 1.
\<close>

definition sr_integ_ip_output ::
    "nat \<Rightarrow> env \<Rightarrow> byte list \<Rightarrow> byte \<Rightarrow> addr_ip \<Rightarrow> addr_ip \<Rightarrow> world \<Rightarrow> (int \<times> world) result"
  where
  "sr_integ_ip_output fuel E data proto src dest w =
     (let totallen = 20 + length data;
          p = put32 30 dest (put32 26 src (put8 23 proto (put8 22 64 (put16 20 (htons 0x4000)
                (put16 18 (junk_u16 E) (put16 16 (htons (of_nat totallen)) (put8 15 0x10
                  (put8 14 0x45 (replicate 34 0 @ data)))))))))
      in bindr (checksum_fill 14 24 20 p) (\<lambda>p.
         bindr (ip_onreceive fuel E
                  \<lparr>pi_packet = p, pi_len = of_nat (14 + totallen), pi_interface = None\<rparr> w)
           (\<lambda>w. Inr (1, w))))"

end
