(* ===== verification/Router.thy ===== *)
theory Router
  imports Ip
begin

text \<open>
  Packet reception and the life cycle of the router: \<open>router_handle_packet\<close>,
  \<open>router_init\<close>, \<open>router_add_interface\<close> and \<open>router_destroy\<close> (\<open>sr_router.c\<close>), the
  reception of ARP packets and the buffer of packets that wait for a reply
  (\<open>arp.c\<close>).

  The two loops over the buffer call \<open>ip_onreceive\<close>, which can append to the buffer;
  they carry a bound on the number of iterations (\<open>steps\<close>), and ending in
  \<open>OutOfFuel\<close> means that the bound was too small.
\<close>

section \<open>Packets waiting for an ARP reply\<close>

text \<open>
  \<open>process_arpipqueue\<close>: the entry is removed before the packet is handed to the IP
  layer, and the loop goes on with \<open>i + 1\<close>.
\<close>

fun process_from :: "nat \<Rightarrow> receiver \<Rightarrow> addr_ip \<Rightarrow> int \<Rightarrow> world \<Rightarrow> world result" where
  "process_from 0 recv ip i w = Inl OutOfFuel"
| "process_from (Suc n) recv ip i w =
     (if i < qsize (iparp_buffer w) then
        (case queue_getidandlock (iparp_buffer w) i of
           (Some (entry, entry_size), buf) \<Rightarrow>
             need (entry_size = sizeof_iparp_buffer_entry) AssertFail
              (let pi = ib_packet_info entry; p = pi_packet pi;
                   skip = process_from n recv ip (i + 1)
               in need (ib_len entry = int (unat (pi_len pi)) + sizeof_packet_info) AssertFail
                 (if PACKET_CAN_MARSHALL sizeof_packet_ip4 14 (pi_len pi) then
                    need (34 \<le> length p) OutOfBounds
                     (bindr (ip_longestprefixmatch (ip_table w) (ip4_dst_ip p)) (\<lambda>(r, tbl).
                      let w = w\<lparr>ip_table := tbl\<rparr>
                      in case r of
                           Some (_, dest) \<Rightarrow>
                             (if ip = (if router_ip dest = 0 then ip4_dst_ip p else router_ip dest)
                              then bindr (checksum_fill 14 24 20 p) (\<lambda>p.
                                   bindr (recv (pi\<lparr>pi_packet := p\<rparr>)
                                            (w\<lparr>iparp_buffer := queue_unlockidandremove buf i\<rparr>)) skip)
                              else skip (w\<lparr>iparp_buffer := queue_unlockid buf i\<rparr>))
                         | None \<Rightarrow> skip (w\<lparr>iparp_buffer := queue_unlockid buf i\<rparr>)))
                  else skip (w\<lparr>iparp_buffer := queue_unlockid buf i\<rparr>)))
         | (None, buf) \<Rightarrow> process_from n recv ip (i + 1) (w\<lparr>iparp_buffer := buf\<rparr>))
      else Inr w)"

definition process_arpipqueue ::
    "nat \<Rightarrow> nat \<Rightarrow> env \<Rightarrow> addr_ip \<Rightarrow> world \<Rightarrow> world result" where
  "process_arpipqueue steps fuel E ip w = process_from steps (ip_onreceive fuel E) ip 0 w"

text \<open>
  One pass of \<open>thread_arpipqueue_maintain\<close>.  \<open>now\<close> is read once, when the thread
  starts.  The test \<open>difftime(now.tv_sec, entry->reception_time.tv_sec > TIMEOUT)\<close>
  compares the reception time with the timeout first, and subtracts the truth value.
\<close>

definition arpip_timed_out :: "timeval \<Rightarrow> iparp_buffer_entry \<Rightarrow> bool" where
  "arpip_timed_out now entry \<longleftrightarrow>
     tv_sec now - (if tv_sec (reception_time entry) > ARPIP_QUEUE_TIMEOUT then 1 else 0) \<noteq> 0"

fun maintain_from ::
    "nat \<Rightarrow> receiver \<Rightarrow> env \<Rightarrow> timeval \<Rightarrow> int \<Rightarrow> world \<Rightarrow> world result" where
  "maintain_from 0 recv E now i w = Inl OutOfFuel"
| "maintain_from (Suc n) recv E now i w =
     (if i < qsize (iparp_buffer w) then
        (case queue_getidandlock (iparp_buffer w) i of
           (Some (entry, entry_size), buf) \<Rightarrow>
             need (entry_size = sizeof_iparp_buffer_entry) AssertFail
              (let pi = ib_packet_info entry; skip = maintain_from n recv E now (i + 1)
               in need (ib_len entry = int (unat (pi_len pi)) + sizeof_packet_info) AssertFail
                 (if PACKET_CAN_MARSHALL sizeof_packet_ip4 14 (pi_len pi)
                     \<and> arpip_timed_out now entry then
                    (if sent_arps_count entry < ARPIP_QUEUE_MAXARPREQUESTS then
                       (case gettimeofday E w of (t, w) \<Rightarrow>
                          let entry' = entry\<lparr>sent_arps_count := sent_arps_count entry + 1,
                                             reception_time := t\<rparr>
                          in bindr (arp_send_request E (ib_intf entry) (ib_dest entry)
                                      (w\<lparr>iparp_buffer := queue_unlockid
                                           (buf\<lparr>packet := (packet buf)[nat i := entry']\<rparr>) i\<rparr>)) skip)
                     else
                       bindr (interface_at w (Some (nat i))) (\<lambda>iface.
                       bindr (icmp_send recv E pi (if_ip iface) ICMP_TYPE_DST_UNREACH
                                ICMP_CODE_HOST_UNREACH
                                (w\<lparr>iparp_buffer := queue_unlockidandremove buf i\<rparr>)) skip))
                  else skip (w\<lparr>iparp_buffer := queue_unlockid buf i\<rparr>)))
         | (None, buf) \<Rightarrow> maintain_from n recv E now (i + 1) (w\<lparr>iparp_buffer := buf\<rparr>))
      else Inr w)"

definition thread_arpipqueue_maintain_pass ::
    "nat \<Rightarrow> nat \<Rightarrow> env \<Rightarrow> timeval \<Rightarrow> world \<Rightarrow> world result" where
  "thread_arpipqueue_maintain_pass steps fuel E now w =
     maintain_from steps (ip_onreceive fuel E) E now 0 w"

section \<open>ARP reception\<close>

definition arp_handle ::
    "env \<Rightarrow> packet_info \<Rightarrow> interface \<Rightarrow> world \<Rightarrow> (packet_info \<times> world) result" where
  "arp_handle E pi intf w =
     (let p = pi_packet pi; opcode = ntohs (arp_opcode p)
      in if opcode = ucast ARP_OPCODE_REQUEST then
           (if arp_target_ip p = if_ip intf then
              bindr (arp_putincache E (arp_sender_ip p) (arp_sender_mac p)
                       ARP_CACHE_TIMEOUT_REQUEST w) (\<lambda>w.
                arp_send E (pi_interface pi) pi ARP_OP_REPLY (arp_sender_ip p)
                  (arp_sender_mac p) (if_ip intf) (if_mac intf) w)
            else
              bindr (arp_putincache E (arp_sender_ip p) (arp_sender_mac p)
                       ARP_CACHE_TIMEOUT_BROADCAST w) (\<lambda>w. Inr (pi, w)))
         else if opcode = ucast ARP_OP_REPLY then
           (if arp_target_ip p = if_ip intf \<and> match_mac (arp_target_mac p) (if_mac intf) then
              bindr (arp_putincache E (arp_sender_ip p) (arp_sender_mac p)
                       ARP_CACHE_TIMEOUT_REQUEST w) (\<lambda>w. Inr (pi, w))
            else Inr (pi, w))
         else Inr (pi, w))"

text \<open>
  \<open>arp_onreceive\<close>: afterwards the pending packets for the sender address are
  processed.  That address is read from the frame after the handling; a reply sent
  in place has put this router's own address there.
\<close>

definition arp_onreceive ::
    "nat \<Rightarrow> nat \<Rightarrow> env \<Rightarrow> packet_info \<Rightarrow> world \<Rightarrow> world result" where
  "arp_onreceive steps fuel E pi w =
     (let p = pi_packet pi
      in need (42 \<le> length p) OutOfBounds
          (if ntohs (arp_hardwaretype p) = ARP_HTYPE_ETH
              \<and> ntohs (arp_protocoltype p) = ARP_PTYPE_IP
              \<and> arp_hardwareaddresslength p = 6 \<and> arp_protocoladdresslength p = 4
           then bindr (interface_at w (pi_interface pi)) (\<lambda>intf.
                bindr (arp_handle E pi intf w) (\<lambda>(pi, w).
                  process_arpipqueue steps fuel E (arp_sender_ip (pi_packet pi)) w))
           else Inr w))"

section \<open>Frames\<close>

definition router_handle_packet ::
    "nat \<Rightarrow> nat \<Rightarrow> env \<Rightarrow> packet_info \<Rightarrow> world \<Rightarrow> world result" where
  "router_handle_packet steps fuel E pi w =
     (if PACKET_CAN_MARSHALL sizeof_packet_ethernet 0 (pi_len pi) then
        let type = ntohs (eth_type (pi_packet pi))
        in if type = ETH_ARP_TYPE then
             (if PACKET_CAN_MARSHALL sizeof_packet_arp 14 (pi_len pi)
              then arp_onreceive steps fuel E pi w else Inr w)
           else if type = ETH_IP_TYPE then
             (if PACKET_CAN_MARSHALL sizeof_packet_ip4 14 (pi_len pi)
              then ip_onreceive fuel E pi w else Inr w)
           else Inr w
      else Inr w)"

section \<open>Life cycle\<close>

definition router_init :: "env \<Rightarrow> world \<Rightarrow> world" where
  "router_init E w =
     (case gettimeofday E (w\<lparr>is_router_running := True, num_interfaces := 0, use_ospf := True,
                             arp_cache := queue_init, ip_table := queue_init,
                             iparp_buffer := queue_init, dns_db := queue_init\<rparr>) of
        (now, w) \<Rightarrow> w\<lparr>last_lsu := now\<rparr>)"

definition SR_NAMELEN :: nat where "SR_NAMELEN = 32"
definition PREFIX_LENGTH :: nat where "PREFIX_LENGTH = 3"

definition intf_hw_id :: "string \<Rightarrow> nat \<Rightarrow> byte" where
  "intf_hw_id name n =
     (let s = drop PREFIX_LENGTH name
      in if s = ''eth0'' then 0 else if s = ''eth1'' then 1 else if s = ''eth2'' then 2
         else if s = ''eth3'' then 3 else of_nat n)"

text \<open>
  \<open>router_add_interface\<close> writes \<open>interface[num_interfaces]\<close> without a bound; the
  array has \<open>ROUTER_MAX_INTERFACES\<close> cells.
\<close>

definition router_add_interface ::
    "string \<Rightarrow> addr_ip \<Rightarrow> addr_ip \<Rightarrow> addr_mac \<Rightarrow> world \<Rightarrow> world result" where
  "router_add_interface name ip msk mac w =
     (let n = num_interfaces w;
          w = (if n = 0
               then w\<lparr>pw_router := \<lparr>router_id = ip, area_id = 0, lsuint = 30\<rparr>\<rparr> else w)
      in need (n < length (interface w)) OutOfBounds
        (need (PREFIX_LENGTH \<le> length name \<and> length name < SR_NAMELEN) OutOfBounds
          (Inr (w\<lparr>interface := (interface w)[n :=
                    \<lparr>if_name = name, if_mac = mac, if_ip = ip, enabled = True,
                     subnet_mask = msk, hw_id = intf_hw_id name n, helloint = HELLOINT,
                     neighbours = queue_init\<rparr>],
                  num_interfaces := n + 1\<rparr>))))"

definition destroy_neighbour :: "nat \<Rightarrow> nat \<Rightarrow> world \<Rightarrow> world result" where
  "destroy_neighbour i n w =
     bindr (interface_at w (Some i)) (\<lambda>intf.
     case queue_getidandlock (neighbours intf) (int n) of
       (Some (entry, entry_size), nbs) \<Rightarrow>
         need (entry_size = sizeof_pwospf_list_entry) AssertFail
           (bindr (free_lsu entry) (\<lambda>entry.
             Inr (set_neighbours i
               (queue_unlockid (nbs\<lparr>packet := (packet nbs)[n := entry]\<rparr>) (int n)) w)))
     | (None, nbs) \<Rightarrow> Inr (set_neighbours i nbs w))"

definition destroy_interface :: "nat \<Rightarrow> world \<Rightarrow> world result" where
  "destroy_interface i w =
     bindr (interface_at w (Some i)) (\<lambda>intf.
     bindr (for_loop (nat (qsize (neighbours intf))) 0 (destroy_neighbour i) w) (\<lambda>w.
     bindr (interface_at w (Some i)) (\<lambda>intf.
       Inr (set_neighbours i (queue_free (neighbours intf)) w))))"

definition router_destroy :: "world \<Rightarrow> world result" where
  "router_destroy w =
     for_loop (num_interfaces w) 0 destroy_interface
       (w\<lparr>is_router_running := False, arp_cache := queue_free (arp_cache w),
          ip_table := queue_free (ip_table w), iparp_buffer := queue_free (iparp_buffer w),
          dns_db := queue_free (dns_db w)\<rparr>)"

end
