(* ===== verification/DjikstraRoutes.thy ===== *)
theory DjikstraRoutes
  imports Djikstra "HOL-Library.Multiset"
begin

text \<open>
  Correctness of \<open>djikstra_recompute\<close>.  The abstract view of the link-state database
  is the set of advertisements (\<open>advertised\<close>) and the relation that joins two subnets
  advertised by one router (\<open>joined\<close>).  From a state whose queues are well formed and
  unlocked the computation returns, the lock and the neighbour tables are as before,
  the static routes are kept, and the dynamic routes are exactly the shortest-path
  routes of the abstract view.
\<close>

section \<open>The abstract link-state database\<close>

definition lsas_of :: "pwospf_list_entry \<Rightarrow> pwospf_lsa list" where
  "lsas_of e = (case lsu_lastcontents e of LsuData xs \<Rightarrow> xs | _ \<Rightarrow> [])"

definition lsu_ok :: "pwospf_list_entry \<Rightarrow> bool" where
  "lsu_ok e \<longleftrightarrow>
     (case lsu_lastcontents e of
        LsuNull \<Rightarrow> True
      | LsuData xs \<Rightarrow> lsu_lastcontents_count e = int (length xs)
      | LsuFreed \<Rightarrow> False)"

definition nb_lsas :: "pwospf_list_entry \<Rightarrow> pwospf_lsa_dj set" where
  "nb_lsas e = (\<lambda>l. \<lparr>dj_lsa = l, dj_router_ip = neighbour_ip e\<rparr>) ` set (lsas_of e)"

definition intf_lsas :: "world \<Rightarrow> nat \<Rightarrow> pwospf_lsa_dj set" where
  "intf_lsas w i =
     insert (own_lsa w (interface w ! i))
       (\<Union>e\<in>set (packet (neighbours (interface w ! i))). nb_lsas e)"

definition advertised :: "world \<Rightarrow> pwospf_lsa_dj set" where
  "advertised w = (\<Union>i<num_interfaces w. intf_lsas w i)"

definition joined :: "pwospf_lsa_dj set \<Rightarrow> d_link \<Rightarrow> d_link \<Rightarrow> bool" where
  "joined S l1 l2 \<longleftrightarrow>
     (\<exists>a\<in>S. \<exists>b\<in>S. lsa_router_id (dj_lsa a) = lsa_router_id (dj_lsa b)
        \<and> lsa_subnet (dj_lsa a) \<noteq> lsa_subnet (dj_lsa b) \<and> link_of a = l1 \<and> link_of b = l2)"

text \<open>The gateway of an interface: the last immediate neighbour with an advertisement.\<close>

definition next_hop :: "pwospf_list_entry list \<Rightarrow> addr_ip" where
  "next_hop es =
     fold (\<lambda>e h. if immediate_neighbour e = 1 \<and> lsas_of e \<noteq> [] then neighbour_ip e else h) es 0"

text \<open>Well-formed interfaces; whether the neighbour tables are locked does not matter here.\<close>

definition intfs_wf :: "world \<Rightarrow> bool" where
  "intfs_wf w \<longleftrightarrow> num_interfaces w \<le> length (interface w) \<and>
     length (interface w) = ROUTER_MAX_INTERFACES \<and>
     (\<forall>i<num_interfaces w.
        queue_inv sizeof_pwospf_list_entry (neighbours (interface w ! i)) \<and>
        (\<forall>e\<in>set (packet (neighbours (interface w ! i))). lsu_ok e))"

section \<open>Gathering\<close>

text \<open>A queue used as a set: no duplicates.\<close>

definition as_set :: "int \<Rightarrow> 'a set \<Rightarrow> 'a dataqueue \<Rightarrow> bool" where
  "as_set s A q \<longleftrightarrow> table_inv s q \<and> distinct (packet q) \<and> set (packet q) = A"

lemma as_set_init [simp]: "as_set s {} queue_init"
  by (simp add: as_set_def table_inv_def)

lemma as_setE:
  assumes "as_set s A q"
  obtains xs where "q = queue_of s xs" "distinct xs" "set xs = A"
  using assms unfolding as_set_def table_inv_iff by metis

lemma queue_add_new_safe:
  assumes "as_set s A q"
  shows "safe {} (as_set s (insert x A)) (queue_add_new s q x)"
proof -
  obtain xs where q: "q = queue_of s xs" "distinct xs" "set xs = A"
    using assms by (rule as_setE)
  show ?thesis
  proof (cases "x \<in> A")
    case True
    then have "queue_existsunsafe (=) (queue_of s xs) x \<noteq> -1"
      using q queue_existsunsafe_absent by metis
    with True q show ?thesis
      by (simp add: queue_add_new_def as_set_def insert_absorb del: queue_existsunsafe_of)
  next
    case False
    then have "queue_existsunsafe (=) (queue_of s xs) x = -1"
      using q queue_existsunsafe_absent by metis
    with False q show ?thesis
      by (simp add: queue_add_new_def as_set_def queue_add_of)
  qed
qed

definition gath :: "pwospf_lsa_dj set \<Rightarrow> addr_ip list \<Rightarrow> dj_topology \<Rightarrow> bool" where
  "gath S rs st \<longleftrightarrow> as_set sizeof_pwospf_lsa_dj S (topology st)
     \<and> as_set sizeof_d_link (link_of ` S) (subnets st) \<and> routers st = rs"

lemma queue_getidunsafe_inv:
  "queue_inv s q \<Longrightarrow> n < length (packet q) \<Longrightarrow>
   queue_getidunsafe q (int n) = Some (packet q ! n, s)"
  by (simp add: queue_getidunsafe_def queue_inv_def)

lemma gather_lsa_safe:
  assumes "gath S rs st" and "lsu_lastcontents entry = LsuData xs" and "j < length xs"
  shows "safe {} (gath (insert \<lparr>dj_lsa = xs ! j, dj_router_ip = neighbour_ip entry\<rparr> S)
           (if immediate_neighbour entry = 1 then rs[i := neighbour_ip entry] else rs))
           (gather_lsa i entry j st)"
proof -
  let ?x = "\<lparr>dj_lsa = xs ! j, dj_router_ip = neighbour_ip entry\<rparr>"
  have t: "safe {} (as_set sizeof_pwospf_lsa_dj (insert ?x S))
      (queue_add_new sizeof_pwospf_lsa_dj (topology st) ?x)"
    and s: "safe {} (as_set sizeof_d_link (insert (link_of ?x) (link_of ` S)))
      (queue_add_new sizeof_d_link (subnets st) (link_of ?x))"
    using assms(1) by (auto simp: gath_def intro: queue_add_new_safe)
  then obtain t' s' where
    "queue_add_new sizeof_pwospf_lsa_dj (topology st) ?x = Inr t'"
    "as_set sizeof_pwospf_lsa_dj (insert ?x S) t'"
    "queue_add_new sizeof_d_link (subnets st) (link_of ?x) = Inr s'"
    "as_set sizeof_d_link (insert (link_of ?x) (link_of ` S)) s'"
    by (auto simp: safe_empty_iff)
  with assms show ?thesis
    by (simp add: gather_lsa_def lsu_at_def Let_def gath_def link_of_def)
qed

lemma nb_lsas_LsuData:
  "lsu_lastcontents e = LsuData xs \<Longrightarrow>
   nb_lsas e = (\<lambda>l. \<lparr>dj_lsa = l, dj_router_ip = neighbour_ip e\<rparr>) ` set xs"
  by (simp add: nb_lsas_def lsas_of_def)

lemma gather_neighbour_safe:
  assumes st: "gath S rs st" and q: "queue_inv sizeof_pwospf_list_entry nbs"
    and n: "n < length (packet nbs)" and ok: "lsu_ok (packet nbs ! n)"
  shows "safe {} (gath (S \<union> nb_lsas (packet nbs ! n))
           (if immediate_neighbour (packet nbs ! n) = 1 \<and> lsas_of (packet nbs ! n) \<noteq> []
            then rs[i := neighbour_ip (packet nbs ! n)] else rs))
           (gather_neighbour i nbs n st)"
proof (cases "lsu_lastcontents (packet nbs ! n)")
  case LsuNull
  with st q n show ?thesis
    by (simp add: gather_neighbour_def queue_getidunsafe_inv nb_lsas_def lsas_of_def)
next
  case LsuFreed
  with ok show ?thesis by (simp add: lsu_ok_def)
next
  case (LsuData xs)
  let ?e = "packet nbs ! n"
  let ?dj = "\<lambda>l. \<lparr>dj_lsa = l, dj_router_ip = neighbour_ip ?e\<rparr>"
  let ?I = "\<lambda>j. gath (S \<union> ?dj ` set (take j xs))
      (if immediate_neighbour ?e = 1 \<and> 0 < j then rs[i := neighbour_ip ?e] else rs)"
  have "safe {} (?I (0 + length xs)) (for_loop (length xs) 0 (gather_lsa i ?e) st)"
  proof (rule for_loop_safe)
    show "?I 0 st" using st by simp
    show "safe {} (?I (Suc j)) (gather_lsa i ?e j s)" if "j < 0 + length xs" "?I j s" for j s
      using gather_lsa_safe [OF that(2) LsuData, of j i] that(1)
      by (simp add: take_Suc_conv_app_nth split: if_splits)
  qed
  with LsuData ok q n show ?thesis
    by (simp add: gather_neighbour_def queue_getidunsafe_inv nb_lsas_LsuData lsu_ok_def lsas_of_def)
qed

lemma next_hop_take:
  "n < length es \<Longrightarrow> next_hop (take (Suc n) es) =
     (if immediate_neighbour (es ! n) = 1 \<and> lsas_of (es ! n) \<noteq> [] then neighbour_ip (es ! n)
      else next_hop (take n es))"
  by (simp add: next_hop_def take_Suc_conv_app_nth)

lemma gather_interface_safe:
  assumes st: "gath S rs st" and wf: "intfs_wf w" and i: "i < num_interfaces w"
    and rs: "i < length rs" "rs ! i = 0"
  shows "safe {} (gath (S \<union> intf_lsas w i)
           (rs[i := next_hop (packet (neighbours (interface w ! i)))])) (gather_interface w i st)"
proof -
  let ?intf = "interface w ! i"
  let ?es = "packet (neighbours ?intf)"
  have q: "queue_inv sizeof_pwospf_list_entry (neighbours ?intf)" and il: "i < length (interface w)"
    and ok: "\<And>n. n < length ?es \<Longrightarrow> lsu_ok (?es ! n)"
    using wf i by (auto simp: intfs_wf_def)
  have link: "link_of (own_lsa w ?intf) = own_link ?intf"
    by (simp add: link_of_def own_lsa_def own_link_def)
  have "safe {} (as_set sizeof_pwospf_lsa_dj (insert (own_lsa w ?intf) S))
      (queue_add_new sizeof_pwospf_lsa_dj (topology st) (own_lsa w ?intf))"
    and "safe {} (as_set sizeof_d_link (insert (own_link ?intf) (link_of ` S)))
      (queue_add_new sizeof_d_link (subnets st) (own_link ?intf))"
    using st by (auto simp: gath_def intro: queue_add_new_safe)
  then obtain t s where ts:
    "queue_add_new sizeof_pwospf_lsa_dj (topology st) (own_lsa w ?intf) = Inr t"
    "as_set sizeof_pwospf_lsa_dj (insert (own_lsa w ?intf) S) t"
    "queue_add_new sizeof_d_link (subnets st) (own_link ?intf) = Inr s"
    "as_set sizeof_d_link (insert (own_link ?intf) (link_of ` S)) s"
    by (auto simp: safe_empty_iff)
  define st' where "st' = st\<lparr>topology := t, subnets := s\<rparr>"
  have st': "gath (insert (own_lsa w ?intf) S) rs st'"
    using st ts link by (simp add: gath_def st'_def)
  let ?I = "\<lambda>n. gath (insert (own_lsa w ?intf) S \<union> (\<Union>e\<in>set (take n ?es). nb_lsas e))
      (rs[i := next_hop (take n ?es)])"
  have "safe {} (?I (0 + length ?es))
      (for_loop (length ?es) 0 (gather_neighbour i (neighbours ?intf)) st')"
  proof (rule for_loop_safe)
    show "?I 0 st'" using st' rs list_update_id [of rs i] by (simp add: next_hop_def)
    show "safe {} (?I (Suc n)) (gather_neighbour i (neighbours ?intf) n s)"
      if "n < 0 + length ?es" "?I n s" for n s
    proof -
      have "next_hop (take (Suc n) ?es) = (if immediate_neighbour (?es ! n) = 1 \<and> lsas_of (?es ! n) \<noteq> []
          then neighbour_ip (?es ! n) else next_hop (take n ?es))"
        using that(1) by (simp add: next_hop_take)
      moreover have "(\<Union>e\<in>set (take (Suc n) ?es). nb_lsas e)
          = (\<Union>e\<in>set (take n ?es). nb_lsas e) \<union> nb_lsas (?es ! n)"
        using that(1) by (auto simp: take_Suc_conv_app_nth)
      ultimately show ?thesis
        using gather_neighbour_safe [OF that(2) q, of n i] ok [of n] that(1)
        by (cases "immediate_neighbour (?es ! n) = 1 \<and> lsas_of (?es ! n) \<noteq> []")
           (auto simp: Un_assoc)
    qed
  qed
  moreover have "gather_interface w i st =
      for_loop (length ?es) 0 (gather_neighbour i (neighbours ?intf)) st'"
    using ts il q by (simp add: gather_interface_def interface_at_def st'_def queue_inv_def)
  ultimately show ?thesis by (simp add: intf_lsas_def)
qed

definition hops :: "world \<Rightarrow> addr_ip list" where
  "hops w = map (\<lambda>i. next_hop (packet (neighbours (interface w ! i)))) [0..<num_interfaces w]"

lemma djikstra_gather_safe:
  assumes wf: "intfs_wf w"
  shows "safe {} (gath (advertised w) (hops w)) (djikstra_gather w)"
proof -
  let ?h = "\<lambda>i. next_hop (packet (neighbours (interface w ! i)))"
  let ?n = "num_interfaces w"
  let ?I = "\<lambda>i. gath (\<Union>j<i. intf_lsas w j) (map ?h [0..<i] @ replicate (?n - i) 0)"
  have "safe {} (?I (0 + ?n)) (djikstra_gather w)"
    unfolding djikstra_gather_def
  proof (rule for_loop_safe)
    show "?I 0 \<lparr>topology = queue_init, subnets = queue_init, routers = replicate ?n 0\<rparr>"
      by (simp add: gath_def)
    show "safe {} (?I (Suc i)) (gather_interface w i st)" if "i < 0 + ?n" "?I i st" for i st
    proof -
      let ?rs = "map ?h [0..<i] @ replicate (?n - i) 0"
      have "?n - i = Suc (?n - Suc i)" using that(1) by simp
      then have "?rs[i := ?h i] = map ?h [0..<Suc i] @ replicate (?n - Suc i) 0"
        by (simp add: list_update_append)
      moreover have "(\<Union>j<i. intf_lsas w j) \<union> intf_lsas w i = (\<Union>j<Suc i. intf_lsas w j)"
        by (auto simp: less_Suc_eq)
      moreover have "?rs ! i = 0" "i < length ?rs" using that(1) by (simp_all add: nth_append)
      ultimately show ?thesis
        using gather_interface_safe [OF that(2) wf, of i] that(1) by simp
    qed
  qed
  then show ?thesis by (simp add: advertised_def hops_def)
qed

section \<open>The graph\<close>

text \<open>The matrix over the subnets \<open>ss\<close> that represents the relation \<open>Q\<close>.\<close>

definition matrix_of :: "d_link list \<Rightarrow> (d_link \<Rightarrow> d_link \<Rightarrow> bool) \<Rightarrow> int list list \<Rightarrow> bool" where
  "matrix_of ss Q g \<longleftrightarrow>
     length g = length ss \<and> (\<forall>u<length ss. length (g ! u) = length ss) \<and>
     (\<forall>u<length ss. \<forall>v<length ss. g ! u ! v = (if Q (ss ! u) (ss ! v) then 1 else 0))"

definition pair_joined :: "pwospf_lsa_dj \<Rightarrow> pwospf_lsa_dj \<Rightarrow> d_link \<Rightarrow> d_link \<Rightarrow> bool" where
  "pair_joined a b l1 l2 \<longleftrightarrow>
     lsa_router_id (dj_lsa a) = lsa_router_id (dj_lsa b)
     \<and> lsa_subnet (dj_lsa a) \<noteq> lsa_subnet (dj_lsa b)
     \<and> (l1 = link_of a \<and> l2 = link_of b \<or> l1 = link_of b \<and> l2 = link_of a)"

lemma queue_existsunsafe_index:
  assumes "x \<in> set xs"
  obtains k where "k < length xs" "xs ! k = x"
    "queue_existsunsafe (=) (queue_of s xs) x = int k"
proof -
  have "first_match (\<lambda>y. y = x) xs \<noteq> None" using assms by (auto simp: first_match_None)
  then obtain k y where k: "first_match (\<lambda>y. y = x) xs = Some (k, y)" by force
  then have "k < length xs" "xs ! k = x" by (auto simp: first_match_Some)
  with k that show ?thesis by (simp add: queue_existsunsafe_of)
qed

lemma set_edge_matrix:
  assumes g: "matrix_of ss Q g" and d: "distinct ss" and a: "a < length ss" and b: "b < length ss"
  shows "matrix_of ss (\<lambda>l1 l2. Q l1 l2 \<or> l1 = ss ! a \<and> l2 = ss ! b)
           (set_edge (int a) (int b) g)"
proof -
  have len: "length g = length ss" "\<And>u. u < length ss \<Longrightarrow> length (g ! u) = length ss"
    using g by (auto simp: matrix_of_def)
  have "set_edge (int a) (int b) g ! u ! v = (if u = a \<and> v = b then 1 else g ! u ! v)"
    if "u < length ss" "v < length ss" for u v
    using that a b len by (auto simp: set_edge_def nth_list_update)
  moreover have "ss ! u = ss ! a \<longleftrightarrow> u = a" "ss ! u = ss ! b \<longleftrightarrow> u = b" if "u < length ss" for u
    using that a b d by (simp_all add: nth_eq_iff_index_eq)
  ultimately show ?thesis
    using g a b len
    by (auto simp: matrix_of_def) (auto simp: set_edge_def nth_list_update)
qed

lemma connect_safe:
  assumes st: "topology st = queue_of sizeof_pwospf_lsa_dj ts"
      "subnets st = queue_of sizeof_d_link ss" "distinct ss" "link_of ` set ts \<subseteq> set ss"
    and a: "a \<in> set ts" and p: "p < length ts" and g: "matrix_of ss Q g"
  shows "safe {} (matrix_of ss (\<lambda>l1 l2. Q l1 l2 \<or> pair_joined a (ts ! p) l1 l2))
           (connect st a p g)"
proof (cases "lsa_router_id (dj_lsa a) = lsa_router_id (dj_lsa (ts ! p))
      \<and> lsa_subnet (dj_lsa a) \<noteq> lsa_subnet (dj_lsa (ts ! p))")
  case False
  then have "(\<lambda>l1 l2. Q l1 l2 \<or> pair_joined a (ts ! p) l1 l2) = Q"
    by (auto simp: pair_joined_def)
  with st p g show ?thesis
    unfolding connect_def if_not_P [OF False] by (simp add: queue_getidunsafe_of False cong: if_cong)
next
  case True
  have mem: "link_of a \<in> set ss" "link_of (ts ! p) \<in> set ss" using st(4) a p by auto
  obtain i where i: "i < length ss" "ss ! i = link_of a"
      "queue_existsunsafe (=) (queue_of sizeof_d_link ss) (link_of a) = int i"
    using queue_existsunsafe_index [OF mem(1)] by blast
  obtain j where j: "j < length ss" "ss ! j = link_of (ts ! p)"
      "queue_existsunsafe (=) (queue_of sizeof_d_link ss) (link_of (ts ! p)) = int j"
    using queue_existsunsafe_index [OF mem(2)] by blast
  have "matrix_of ss (\<lambda>l1 l2. (Q l1 l2 \<or> l1 = ss ! i \<and> l2 = ss ! j) \<or> l1 = ss ! j \<and> l2 = ss ! i)
      (set_edge (int j) (int i) (set_edge (int i) (int j) g))"
    by (intro set_edge_matrix g st(3) i(1) j(1))
  moreover have "(\<lambda>l1 l2. (Q l1 l2 \<or> l1 = ss ! i \<and> l2 = ss ! j) \<or> l1 = ss ! j \<and> l2 = ss ! i)
      = (\<lambda>l1 l2. Q l1 l2 \<or> pair_joined a (ts ! p) l1 l2)"
    using True i j by (auto simp: pair_joined_def fun_eq_iff)
  ultimately show ?thesis
    using True st p i j by (simp add: connect_def queue_getidunsafe_of Let_def)
qed

lemma connect_all_safe:
  assumes st: "topology st = queue_of sizeof_pwospf_lsa_dj ts"
      "subnets st = queue_of sizeof_d_link ss" "distinct ss" "link_of ` set ts \<subseteq> set ss"
    and k: "k < length ts" and g: "matrix_of ss Q g"
  shows "safe {} (matrix_of ss (\<lambda>l1 l2. Q l1 l2 \<or>
             (\<exists>p. k < p \<and> p < length ts \<and> pair_joined (ts ! k) (ts ! p) l1 l2)))
           (connect_all st k g)"
proof -
  let ?I = "\<lambda>n. matrix_of ss (\<lambda>l1 l2. Q l1 l2 \<or>
      (\<exists>p. k < p \<and> p < n \<and> pair_joined (ts ! k) (ts ! p) l1 l2))"
  have "safe {} (?I (Suc k + (length ts - Suc k)))
      (for_loop (length ts - Suc k) (Suc k) (connect st (ts ! k)) g)"
  proof (rule for_loop_safe)
    have "\<not> (k < p \<and> p < Suc k)" for p by simp
    then show "?I (Suc k) g" using g by (simp only: simp_thms conj_assoc [symmetric])
    show "safe {} (?I (Suc p)) (connect st (ts ! k) p g')"
      if "Suc k \<le> p" "p < Suc k + (length ts - Suc k)" "?I p g'" for p g'
    proof -
      have "(\<lambda>l1 l2. (Q l1 l2 \<or> (\<exists>q. k < q \<and> q < p \<and> pair_joined (ts ! k) (ts ! q) l1 l2))
            \<or> pair_joined (ts ! k) (ts ! p) l1 l2)
          = (\<lambda>l1 l2. Q l1 l2 \<or> (\<exists>q. k < q \<and> q < Suc p \<and> pair_joined (ts ! k) (ts ! q) l1 l2))"
        using Suc_le_lessD [OF that(1)] by (auto simp: fun_eq_iff less_Suc_eq)
      then show ?thesis
        using connect_safe [OF st _ _ that(3), of "ts ! k" p] k that(2) by simp
    qed
  qed
  moreover have "Suc k + (length ts - Suc k) = length ts" using k by simp
  ultimately show ?thesis
    using st k by (simp add: connect_all_def queue_getidunsafe_of del: add_Suc)
qed

lemma joined_pairs:
  "joined (set ts) l1 l2 \<longleftrightarrow>
     (\<exists>k p. k < p \<and> p < length ts \<and> pair_joined (ts ! k) (ts ! p) l1 l2)"
proof
  assume "joined (set ts) l1 l2"
  then obtain i j where ij: "i < length ts" "j < length ts"
      "lsa_router_id (dj_lsa (ts ! i)) = lsa_router_id (dj_lsa (ts ! j))"
      "lsa_subnet (dj_lsa (ts ! i)) \<noteq> lsa_subnet (dj_lsa (ts ! j))"
      "link_of (ts ! i) = l1" "link_of (ts ! j) = l2"
    unfolding joined_def by (metis in_set_conv_nth)
  then have "i < j \<or> j < i" by (metis linorder_neqE_nat)
  then show "\<exists>k p. k < p \<and> p < length ts \<and> pair_joined (ts ! k) (ts ! p) l1 l2"
  proof
    assume "i < j"
    with ij show ?thesis by (intro exI [of _ i] exI [of _ j]) (simp add: pair_joined_def)
  next
    assume "j < i"
    with ij show ?thesis by (intro exI [of _ j] exI [of _ i]) (simp add: pair_joined_def)
  qed
next
  assume "\<exists>k p. k < p \<and> p < length ts \<and> pair_joined (ts ! k) (ts ! p) l1 l2"
  then obtain k p where kp: "k < p" "p < length ts" and j: "pair_joined (ts ! k) (ts ! p) l1 l2"
    by blast
  have mem: "ts ! k \<in> set ts" "ts ! p \<in> set ts" using kp by simp_all
  from j consider "l1 = link_of (ts ! k)" "l2 = link_of (ts ! p)"
    | "l1 = link_of (ts ! p)" "l2 = link_of (ts ! k)"
    by (auto simp: pair_joined_def)
  then show "joined (set ts) l1 l2"
  proof cases
    case 1
    then show ?thesis
      unfolding joined_def
      by - (rule bexI [of _ "ts ! k"], rule bexI [of _ "ts ! p"],
          use j mem in \<open>auto simp: pair_joined_def\<close>)
  next
    case 2
    then show ?thesis
      unfolding joined_def
      by - (rule bexI [of _ "ts ! p"], rule bexI [of _ "ts ! k"],
          use j mem in \<open>auto simp: pair_joined_def\<close>)
  qed
qed

lemma populate_graph_safe:
  assumes st: "topology st = queue_of sizeof_pwospf_lsa_dj ts"
      "subnets st = queue_of sizeof_d_link ss" "distinct ss" "link_of ` set ts \<subseteq> set ss"
  shows "safe {} (matrix_of ss (joined (set ts))) (populate_graph st)"
proof -
  let ?J = "\<lambda>n l1 l2. \<exists>k p. k < n \<and> k < p \<and> p < length ts \<and> pair_joined (ts ! k) (ts ! p) l1 l2"
  let ?V = "length ss"
  have "safe {} (matrix_of ss (?J (0 + length ts)))
      (for_loop (length ts) 0 (connect_all st) (replicate ?V (replicate ?V 0)))"
  proof (rule for_loop_safe)
    show "matrix_of ss (?J 0) (replicate ?V (replicate ?V 0))"
      by (simp add: matrix_of_def)
    show "safe {} (matrix_of ss (?J (Suc k))) (connect_all st k g)"
      if "k < 0 + length ts" "matrix_of ss (?J k) g" for k g
    proof -
      have "(\<lambda>l1 l2. ?J k l1 l2 \<or> (\<exists>p. k < p \<and> p < length ts \<and> pair_joined (ts ! k) (ts ! p) l1 l2))
          = ?J (Suc k)"
        by (auto simp: fun_eq_iff less_Suc_eq)
      then show ?thesis using connect_all_safe [OF st _ that(2), of k] that(1) by simp
    qed
  qed
  moreover have "?J (length ts) = joined (set ts)"
    by (auto simp: joined_pairs fun_eq_iff) (metis order.strict_trans)
  ultimately show ?thesis
    using st by (simp add: populate_graph_def Let_def)
qed

section \<open>Selection of the interface\<close>

text \<open>The hop distance between two subnets, \<open>INT_MAX\<close> when there is no walk.\<close>

definition hopdist :: "pwospf_lsa_dj set \<Rightarrow> d_link \<Rightarrow> d_link \<Rightarrow> int" where
  "hopdist S l0 l =
     (if \<exists>d. walk (joined S) l0 d l then int (LEAST d. walk (joined S) l0 d l) else INT_MAX)"

lemma hopdist_shortest: "shortest (joined S) l0 d l \<Longrightarrow> hopdist S l0 l = int d"
  unfolding hopdist_def shortest_def
  by (metis (mono_tags, lifting) Least_equality linorder_not_less)

lemma djikstra_from_hopdist:
  assumes g: "matrix_of ss (joined S) g" and ss: "distinct ss" "set ss = link_of ` S"
    and s: "s < length ss" and V: "int (length ss) \<le> INT_MAX"
  shows "safe {} (\<lambda>dist. length dist = length ss \<and>
     (\<forall>v<length ss. dist ! v = hopdist S (ss ! s) (ss ! v) \<and> dist ! v \<le> INT_MAX))
     (djikstra_from g (length ss) s)"
proof -
  let ?V = "length ss"
  have um: "unit_matrix g ?V" using g by (auto simp: unit_matrix_def matrix_of_def)
  have rename: "walk (joined S) (ss ! s) d (ss ! v) \<longleftrightarrow> walk (adj g ?V) s d v" if "v < ?V" for d v
  proof (rule walk_rename [of "(!) ss" "{..<?V}"])
    show "inj_on ((!) ss) {..<?V}" using ss by (auto simp: inj_on_def nth_eq_iff_index_eq)
    show "u \<in> (!) ss ` {..<?V} \<and> v \<in> (!) ss ` {..<?V}" if "joined S u v" for u v
    proof -
      have "u \<in> set ss" "v \<in> set ss" using that ss(2) by (auto simp: joined_def)
      then show ?thesis by (auto simp: in_set_conv_nth image_iff)
    qed
    show "joined S (ss ! u) (ss ! v) \<longleftrightarrow> adj g ?V u v" if "u \<in> {..<?V}" "v \<in> {..<?V}" for u v
      using that g by (auto simp: adj_def matrix_of_def)
  qed (use s that in \<open>auto simp: adj_def\<close>)
  have short: "shortest (joined S) (ss ! s) d (ss ! v) \<longleftrightarrow> shortest (adj g ?V) s d v"
    if "v < ?V" for d v
    using rename [OF that] by (simp add: shortest_def)
  show ?thesis
  proof (rule safe_mono [OF djikstra_from_safe [OF um s V]])
    fix dist :: "int list"
    assume d: "length dist = ?V \<and> (\<forall>v<?V. 0 \<le> dist ! v \<and> dist ! v \<le> INT_MAX \<and>
       (if dist ! v = INT_MAX then \<forall>d. \<not> walk (adj g ?V) s d v
        else shortest (adj g ?V) s (nat (dist ! v)) v))"
    have "dist ! v = hopdist S (ss ! s) (ss ! v)" if "v < ?V" for v
    proof (cases "dist ! v = INT_MAX")
      case True
      with d that have "\<forall>d. \<not> walk (adj g ?V) s d v" by auto
      with rename [OF that] True show ?thesis by (simp add: hopdist_def)
    next
      case False
      with d that have "shortest (adj g ?V) s (nat (dist ! v)) v" "0 \<le> dist ! v" by auto
      with short [OF that] show ?thesis by (simp add: hopdist_shortest)
    qed
    with d show "length dist = ?V \<and>
       (\<forall>v<?V. dist ! v = hopdist S (ss ! s) (ss ! v) \<and> dist ! v \<le> INT_MAX)" by simp
  qed simp
qed

text \<open>One pass over the subnets takes over the entries the new interface improves.\<close>

definition sel_at :: "dj_select \<Rightarrow> nat \<Rightarrow> int \<times> int \<times> addr_ip option" where
  "sel_at sel x = (final sel ! x, dj_intf sel ! x, rips sel ! x)"

definition sel_len :: "nat \<Rightarrow> dj_select \<Rightarrow> bool" where
  "sel_len V sel \<longleftrightarrow>
     length (final sel) = V \<and> length (dj_intf sel) = V \<and> length (rips sel) = V"

definition taken ::
    "dj_topology \<Rightarrow> interface \<Rightarrow> nat \<Rightarrow> int list \<Rightarrow> d_link list \<Rightarrow> nat \<Rightarrow> int \<times> int \<times> addr_ip option"
  where
  "taken st intf i dist ss x =
     (dist ! x, int i,
      Some (if dl_subnet (ss ! x) = own_subnet intf then 0 else routers st ! i))"

lemma select_subnet_step:
  assumes "subnets st = queue_of sizeof_d_link ss" and "sel_len (length ss) sel" and "v < length ss"
  shows "safe {} (\<lambda>sel'. sel_len (length ss) sel' \<and> (\<forall>x<length ss. sel_at sel' x =
      (if x = v \<and> dist ! v < final sel ! v then taken st intf i dist ss x else sel_at sel x)))
    (select_subnet st intf i dist v sel)"
  using assms
  by (simp add: select_subnet_def queue_getidunsafe_of sel_len_def sel_at_def taken_def
      nth_list_update)

lemma select_subnet_loop:
  assumes st: "subnets st = queue_of sizeof_d_link ss" and sel: "sel_len (length ss) sel"
  shows "safe {} (\<lambda>sel'. sel_len (length ss) sel' \<and> (\<forall>x<length ss. sel_at sel' x =
      (if dist ! x < final sel ! x then taken st intf i dist ss x else sel_at sel x)))
    (for_loop (length ss) 0 (select_subnet st intf i dist) sel)"
proof -
  let ?I = "\<lambda>v sel'. sel_len (length ss) sel' \<and> (\<forall>x<length ss. sel_at sel' x =
      (if x < v \<and> dist ! x < final sel ! x then taken st intf i dist ss x else sel_at sel x))"
  have "safe {} (?I (0 + length ss)) (for_loop (length ss) 0 (select_subnet st intf i dist) sel)"
  proof (rule for_loop_safe)
    show "?I 0 sel" using sel by simp
    show "safe {} (?I (Suc v)) (select_subnet st intf i dist v sel')"
      if v: "v < 0 + length ss" and I: "?I v sel'" for v sel'
    proof (rule safe_mono)
      show "safe {} (\<lambda>sel''. sel_len (length ss) sel'' \<and> (\<forall>x<length ss. sel_at sel'' x =
          (if x = v \<and> dist ! v < final sel' ! v then taken st intf i dist ss x else sel_at sel' x)))
        (select_subnet st intf i dist v sel')"
        using v I by (intro select_subnet_step st) auto
      have "sel_at sel' v = sel_at sel v" using v I by simp
      then have "final sel' ! v = final sel ! v" by (simp add: sel_at_def)
      then show "?I (Suc v) sel''" if "sel_len (length ss) sel'' \<and> (\<forall>x<length ss. sel_at sel'' x =
          (if x = v \<and> dist ! v < final sel' ! v then taken st intf i dist ss x else sel_at sel' x))"
        for sel''
        using that I by (auto simp: less_Suc_eq)
    qed simp
  qed
  then show ?thesis by (rule safe_mono) auto
qed

text \<open>The selection as a specification: the first interface of minimal distance.\<close>

definition intf_dist :: "world \<Rightarrow> nat \<Rightarrow> d_link \<Rightarrow> int" where
  "intf_dist w i l = hopdist (advertised w) (own_link (interface w ! i)) l"

definition chosen :: "world \<Rightarrow> nat \<Rightarrow> d_link \<Rightarrow> int \<times> int \<times> addr_ip option \<Rightarrow> bool" where
  "chosen w n l r \<longleftrightarrow>
     (case r of (f, k, ip) \<Rightarrow>
        f = INT_MAX \<and> k = INT_MAX \<and> (\<forall>j<n. intf_dist w j l = INT_MAX) \<or>
        (\<exists>j<n. k = int j \<and> f = intf_dist w j l \<and> f < INT_MAX
           \<and> (\<forall>j'<n. f \<le> intf_dist w j' l) \<and> (\<forall>j'<j. f < intf_dist w j' l)
           \<and> ip = Some (if dl_subnet l = own_subnet (interface w ! j) then 0 else hops w ! j)))"

lemma chosen_0: "chosen w 0 l (INT_MAX, INT_MAX, ip)"
  by (simp add: chosen_def)

lemma chosen_Suc:
  assumes "chosen w n l (f, k, ip)" and "intf_dist w n l \<le> INT_MAX"
  shows "chosen w (Suc n) l
     (if intf_dist w n l < f
      then (intf_dist w n l, int n,
            Some (if dl_subnet l = own_subnet (interface w ! n) then 0 else hops w ! n))
      else (f, k, ip))"
proof (cases "intf_dist w n l < f")
  case True
  let ?ip = "Some (if dl_subnet l = own_subnet (interface w ! n) then 0 else hops w ! n)"
  have less: "intf_dist w n l < intf_dist w j l" if "j < n" for j
    using assms(1) True that by (auto simp: chosen_def)
  then have le: "\<forall>j<Suc n. intf_dist w n l \<le> intf_dist w j l"
    by (simp add: less_Suc_eq_le order.order_iff_strict)
  have "intf_dist w n l < INT_MAX"
    using assms(1) True by (auto simp: chosen_def)
  then have "chosen w (Suc n) l (intf_dist w n l, int n, ?ip)"
    unfolding chosen_def prod.case using less le by (intro disjI2 exI [of _ n]) simp
  with True show ?thesis by simp
next
  case False
  from assms(1) consider
      (none) "f = INT_MAX" "k = INT_MAX" "\<forall>j<n. intf_dist w j l = INT_MAX"
    | (some) j where "j < n" "k = int j" "f = intf_dist w j l" "f < INT_MAX"
        "\<forall>j'<n. f \<le> intf_dist w j' l" "\<forall>j'<j. f < intf_dist w j' l"
        "ip = Some (if dl_subnet l = own_subnet (interface w ! j) then 0 else hops w ! j)"
    by (auto simp: chosen_def)
  then show ?thesis
  proof cases
    case none
    with False assms(2) show ?thesis by (auto simp: chosen_def less_Suc_eq)
  next
    case some
    have "\<forall>j'<Suc n. f \<le> intf_dist w j' l" using some(5) False by (simp add: less_Suc_eq)
    with some have "chosen w (Suc n) l (f, k, ip)"
      unfolding chosen_def prod.case by (intro disjI2 exI [of _ j]) simp
    with False show ?thesis by simp
  qed
qed

definition selected :: "world \<Rightarrow> d_link list \<Rightarrow> nat \<Rightarrow> dj_select \<Rightarrow> bool" where
  "selected w ss n sel \<longleftrightarrow>
     sel_len (length ss) sel \<and> (\<forall>x<length ss. chosen w n (ss ! x) (sel_at sel x))"

lemma select_interface_safe:
  assumes st: "subnets st = queue_of sizeof_d_link ss" "routers st = hops w"
    and ss: "distinct ss" "set ss = link_of ` advertised w" and V: "int (length ss) \<le> INT_MAX"
    and g: "matrix_of ss (joined (advertised w)) g"
    and i: "i < num_interfaces w" "i < length (interface w)"
    and sel: "selected w ss i sel"
  shows "safe {} (selected w ss (Suc i)) (select_interface w st g i sel)"
proof -
  let ?intf = "interface w ! i"
  have "link_of (own_lsa w ?intf) \<in> link_of ` advertised w"
    using i(1) by (auto simp: advertised_def intf_lsas_def)
  then have "own_link ?intf \<in> set ss"
    using ss(2) by (simp add: link_of_def own_lsa_def own_link_def)
  then obtain s where s: "s < length ss" "ss ! s = own_link ?intf"
      "queue_existsunsafe (=) (queue_of sizeof_d_link ss) (own_link ?intf) = int s"
    by (rule queue_existsunsafe_index)
  have step: "safe {} (selected w ss (Suc i)) (for_loop (length ss) 0 (select_subnet st ?intf i dist) sel)"
    if "length dist = length ss \<and> (\<forall>v<length ss. dist ! v =
          hopdist (advertised w) (ss ! s) (ss ! v) \<and> dist ! v \<le> INT_MAX)" for dist
  proof -
    have "dist ! x = intf_dist w i (ss ! x)" "dist ! x \<le> INT_MAX" if "x < length ss" for x
      using \<open>length dist = _ \<and> _\<close> s(2) that by (auto simp: intf_dist_def)
    moreover have "chosen w i (ss ! x) (sel_at sel x)" if "x < length ss" for x
      using sel that by (simp add: selected_def)
    ultimately have new: "chosen w (Suc i) (ss ! x)
        (if dist ! x < final sel ! x then taken st ?intf i dist ss x else sel_at sel x)"
      if "x < length ss" for x
      using that chosen_Suc [of w i "ss ! x" "final sel ! x" "dj_intf sel ! x" "rips sel ! x"] st(2)
      unfolding sel_at_def taken_def by metis
    show ?thesis
    proof (rule safe_mono [OF select_subnet_loop [OF st(1), of sel dist ?intf i]])
      show "sel_len (length ss) sel" using sel by (simp add: selected_def)
      show "selected w ss (Suc i) sel'" if "sel_len (length ss) sel' \<and> (\<forall>x<length ss.
          sel_at sel' x =
            (if dist ! x < final sel ! x then taken st ?intf i dist ss x else sel_at sel x))" for sel'
        using that new by (simp add: selected_def)
    qed simp
  qed
  have "safe {} (selected w ss (Suc i))
      (bindr (djikstra_from g (length ss) s) (\<lambda>dist.
         for_loop (length ss) 0 (select_subnet st ?intf i dist) sel))"
    by (rule safe_bindr [OF djikstra_from_hopdist [OF g ss s(1) V] step])
  then show ?thesis
    using st(1) s i(2) by (simp add: select_interface_def interface_at_def Let_def)
qed

lemma djikstra_select_safe:
  assumes st: "subnets st = queue_of sizeof_d_link ss" "routers st = hops w"
    and ss: "distinct ss" "set ss = link_of ` advertised w" and V: "int (length ss) \<le> INT_MAX"
    and g: "matrix_of ss (joined (advertised w)) g" and wf: "intfs_wf w"
  shows "safe {} (selected w ss (num_interfaces w)) (djikstra_select w st g)"
proof -
  let ?s0 = "\<lparr>final = replicate (length ss) INT_MAX, dj_intf = replicate (length ss) INT_MAX,
            rips = replicate (length ss) None\<rparr>"
  have "safe {} (selected w ss (0 + num_interfaces w))
      (for_loop (num_interfaces w) 0 (select_interface w st g) ?s0)"
  proof (rule for_loop_safe)
    show "selected w ss 0 ?s0" by (simp add: selected_def sel_len_def sel_at_def chosen_0)
    show "safe {} (selected w ss (Suc i)) (select_interface w st g i sel)"
      if "i < 0 + num_interfaces w" "selected w ss i sel" for i sel
      using select_interface_safe [OF st ss V g _ _ that(2)] that(1) wf
      by (simp add: intfs_wf_def)
  qed
  then show ?thesis using st(1) by (simp add: djikstra_select_def Let_def)
qed

section \<open>The entries of the new table\<close>

text \<open>
  The routes the link-state database asks for: for each advertised subnet that can be
  reached, the first interface among those of minimal distance, unless the subnet
  is that interface's own.
\<close>

definition best_intf :: "world \<Rightarrow> nat \<Rightarrow> d_link \<Rightarrow> bool" where
  "best_intf w j l \<longleftrightarrow>
     j < num_interfaces w \<and> intf_dist w j l < INT_MAX
     \<and> (\<forall>j'<num_interfaces w. intf_dist w j l \<le> intf_dist w j' l)
     \<and> (\<forall>j'<j. intf_dist w j l < intf_dist w j' l)"

definition spf_route :: "world \<Rightarrow> nat \<Rightarrow> d_link \<Rightarrow> rtable_entry" where
  "spf_route w j l =
     \<lparr>router_ip = next_hop (packet (neighbours (interface w ! j))), subnet = dl_subnet l,
      netmask = dl_netmask l, rt_interface = Some j, metric = intf_dist w j l, dynamic = True\<rparr>"

definition spf_routes :: "world \<Rightarrow> d_link set \<Rightarrow> rtable_entry set" where
  "spf_routes w L =
     {spf_route w j l | j l. l \<in> L \<and> best_intf w j l
        \<and> own_subnet (interface w ! j) \<noteq> dl_subnet l}"

lemma best_intf_unique: "best_intf w j l \<Longrightarrow> best_intf w k l \<Longrightarrow> j = k"
  unfolding best_intf_def by (metis linorder_neqE_nat order.strict_iff_not)

lemma dynamic_entry_safe:
  assumes st: "subnets st = queue_of sizeof_d_link ss" and wf: "intfs_wf w"
    and sel: "selected w ss (num_interfaces w) sel" and q: "q < length ss"
    and es: "set es = spf_routes w (set (take q ss))"
  shows "safe {} (\<lambda>es'. set es' = spf_routes w (set (take (Suc q) ss)))
           (dynamic_entry w st sel q es)"
proof -
  let ?l = "ss ! q"
  have grow: "spf_routes w (set (take (Suc q) ss)) =
      spf_routes w (set (take q ss)) \<union> spf_routes w {?l}"
    using q by (auto simp: spf_routes_def take_Suc_conv_app_nth)
  have ch: "chosen w (num_interfaces w) ?l (final sel ! q, dj_intf sel ! q, rips sel ! q)"
    using sel q by (simp add: selected_def sel_at_def)
  have few: "int (num_interfaces w) < INT_MAX"
    using wf by (auto simp: intfs_wf_def INT_MAX_def ROUTER_MAX_INTERFACES_def)
  show ?thesis
  proof (cases "\<exists>j. best_intf w j ?l")
    case False
    then have "dj_intf sel ! q = INT_MAX"
      using ch by (auto simp: chosen_def best_intf_def)
    moreover have "spf_routes w {?l} = {}" using False by (auto simp: spf_routes_def)
    ultimately show ?thesis using few es grow by (simp add: dynamic_entry_def)
  next
    case True
    then obtain j where best: "best_intf w j ?l" by blast
    then have "j < num_interfaces w" "intf_dist w j ?l \<noteq> INT_MAX" by (auto simp: best_intf_def)
    with ch obtain k where k: "k < num_interfaces w" "dj_intf sel ! q = int k"
        "final sel ! q = intf_dist w k ?l" "best_intf w k ?l"
        "rips sel ! q = Some (if dl_subnet ?l = own_subnet (interface w ! k) then 0 else hops w ! k)"
      by (auto simp: chosen_def best_intf_def)
    have "k = j" using best_intf_unique best k(4) by blast
    moreover have "k < length (interface w)" using k wf by (simp add: intfs_wf_def)
    moreover have "spf_routes w {?l} =
        (if own_subnet (interface w ! j) \<noteq> dl_subnet ?l then {spf_route w j ?l} else {})"
      using best best_intf_unique by (auto simp: spf_routes_def)
    moreover have "hops w ! k = next_hop (packet (neighbours (interface w ! k)))"
      using k(1) by (simp add: hops_def)
    ultimately show ?thesis
      using k es grow st q
      by (simp add: dynamic_entry_def queue_getidunsafe_of interface_at_def spf_route_def)
  qed
qed

lemma dynamic_entries_safe:
  assumes st: "subnets st = queue_of sizeof_d_link ss" and wf: "intfs_wf w"
    and sel: "selected w ss (num_interfaces w) sel"
  shows "safe {} (\<lambda>es. set es = spf_routes w (set ss))
           (for_loop (length ss) 0 (dynamic_entry w st sel) [])"
proof -
  have "safe {} (\<lambda>es. set es = spf_routes w (set (take (0 + length ss) ss)))
      (for_loop (length ss) 0 (dynamic_entry w st sel) [])"
    by (rule for_loop_safe [where I = "\<lambda>q es. set es = spf_routes w (set (take q ss))"])
       (simp_all add: spf_routes_def [of w "{}"] dynamic_entry_safe [OF st wf sel])
  then show ?thesis by simp
qed

lemma static_entries:
  assumes "queue_inv sizeof_rtable_entry tbl"
  shows "for_loop (nat (qsize tbl)) 0 (static_entry tbl) es =
           Inr (es @ filter (\<lambda>e. \<not> dynamic e) (packet tbl))"
proof -
  let ?g = "\<lambda>q es. if \<not> dynamic (packet tbl ! q) then es @ [packet tbl ! q] else es"
  have n: "nat (qsize tbl) = length (packet tbl)" using assms by (simp add: queue_inv_def)
  have "for_loop (length (packet tbl)) 0 (static_entry tbl) es =
      Inr (fold ?g [0..<0 + length (packet tbl)] es)"
    by (rule for_loop_pure) (simp add: static_entry_def queue_getidunsafe_inv [OF assms])
  moreover have "fold ?g [0..<n] es = es @ filter (\<lambda>e. \<not> dynamic e) (take n (packet tbl))"
    if "n \<le> length (packet tbl)" for n
    using that by (induction n) (auto simp: take_Suc_conv_app_nth)
  ultimately show ?thesis by (simp add: n)
qed

section \<open>Sorting and refilling\<close>

lemma mset_qsort_merge [simp]: "mset (qsort_merge cmp xs ys) = mset xs + mset ys"
  by (induction cmp xs ys rule: qsort_merge.induct) auto

lemma mset_qsort [simp]: "mset (qsort cmp xs) = mset xs"
proof (induction cmp xs rule: qsort.induct)
  case (1 cmp xs)
  have "mset (take (length xs div 2) xs) + mset (drop (length xs div 2) xs) = mset xs"
    by (metis append_take_drop_id mset_append)
  with 1 show ?case by (subst qsort.simps) simp
qed

lemma set_qsort [simp]: "set (qsort cmp xs) = set xs"
  by (metis mset_qsort set_mset_mset)

lemma sorted_qsort_merge:
  "sorted (map netmask xs) \<Longrightarrow> sorted (map netmask ys) \<Longrightarrow>
   sorted (map netmask (qsort_merge cmpfunc xs ys))"
proof (induction cmpfunc xs ys rule: qsort_merge.induct)
  case (3 x xs y ys)
  have "set (qsort_merge cmpfunc as bs) = set as \<union> set bs" for as bs :: "rtable_entry list"
    by (metis mset_qsort_merge set_mset_mset set_mset_union)
  with 3 show ?case by (auto simp: cmpfunc_def)
qed simp_all

lemma sorted_qsort: "sorted (map netmask (qsort cmpfunc xs))"
proof (induction xs rule: length_induct)
  case (1 xs)
  show ?case
  proof (cases "length xs \<le> 1")
    case True
    then show ?thesis by (cases xs) (auto simp: qsort.simps)
  next
    case False
    then have "length (take (length xs div 2) xs) < length xs"
      "length (drop (length xs div 2) xs) < length xs" by auto
    with 1 False show ?thesis
      by (subst qsort.simps) (simp add: sorted_qsort_merge del: length_take length_drop)
  qed
qed

fun dedupe :: "('a \<Rightarrow> 'a \<Rightarrow> bool) \<Rightarrow> 'a list \<Rightarrow> 'a list \<Rightarrow> 'a list" where
  "dedupe eq [] acc = acc"
| "dedupe eq (e # es) acc =
     dedupe eq es (if \<exists>y\<in>set acc. eq y e then acc else acc @ [e])"

lemma set_dedupe:
  assumes "\<And>x y. eq x y \<Longrightarrow> x = y"
  shows "set (dedupe eq es acc) = set acc \<union> set es"
proof (induction es arbitrary: acc)
  case (Cons e es)
  have "e \<in> set acc" if "y \<in> set acc" "eq y e" for y using assms that by blast
  with Cons show ?case by auto
qed simp

lemma sorted_dedupe:
  "sorted (map f (acc @ es)) \<Longrightarrow> sorted (map f (dedupe eq es acc))"
  by (induction eq es acc rule: dedupe.induct) (auto simp: sorted_append)

lemma queue_existsunsafe_locker [simp]:
  "queue_existsunsafe eq (q\<lparr>locker := b\<rparr>) x = queue_existsunsafe eq q x"
proof -
  have "exists_from eq (q\<lparr>locker := b\<rparr>) x i = exists_from eq q x i" for i
  proof (induction "nat (qsize q - i)" arbitrary: i rule: less_induct)
    case less
    then show ?case
      by (subst exists_from.simps, subst (2) exists_from.simps) (auto simp: less)
  qed
  then show ?thesis by (simp add: queue_existsunsafe_def)
qed

lemma queue_add_unsafe_locker [simp]:
  "queue_add_unsafe (q\<lparr>locker := b\<rparr>) x s = (queue_add_unsafe q x s)\<lparr>locker := b\<rparr>"
  by (simp add: queue_add_unsafe_def Let_def)

lemma queue_purge_unsafe_locker:
  "queue_purge_unsafe ((queue_of s xs)\<lparr>locker := b\<rparr>) = (queue_of s [])\<lparr>locker := b\<rparr>"
proof (induction xs)
  case Nil
  then show ?case by (simp add: queue_purge_unsafe.simps)
next
  case (Cons x xs)
  have "queue_removeunsafe ((queue_of s (x # xs))\<lparr>locker := b\<rparr>) 0 = (queue_of s xs)\<lparr>locker := b\<rparr>"
    using remove_cell_of [of 0 "x # xs" s]
    by (simp add: queue_removeunsafe_def remove_cell_def Let_def queue_of_def)
  with Cons show ?case
    by (subst queue_purge_unsafe.simps) (simp add: queue_getidunsafe_def)
qed

lemma refill_of:
  "refill E es ((queue_of sizeof_rtable_entry acc)\<lparr>locker := b\<rparr>) =
     (queue_of sizeof_rtable_entry (dedupe (memcmp_rtable E) es acc))\<lparr>locker := b\<rparr>"
proof (induction es arbitrary: acc)
  case Nil
  then show ?case by (simp add: refill_def)
next
  case (Cons e es)
  have "queue_existsunsafe (memcmp_rtable E) (queue_of sizeof_rtable_entry acc) e = -1
      \<longleftrightarrow> \<not> (\<exists>y\<in>set acc. memcmp_rtable E y e)"
  proof (cases "first_match (\<lambda>y. memcmp_rtable E y e) acc")
    case None
    then show ?thesis by (simp add: queue_existsunsafe_of) (simp add: first_match_None)
  next
    case (Some r)
    then obtain j y where r: "r = (j, y)" by force
    with Some have "y \<in> set acc" "memcmp_rtable E y e" by (auto simp: first_match_Some)
    with Some r show ?thesis by (auto simp: queue_existsunsafe_of)
  qed
  with Cons show ?case
    by (simp add: refill_def queue_add_unsafe_of)
qed

section \<open>Locking the neighbour tables\<close>

definition lock_intfs :: "bool \<Rightarrow> nat \<Rightarrow> interface list \<Rightarrow> interface list" where
  "lock_intfs b n xs =
     map (\<lambda>i. if i < n then (xs ! i)\<lparr>neighbours := (neighbours (xs ! i))\<lparr>locker := b\<rparr>\<rparr> else xs ! i)
       [0..<length xs]"

lemma length_lock_intfs [simp]: "length (lock_intfs b n xs) = length xs"
  by (simp add: lock_intfs_def)

lemma nth_lock_intfs:
  "i < length xs \<Longrightarrow> lock_intfs b n xs ! i =
     (if i < n then (xs ! i)\<lparr>neighbours := (neighbours (xs ! i))\<lparr>locker := b\<rparr>\<rparr> else xs ! i)"
  by (simp add: lock_intfs_def)

lemma lock_intfs_0 [simp]: "lock_intfs b 0 xs = xs"
  by (simp add: lock_intfs_def map_nth)

lemma lock_intfs_Suc:
  assumes "n < length xs"
  shows "(lock_intfs b n xs)[n := (lock_intfs b n xs ! n)
      \<lparr>neighbours := (neighbours (lock_intfs b n xs ! n))\<lparr>locker := b\<rparr>\<rparr>] = lock_intfs b (Suc n) xs"
  using assms by (intro nth_equalityI) (auto simp: nth_lock_intfs nth_list_update)

definition unlocked_intfs :: "world \<Rightarrow> bool" where
  "unlocked_intfs w \<longleftrightarrow> (\<forall>i<num_interfaces w. \<not> locker (neighbours (interface w ! i)))"

lemma djikstra_lock_router_eq:
  assumes "unlocked_intfs w" and "num_interfaces w \<le> length (interface w)"
  shows "djikstra_lock_router w =
           Inr (w\<lparr>interface := lock_intfs True (num_interfaces w) (interface w)\<rparr>)"
proof -
  let ?I = "\<lambda>n w'. w' = w\<lparr>interface := lock_intfs True n (interface w)\<rparr>"
  have "safe {} (?I (0 + num_interfaces w)) (djikstra_lock_router w)"
    unfolding djikstra_lock_router_def
    by (rule for_loop_safe [where I = ?I])
       (use assms in \<open>auto simp: interface_at_def nth_lock_intfs queue_lockall_def
          unlocked_intfs_def set_neighbours_def simp flip: lock_intfs_Suc\<close>)
  then show ?thesis by (simp add: safe_empty_iff)
qed

lemma djikstra_unlock_router_eq:
  assumes "num_interfaces w \<le> length (interface w)"
  shows "djikstra_unlock_router w =
           Inr (w\<lparr>interface := lock_intfs False (num_interfaces w) (interface w)\<rparr>)"
proof -
  let ?I = "\<lambda>n w'. w' = w\<lparr>interface := lock_intfs False n (interface w)\<rparr>"
  have "safe {} (?I (0 + num_interfaces w)) (djikstra_unlock_router w)"
    unfolding djikstra_unlock_router_def
    by (rule for_loop_safe [where I = ?I])
       (use assms in \<open>auto simp: interface_at_def nth_lock_intfs queue_unlockall_def
          set_neighbours_def simp flip: lock_intfs_Suc\<close>)
  then show ?thesis by (simp add: safe_empty_iff)
qed

lemma unlock_lock_intfs:
  assumes "\<forall>i<n. \<not> locker (neighbours (xs ! i))" and "n \<le> length xs"
  shows "lock_intfs False n (lock_intfs True n xs) = xs"
  using assms by (intro nth_equalityI) (auto simp: nth_lock_intfs)

text \<open>Locking does not change the abstract database.\<close>

lemma own_link_neighbours [simp]:
  "own_subnet (x\<lparr>neighbours := q\<rparr>) = own_subnet x" "own_link (x\<lparr>neighbours := q\<rparr>) = own_link x"
  by (simp_all add: own_subnet_def own_link_def)

lemma own_lsa_neighbours [simp]: "own_lsa w (x\<lparr>neighbours := q\<rparr>) = own_lsa w x"
  by (simp add: own_lsa_def)

lemma own_lsa_world:
  "pw_router w' = pw_router w \<Longrightarrow> own_lsa w' x = own_lsa w x"
  by (simp add: own_lsa_def)

definition locked_world :: "world \<Rightarrow> world" where
  "locked_world w =
     w\<lparr>djkstra_locker := True, interface := lock_intfs True (num_interfaces w) (interface w)\<rparr>"

lemma locked_world_sel [simp]:
  "num_interfaces (locked_world w) = num_interfaces w"
  "ip_table (locked_world w) = ip_table w"
  "pw_router (locked_world w) = pw_router w"
  by (simp_all add: locked_world_def)

lemma locked_world_intf:
  "intfs_wf w \<Longrightarrow> i < num_interfaces w \<Longrightarrow> interface (locked_world w) ! i =
     (interface w ! i)\<lparr>neighbours := (neighbours (interface w ! i))\<lparr>locker := True\<rparr>\<rparr>"
  by (simp add: locked_world_def nth_lock_intfs intfs_wf_def)

lemma intfs_wf_locked: "intfs_wf w \<Longrightarrow> intfs_wf (locked_world w)"
  by (auto simp: intfs_wf_def locked_world_def nth_lock_intfs)

lemma advertised_locked: "intfs_wf w \<Longrightarrow> advertised (locked_world w) = advertised w"
  unfolding advertised_def
  by (intro arg_cong [of _ _ Union] image_cong)
     (auto simp: intf_lsas_def locked_world_intf own_lsa_world [of "locked_world w" w])

lemma hops_locked: "intfs_wf w \<Longrightarrow> hops (locked_world w) = hops w"
  by (simp add: hops_def locked_world_intf)

lemma intf_dist_locked:
  "intfs_wf w \<Longrightarrow> i < num_interfaces w \<Longrightarrow> intf_dist (locked_world w) i = intf_dist w i"
  by (simp add: intf_dist_def fun_eq_iff advertised_locked locked_world_intf)

lemma best_intf_locked: "intfs_wf w \<Longrightarrow> best_intf (locked_world w) j l = best_intf w j l"
  unfolding best_intf_def by (auto simp: intf_dist_locked)

lemma spf_routes_locked:
  assumes "intfs_wf w"
  shows "spf_routes (locked_world w) L = spf_routes w L"
proof -
  have "spf_route (locked_world w) j l = spf_route w j l
      \<and> own_subnet (interface (locked_world w) ! j) = own_subnet (interface w ! j)"
    if "best_intf w j l" for j l
    using that assms
    by (auto simp: spf_route_def best_intf_def locked_world_intf intf_dist_locked)
  then show ?thesis
    unfolding spf_routes_def best_intf_locked [OF assms] by force
qed

section \<open>The whole computation\<close>

definition recompute_state :: "world \<Rightarrow> bool" where
  "recompute_state w \<longleftrightarrow>
     intfs_wf w \<and> unlocked_intfs w \<and> \<not> djkstra_locker w
     \<and> table_inv sizeof_rtable_entry (ip_table w)"

definition recompute_ready :: "world \<Rightarrow> bool" where
  "recompute_ready w \<longleftrightarrow>
     recompute_state w \<and> int (card (link_of ` advertised w)) \<le> INT_MAX"

definition memcmp_sound :: "env \<Rightarrow> bool" where
  "memcmp_sound E \<longleftrightarrow> (\<forall>x y. memcmp_rtable E x y \<longrightarrow> x = y)"

definition static_routes :: "world \<Rightarrow> rtable_entry list" where
  "static_routes w = filter (\<lambda>e. \<not> dynamic e) (packet (ip_table w))"

text \<open>Up to the point where the table is locked: the list of dynamic entries.\<close>

definition djikstra_entries :: "world \<Rightarrow> rtable_entry list result" where
  "djikstra_entries w =
     bindr (djikstra_gather w) (\<lambda>st.
     bindr (populate_graph st) (\<lambda>graph.
     bindr (djikstra_select w st graph) (\<lambda>sel.
       for_loop (nat (qsize (subnets st))) 0 (dynamic_entry w st sel) [])))"

lemma djikstra_entries_safe:
  assumes wf: "intfs_wf w" and V: "int (card (link_of ` advertised w)) \<le> INT_MAX"
  shows "safe {} (\<lambda>es. set es = spf_routes w (link_of ` advertised w)) (djikstra_entries w)"
proof -
  obtain st where st: "djikstra_gather w = Inr st" "gath (advertised w) (hops w) st"
    using djikstra_gather_safe [OF wf] by (auto simp: safe_empty_iff)
  obtain ts where ts: "topology st = queue_of sizeof_pwospf_lsa_dj ts" "set ts = advertised w"
    using st(2) by (auto simp: gath_def elim!: as_setE)
  obtain ss where ss: "subnets st = queue_of sizeof_d_link ss" "distinct ss"
      "set ss = link_of ` advertised w"
    using st(2) by (auto simp: gath_def elim!: as_setE)
  have hops: "routers st = hops w" using st(2) by (simp add: gath_def)
  have len: "int (length ss) \<le> INT_MAX" using V ss(2,3) by (metis distinct_card)
  have sub: "link_of ` set ts \<subseteq> set ss" using ts ss by simp
  obtain g where g: "populate_graph st = Inr g" "matrix_of ss (joined (advertised w)) g"
    using populate_graph_safe [OF ts(1) ss(1,2) sub] ts(2) by (auto simp: safe_empty_iff)
  obtain sel where sel: "djikstra_select w st g = Inr sel"
      "selected w ss (num_interfaces w) sel"
    using djikstra_select_safe [OF ss(1) hops ss(2,3) len g(2) wf] by (auto simp: safe_empty_iff)
  show ?thesis
    using dynamic_entries_safe [OF ss(1) wf sel(2)] st g sel ss
    by (simp add: djikstra_entries_def)
qed

lemma unlocked_world:
  "\<not> djkstra_locker w \<Longrightarrow>
   (locked_world w)\<lparr>ip_table := t, interface := interface w, djkstra_locker := False\<rparr> = w\<lparr>ip_table := t\<rparr>"
  by (cases w) (simp add: locked_world_def)

lemma djikstra_recompute_of:
  assumes rdy: "recompute_state w" and es: "djikstra_entries (locked_world w) = Inr es"
  shows "djikstra_recompute E w =
     (if es @ static_routes w = [] then Inl Uninit
      else Inr (w\<lparr>ip_table := queue_of sizeof_rtable_entry
             (dedupe (memcmp_rtable E) (qsort cmpfunc (es @ static_routes w)) [])\<rparr>))"
proof -
  let ?w = "locked_world w"
  let ?tbl = "(queue_of sizeof_rtable_entry (packet (ip_table w)))\<lparr>locker := True\<rparr>"
  let ?new = "queue_of sizeof_rtable_entry
      (dedupe (memcmp_rtable E) (qsort cmpfunc (es @ static_routes w)) [])"
  have wf: "intfs_wf w" and un: "unlocked_intfs w" and nl: "\<not> djkstra_locker w"
    and tbl: "ip_table w = queue_of sizeof_rtable_entry (packet (ip_table w))"
    using rdy by (simp_all add: recompute_state_def table_inv_iff [symmetric])
  have n: "num_interfaces w \<le> length (interface w)" using wf by (simp add: intfs_wf_def)
  have lock: "djikstra_lock_router (w\<lparr>djkstra_locker := True\<rparr>) = Inr ?w"
    using djikstra_lock_router_eq [of "w\<lparr>djkstra_locker := True\<rparr>"] un n
    by (simp add: unlocked_intfs_def locked_world_def)
  have lt: "queue_lockall (ip_table w) = Inr ?tbl"
    by (subst tbl) (simp add: queue_lockall_def)
  have static: "for_loop (nat (queue_getcurrentsize ?tbl)) 0 (static_entry ?tbl) es =
      Inr (es @ static_routes w)"
    using static_entries [of ?tbl es] by (simp add: queue_getcurrentsize_def static_routes_def)
  have fill: "queue_unlockall (refill E xs (queue_purge_unsafe ?tbl)) =
      queue_of sizeof_rtable_entry (dedupe (memcmp_rtable E) xs [])" for xs
    by (simp add: queue_purge_unsafe_locker refill_of queue_unlockall_def)
  have unlock: "djikstra_unlock_router (?w\<lparr>ip_table := t\<rparr>) =
      Inr (?w\<lparr>ip_table := t, interface := interface w\<rparr>)" for t
    using djikstra_unlock_router_eq [of "?w\<lparr>ip_table := t\<rparr>"] n un
    by (simp add: locked_world_def unlock_lock_intfs unlocked_intfs_def)
  have "djikstra_recompute E w =
      bindr (djikstra_entries ?w) (\<lambda>es.
        bindr (queue_lockall (ip_table ?w)) (\<lambda>rtable.
        bindr (for_loop (nat (queue_getcurrentsize rtable)) 0 (static_entry rtable) es) (\<lambda>entries.
        let rtable = queue_unlockall (refill E (qsort cmpfunc entries) (queue_purge_unsafe rtable))
        in need (entries \<noteq> []) Uninit
          (bindr (djikstra_unlock_router (?w\<lparr>ip_table := rtable\<rparr>)) (\<lambda>w.
            Inr (w\<lparr>djkstra_locker := False\<rparr>))))))"
    using nl by (simp add: djikstra_recompute_def lock djikstra_entries_def bindr_assoc)
  also have "\<dots> = need (es @ static_routes w \<noteq> []) Uninit
      (Inr (?w\<lparr>ip_table := ?new, interface := interface w, djkstra_locker := False\<rparr>))"
    by (simp only: es lt static fill unlock locked_world_sel bindr.simps Let_def)
  also have "\<dots> = (if es @ static_routes w = [] then Inl Uninit else Inr (w\<lparr>ip_table := ?new\<rparr>))"
    unfolding unlocked_world [OF nl] by (simp add: need_def)
  finally show ?thesis .
qed

lemma djikstra_recompute_routes:
  assumes rdy: "recompute_ready w" and mc: "memcmp_sound E"
    and ne: "set (static_routes w) \<union> spf_routes w (link_of ` advertised w) \<noteq> {}"
  shows "\<exists>es. djikstra_recompute E w = Inr (w\<lparr>ip_table := queue_of sizeof_rtable_entry es\<rparr>)
     \<and> set es = set (static_routes w) \<union> spf_routes w (link_of ` advertised w)
     \<and> sorted (map netmask es)"
proof -
  have st: "recompute_state w" and wf: "intfs_wf w"
    and V: "int (card (link_of ` advertised w)) \<le> INT_MAX"
    using rdy by (simp_all add: recompute_ready_def recompute_state_def)
  obtain es where es: "djikstra_entries (locked_world w) = Inr es"
      "set es = spf_routes w (link_of ` advertised w)"
    using djikstra_entries_safe [OF intfs_wf_locked [OF wf]] V
    by (auto simp: safe_empty_iff advertised_locked [OF wf] spf_routes_locked [OF wf])
  let ?es = "dedupe (memcmp_rtable E) (qsort cmpfunc (es @ static_routes w)) []"
  have "es @ static_routes w \<noteq> []" using ne es(2) by auto
  then have "djikstra_recompute E w = Inr (w\<lparr>ip_table := queue_of sizeof_rtable_entry ?es\<rparr>)"
    using djikstra_recompute_of [OF st es(1)] by simp
  moreover have "set ?es = set (static_routes w) \<union> spf_routes w (link_of ` advertised w)"
    using mc es(2) by (subst set_dedupe) (auto simp: memcmp_sound_def)
  moreover have "sorted (map netmask ?es)"
    by (rule sorted_dedupe) (simp add: sorted_qsort)
  ultimately show ?thesis by blast
qed

lemma djikstra_recompute_empty:
  assumes rdy: "recompute_ready w"
    and "set (static_routes w) \<union> spf_routes w (link_of ` advertised w) = {}"
  shows "djikstra_recompute E w = Inl Uninit"
proof -
  have st: "recompute_state w" and wf: "intfs_wf w"
    and V: "int (card (link_of ` advertised w)) \<le> INT_MAX"
    using rdy by (simp_all add: recompute_ready_def recompute_state_def)
  obtain es where es: "djikstra_entries (locked_world w) = Inr es"
      "set es = spf_routes w (link_of ` advertised w)"
    using djikstra_entries_safe [OF intfs_wf_locked [OF wf]] V
    by (auto simp: safe_empty_iff advertised_locked [OF wf] spf_routes_locked [OF wf])
  then show ?thesis using djikstra_recompute_of [OF st es(1)] assms(2) by simp
qed

section \<open>Safety without a bound on the size\<close>

text \<open>
  Whatever the number of advertised subnets, the computation returns, every new entry
  leaves through an interface of the router, and the static entries stay.
\<close>

definition sel_ok :: "nat \<Rightarrow> nat \<Rightarrow> dj_select \<Rightarrow> bool" where
  "sel_ok V n sel \<longleftrightarrow> sel_len V sel \<and>
     (\<forall>x<V. final sel ! x \<le> INT_MAX \<and>
        (dj_intf sel ! x = INT_MAX \<or> (\<exists>j<n. dj_intf sel ! x = int j \<and> rips sel ! x \<noteq> None)))"

lemma sel_ok_at:
  "sel_ok V n sel \<longleftrightarrow> sel_len V sel \<and>
     (\<forall>x<V. case sel_at sel x of (f, k, ip) \<Rightarrow>
        f \<le> INT_MAX \<and> (k = INT_MAX \<or> (\<exists>j<n. k = int j \<and> ip \<noteq> None)))"
  by (simp add: sel_ok_def sel_at_def)

lemma select_interface_ok:
  assumes st: "subnets st = queue_of sizeof_d_link ss" and link: "own_link (interface w ! i) \<in> set ss"
    and g: "unit_matrix g (length ss)" and i: "i < length (interface w)"
    and sel: "sel_ok (length ss) i sel"
  shows "safe {} (sel_ok (length ss) (Suc i)) (select_interface w st g i sel)"
proof -
  let ?intf = "interface w ! i"
  obtain s where s: "s < length ss"
      "queue_existsunsafe (=) (queue_of sizeof_d_link ss) (own_link ?intf) = int s"
    by (rule queue_existsunsafe_index [OF link])
  have loop: "safe {} (sel_ok (length ss) (Suc i))
      (for_loop (length ss) 0 (select_subnet st ?intf i dist) sel)"
    if d: "length dist = length ss \<and> (\<forall>v<length ss. 0 \<le> dist ! v \<and> dist ! v \<le> INT_MAX)" for dist
  proof (rule safe_mono [OF select_subnet_loop [OF st, of sel dist ?intf i]])
    show "sel_len (length ss) sel" using sel by (simp add: sel_ok_def)
    fix sel' assume a: "sel_len (length ss) sel' \<and> (\<forall>x<length ss. sel_at sel' x =
        (if dist ! x < final sel ! x then taken st ?intf i dist ss x else sel_at sel x))"
    have "case sel_at sel' x of (f, k, ip) \<Rightarrow>
        f \<le> INT_MAX \<and> (k = INT_MAX \<or> (\<exists>j<Suc i. k = int j \<and> ip \<noteq> None))" if "x < length ss" for x
    proof (cases "dist ! x < final sel ! x")
      case True
      with a d that show ?thesis by (simp add: taken_def)
    next
      case False
      have "case sel_at sel x of (f, k, ip) \<Rightarrow>
          f \<le> INT_MAX \<and> (k = INT_MAX \<or> (\<exists>j<i. k = int j \<and> ip \<noteq> None))"
        using sel that by (simp add: sel_ok_at)
      with False a that show ?thesis by (auto simp: less_Suc_eq)
    qed
    with a show "sel_ok (length ss) (Suc i) sel'" by (simp add: sel_ok_at)
  qed simp
  have "safe {} (sel_ok (length ss) (Suc i))
      (bindr (djikstra_from g (length ss) s) (\<lambda>dist.
         for_loop (length ss) 0 (select_subnet st ?intf i dist) sel))"
    by (rule safe_bindr [OF djikstra_from_returns [OF g s(1)] loop])
  then show ?thesis
    using st s i by (simp add: select_interface_def interface_at_def Let_def)
qed

lemma djikstra_select_ok:
  assumes st: "subnets st = queue_of sizeof_d_link ss" and wf: "intfs_wf w"
    and ss: "set ss = link_of ` advertised w" and g: "unit_matrix g (length ss)"
  shows "safe {} (sel_ok (length ss) (num_interfaces w)) (djikstra_select w st g)"
proof -
  let ?s0 = "\<lparr>final = replicate (length ss) INT_MAX, dj_intf = replicate (length ss) INT_MAX,
            rips = replicate (length ss) None\<rparr>"
  have "safe {} (sel_ok (length ss) (0 + num_interfaces w))
      (for_loop (num_interfaces w) 0 (select_interface w st g) ?s0)"
  proof (rule for_loop_safe)
    show "sel_ok (length ss) 0 ?s0" by (simp add: sel_ok_def sel_len_def)
    show "safe {} (sel_ok (length ss) (Suc i)) (select_interface w st g i sel)"
      if i: "i < 0 + num_interfaces w" and sel: "sel_ok (length ss) i sel" for i sel
    proof (rule select_interface_ok [OF st _ g _ sel])
      have "link_of (own_lsa w (interface w ! i)) \<in> set ss"
        using i ss by (auto simp: advertised_def intf_lsas_def)
      then show "own_link (interface w ! i) \<in> set ss"
        by (simp add: link_of_def own_lsa_def own_link_def)
      show "i < length (interface w)" using i wf by (simp add: intfs_wf_def)
    qed
  qed
  then show ?thesis using st by (simp add: djikstra_select_def Let_def)
qed

definition routes_via :: "nat \<Rightarrow> rtable_entry list \<Rightarrow> bool" where
  "routes_via n es \<longleftrightarrow> (\<forall>e\<in>set es. \<exists>i<n. rt_interface e = Some i)"

lemma dynamic_entry_ok:
  assumes st: "subnets st = queue_of sizeof_d_link ss" and wf: "intfs_wf w"
    and sel: "sel_ok (length ss) (num_interfaces w) sel" and q: "q < length ss"
    and es: "routes_via (num_interfaces w) es"
  shows "safe {} (routes_via (num_interfaces w)) (dynamic_entry w st sel q es)"
proof -
  have few: "int (num_interfaces w) < INT_MAX"
    using wf by (auto simp: intfs_wf_def INT_MAX_def ROUTER_MAX_INTERFACES_def)
  consider "dj_intf sel ! q = INT_MAX"
    | j where "j < num_interfaces w" "dj_intf sel ! q = int j" "rips sel ! q \<noteq> None"
    using sel q by (auto simp: sel_ok_def)
  then show ?thesis
  proof cases
    case 1
    with few es show ?thesis by (simp add: dynamic_entry_def)
  next
    case 2
    then obtain ip where "rips sel ! q = Some ip" by auto
    with 2 es wf st q show ?thesis
      by (simp add: dynamic_entry_def queue_getidunsafe_of interface_at_def intfs_wf_def routes_via_def)
  qed
qed

lemma djikstra_entries_ok:
  assumes wf: "intfs_wf w"
  shows "safe {} (routes_via (num_interfaces w)) (djikstra_entries w)"
proof -
  obtain st where st: "djikstra_gather w = Inr st" "gath (advertised w) (hops w) st"
    using djikstra_gather_safe [OF wf] by (auto simp: safe_empty_iff)
  obtain ts where ts: "topology st = queue_of sizeof_pwospf_lsa_dj ts" "set ts = advertised w"
    using st(2) by (auto simp: gath_def elim!: as_setE)
  obtain ss where ss: "subnets st = queue_of sizeof_d_link ss" "distinct ss"
      "set ss = link_of ` advertised w"
    using st(2) by (auto simp: gath_def elim!: as_setE)
  have sub: "link_of ` set ts \<subseteq> set ss" using ts ss by simp
  obtain g where g: "populate_graph st = Inr g" "matrix_of ss (joined (advertised w)) g"
    using populate_graph_safe [OF ts(1) ss(1,2) sub] ts(2) by (auto simp: safe_empty_iff)
  have um: "unit_matrix g (length ss)" using g(2) by (auto simp: unit_matrix_def matrix_of_def)
  obtain sel where sel: "djikstra_select w st g = Inr sel"
      "sel_ok (length ss) (num_interfaces w) sel"
    using djikstra_select_ok [OF ss(1) wf ss(3) um] by (auto simp: safe_empty_iff)
  have "safe {} (routes_via (num_interfaces w))
      (for_loop (length ss) 0 (dynamic_entry w st sel) [])"
    by (rule for_loop_safe [where I = "\<lambda>_. routes_via (num_interfaces w)"])
       (simp_all add: routes_via_def [of _ "[]"] dynamic_entry_ok [OF ss(1) wf sel(2)])
  then show ?thesis using st g sel ss by (simp add: djikstra_entries_def)
qed

lemma djikstra_recompute_safe:
  assumes st: "recompute_state w" and mc: "memcmp_sound E"
    and via: "routes_via (num_interfaces w) (packet (ip_table w))" and ne: "static_routes w \<noteq> []"
  shows "\<exists>es. djikstra_recompute E w = Inr (w\<lparr>ip_table := queue_of sizeof_rtable_entry es\<rparr>)
     \<and> routes_via (num_interfaces w) es \<and> set (static_routes w) \<subseteq> set es"
proof -
  have wf: "intfs_wf w" using st by (simp add: recompute_state_def)
  obtain es where es: "djikstra_entries (locked_world w) = Inr es"
      "routes_via (num_interfaces w) es"
    using djikstra_entries_ok [OF intfs_wf_locked [OF wf]] by (auto simp: safe_empty_iff)
  let ?es = "dedupe (memcmp_rtable E) (qsort cmpfunc (es @ static_routes w)) []"
  have "djikstra_recompute E w = Inr (w\<lparr>ip_table := queue_of sizeof_rtable_entry ?es\<rparr>)"
    using djikstra_recompute_of [OF st es(1)] ne by simp
  moreover have set: "set ?es = set es \<union> set (static_routes w)"
    using mc by (subst set_dedupe) (auto simp: memcmp_sound_def)
  moreover have "routes_via (num_interfaces w) ?es"
    using es(2) via unfolding routes_via_def set by (auto simp: static_routes_def)
  ultimately show ?thesis by (intro exI [of _ ?es]) simp
qed

end
