(* ===== verification/Invariant.thy ===== *)
theory Invariant
  imports Router DjikstraRoutes
begin

text \<open>
  The invariant of the running router and its preservation.  \<open>wok L n w\<close>: the router
  has \<open>n\<close> interfaces, every table is in normal form and holds entries of the size its
  clients assert, the neighbour tables locked are exactly those of \<open>L\<close>, no stored
  link-state block is dangling, every route leaves through an interface of the
  router, a static route exists, and every packet that waits for an ARP reply is a
  complete frame.

  Each operation of the packet path keeps \<open>wok\<close>.  The faults it can end in are
  collected in \<open>wire_faults\<close>: a read outside a received frame, and the null pointer a
  link-state packet with a negative count leads to.  In particular no assertion
  fails, no mutex is locked twice, nothing is freed twice or used after it was freed,
  and \<open>die\<close> is not called.
\<close>

section \<open>The invariant\<close>

definition frame_ok :: "nat \<Rightarrow> packet_info \<Rightarrow> bool" where
  "frame_ok n pi \<longleftrightarrow>
     14 \<le> unat (pi_len pi) \<and> unat (pi_len pi) \<le> length (pi_packet pi) \<and>
     (case pi_interface pi of
        Some i \<Rightarrow> i < n
      | None \<Rightarrow> 34 \<le> unat (pi_len pi) \<and> ip4_protocol (pi_packet pi) = IP_TYPE_TCP)"

definition buffer_ok :: "nat \<Rightarrow> iparp_buffer_entry \<Rightarrow> bool" where
  "buffer_ok n b \<longleftrightarrow>
     frame_ok n (ib_packet_info b)
     \<and> ib_len b = int (unat (pi_len (ib_packet_info b))) + sizeof_packet_info
     \<and> (\<exists>i<n. ib_intf b = Some i)"

definition wok :: "nat set \<Rightarrow> nat \<Rightarrow> world \<Rightarrow> bool" where
  "wok L n w \<longleftrightarrow>
     num_interfaces w = n \<and> intfs_wf w
     \<and> (\<forall>i<n. locker (neighbours (interface w ! i)) \<longleftrightarrow> i \<in> L)
     \<and> \<not> djkstra_locker w
     \<and> table_inv sizeof_rtable_entry (ip_table w)
     \<and> table_inv sizeof_arp_cache_entry (arp_cache w)
     \<and> table_inv sizeof_iparp_buffer_entry (iparp_buffer w)
     \<and> table_inv sizeof_dns_db_entry (dns_db w)
     \<and> routes_via n (packet (ip_table w)) \<and> static_routes w \<noteq> []
     \<and> (\<forall>b\<in>set (packet (iparp_buffer w)). buffer_ok n b)"

definition world_ok :: "world \<Rightarrow> bool" where
  "world_ok w \<longleftrightarrow> wok {} (num_interfaces w) w"

definition wire_faults :: "fault set" where
  "wire_faults = {OutOfBounds, NullDeref}"

lemma wire_faults_mem [simp]:
  "OutOfBounds \<in> wire_faults" "NullDeref \<in> wire_faults"
  "AssertFail \<notin> wire_faults" "Deadlock \<notin> wire_faults" "Die \<notin> wire_faults"
  "UseAfterFree \<notin> wire_faults" "InvalidFree \<notin> wire_faults" "Uninit \<notin> wire_faults"
  "OutOfFuel \<notin> wire_faults"
  by (simp_all add: wire_faults_def)

text \<open>Fields the invariant does not look at.\<close>

lemma wok_frame [simp]:
  "wok L n (w\<lparr>sent := a\<rparr>) = wok L n w" "wok L n (w\<lparr>ticks := b\<rparr>) = wok L n w"
  "wok L n (w\<lparr>hid := c\<rparr>) = wok L n w" "wok L n (w\<lparr>ip_id := d\<rparr>) = wok L n w"
  "wok L n (w\<lparr>ping_list := e\<rparr>) = wok L n w" "wok L n (w\<lparr>transport_in := f\<rparr>) = wok L n w"
  "wok L n (w\<lparr>last_lsu := g\<rparr>) = wok L n w"
  by (simp_all add: wok_def intfs_wf_def static_routes_def)

lemma wokD:
  assumes "wok L n w"
  shows "num_interfaces w = n" "n \<le> length (interface w)" "length (interface w) = 4"
    "\<And>i. i < n \<Longrightarrow> queue_inv sizeof_pwospf_list_entry (neighbours (interface w ! i))"
    "\<And>i e. i < n \<Longrightarrow> e \<in> set (packet (neighbours (interface w ! i))) \<Longrightarrow> lsu_ok e"
    "\<And>i. i < n \<Longrightarrow> locker (neighbours (interface w ! i)) \<longleftrightarrow> i \<in> L"
    "\<And>b. b \<in> set (packet (iparp_buffer w)) \<Longrightarrow> buffer_ok n b"
    "table_inv sizeof_rtable_entry (ip_table w)"
    "table_inv sizeof_arp_cache_entry (arp_cache w)"
    "table_inv sizeof_iparp_buffer_entry (iparp_buffer w)"
    "table_inv sizeof_dns_db_entry (dns_db w)"
  using assms by (auto simp: wok_def intfs_wf_def ROUTER_MAX_INTERFACES_def)

lemma world_okI: "wok {} n w \<Longrightarrow> world_ok w"
  using wokD(1) [of "{}" n w] by (simp add: world_ok_def)

lemma world_update_same [simp]:
  "(w :: world)\<lparr>arp_cache := arp_cache w\<rparr> = w" "(w :: world)\<lparr>ip_table := ip_table w\<rparr> = w"
  "(w :: world)\<lparr>dns_db := dns_db w\<rparr> = w" "(w :: world)\<lparr>iparp_buffer := iparp_buffer w\<rparr> = w"
  by simp_all

lemma wok_intf: "wok L n w \<Longrightarrow> i < n \<Longrightarrow> interface_at w (Some i) = Inr (interface w ! i)"
  using wokD(1,2) [of L n w] by (simp add: interface_at_def)

lemma wok_table:
  assumes "wok L n w"
  shows "ip_longestprefixmatch (ip_table w) ip = Inr (lpm (packet (ip_table w)) ip, ip_table w)"
  using wokD(8) [OF assms] ip_longestprefixmatch_of by (metis table_inv_iff)

lemma wok_route:
  assumes "wok L n w" and "lpm (packet (ip_table w)) ip = Some (k, e)"
  shows "\<exists>i<n. rt_interface e = Some i"
  using assms lpm_in_set [OF assms(2)] by (auto simp: wok_def routes_via_def)

lemma wok_arp:
  assumes "wok L n w"
  shows "arp_getcachebyip (arp_cache w) ip =
    Inr (map_option (\<lambda>(i, x). (int i, x)) (first_match (\<lambda>e. arp_ip e = ip) (packet (arp_cache w))),
         arp_cache w)"
  unfolding arp_getcachebyip_def by (rule dq.lookup_law [OF wokD(9) [OF assms]])

lemma wok_locks: "wok {} n w \<Longrightarrow> recompute_state w"
  by (simp add: wok_def recompute_state_def unlocked_intfs_def)

lemma wok_set_neighbours:
  assumes "wok L n w" and "queue_inv sizeof_pwospf_list_entry q"
    and "\<And>e. e \<in> set (packet q) \<Longrightarrow> lsu_ok e" and "i < n"
    and "L' = (if locker q then insert i L else L - {i})"
  shows "wok L' n (set_neighbours i q w)"
  using assms
  by (auto simp: wok_def intfs_wf_def set_neighbours_def static_routes_def nth_list_update
      ROUTER_MAX_INTERFACES_def)

lemma wok_neighbours_same:
  assumes "wok L n w" and "i < n" and "i \<notin> L"
  shows "queue_unlockid (neighbours (interface w ! i)) k = neighbours (interface w ! i)"
    and "set_neighbours i (neighbours (interface w ! i)) w = w"
  using assms wokD(6) [OF assms(1,2)] by (simp_all add: queue_unlockid_def set_neighbours_def)

section \<open>Buffers and frames\<close>

lemma generatechecksum_safe: "safe wire_faults (\<lambda>_. True) (generatechecksum bs n)"
  by (auto simp: generatechecksum_def need_def Let_def)

lemma checksum_fill_safe:
  "safe wire_faults (\<lambda>p'. \<exists>c. p' = put16 off c (put16 off 0 p)) (checksum_fill base off n p)"
  unfolding checksum_fill_def by (rule safe_bindr [OF generatechecksum_safe]) auto

lemma checksum_fill_length:
  "safe wire_faults (\<lambda>p'. length p' = length p) (checksum_fill base off n p)"
  by (rule safe_mono [OF checksum_fill_safe]) auto

lemma malloc_udp_pseudo_header_safe: "safe wire_faults (\<lambda>_. True) (malloc_udp_pseudo_header p)"
  by (auto simp: malloc_udp_pseudo_header_def need_def Let_def)

text \<open>A frame with the interface it belongs to; the form the link-state functions pass on.\<close>

definition on_intf :: "nat \<Rightarrow> packet_info \<Rightarrow> packet_info \<Rightarrow> bool" where
  "on_intf n pi0 pi \<longleftrightarrow> pi_interface pi = pi_interface pi0 \<and> pi_len pi = pi_len pi0
     \<and> length (pi_packet pi) = length (pi_packet pi0)"

lemma frame_ok_on_intf:
  assumes "frame_ok n pi0" and "pi_interface pi0 = Some i" and "on_intf n pi0 pi"
  shows "frame_ok n pi" "pi_interface pi = Some i"
  using assms by (simp_all add: frame_ok_def on_intf_def)

lemma on_intf_refl [simp]: "on_intf n pi pi"
  by (simp add: on_intf_def)

lemma on_intf_trans: "on_intf n a b \<Longrightarrow> on_intf n b c \<Longrightarrow> on_intf n a c"
  by (simp add: on_intf_def)

lemma on_intf_packet [simp]:
  "length p = length (pi_packet pi) \<Longrightarrow> on_intf n pi (pi\<lparr>pi_packet := p\<rparr>)"
  by (simp add: on_intf_def)

lemma ethernet_packet_send_ok:
  assumes "wok L n w" and "14 \<le> unat (pi_len pi)" and "unat (pi_len pi) \<le> length (pi_packet pi)"
  shows "safe wire_faults (\<lambda>(_, pi', w'). wok L n w' \<and> on_intf n pi pi')
           (ethernet_packet_send E (Some i) tm sm ty pi w)"
  using assms by (simp add: ethernet_packet_send_Some Let_def)

lemma arp_send_request_ok:
  assumes "wok L n w" and "i < n"
  shows "safe wire_faults (wok L n) (arp_send_request E (Some i) ip w)"
  using assms arp_send_request_eq [of i w E ip] wokD(2) [OF assms(1)] by simp

lemma buffer_add_ok:
  assumes "wok L n w" and "buffer_ok n b"
  shows "\<exists>q. queue_add (iparp_buffer w) b sizeof_iparp_buffer_entry = Inr q
           \<and> wok L n (w\<lparr>iparp_buffer := q\<rparr>)
           \<and> packet q = packet (iparp_buffer w) @ [b]"
proof -
  obtain q where q: "queue_add (iparp_buffer w) b sizeof_iparp_buffer_entry = Inr q"
      "table_inv sizeof_iparp_buffer_entry q" "packet q = packet (iparp_buffer w) @ [b]"
    using dq.add_law [OF wokD(10) [OF assms(1)], of b] by auto
  then have "wok L n (w\<lparr>iparp_buffer := q\<rparr>)"
    using assms by (auto simp: wok_def intfs_wf_def static_routes_def)
  with q show ?thesis by blast
qed

lemma arp_queue_ippacket_ok:
  assumes ok: "wok L n w" and f: "frame_ok n pi" and i: "i < n"
  shows "safe wire_faults (wok L n)
           (arp_queue_ippacket_for_send_on_arp_request_response E pi (Some i) dest w)"
proof -
  let ?pi = "pi\<lparr>pi_packet := take (unat (pi_len pi)) (pi_packet pi)\<rparr>"
  let ?b = "\<lparr>ib_packet_info = ?pi, reception_time = clock E (ticks w), sent_arps_count = 1,
      ib_len = sizeof_packet_info + int (unat (pi_len pi)), ib_intf = Some i, ib_dest = dest\<rparr>"
  have "u8_at (take (unat (pi_len pi)) (pi_packet pi)) 23 = u8_at (pi_packet pi) 23"
    if "34 \<le> unat (pi_len pi)"
    using that by (simp add: u8_at_def)
  then have "frame_ok n ?pi" using f by (auto simp: frame_ok_def split: option.splits)
  then have "buffer_ok n ?b" using i by (simp add: buffer_ok_def)
  then obtain q where q: "queue_add (iparp_buffer w) ?b sizeof_iparp_buffer_entry = Inr q"
      "wok L n (w\<lparr>iparp_buffer := q\<rparr>)"
    using buffer_add_ok [OF ok] by blast
  have "wok L n (w\<lparr>ticks := Suc (ticks w), iparp_buffer := q\<rparr>)"
    using q(2) wok_frame(2) [of L n "Suc (ticks w)" "w\<lparr>iparp_buffer := q\<rparr>"] by (cases w) simp
  then show ?thesis
    using f q(1) i
    by (simp add: arp_queue_ippacket_for_send_on_arp_request_response_def gettimeofday_def
        frame_ok_def arp_send_request_ok)
qed

section \<open>Link-state output\<close>

lemma wok_nb_get:
  assumes "wok L n w" and "i < n"
  shows "i \<notin> L \<Longrightarrow> queue_getidandlock (neighbours (interface w ! i)) (int k) =
      (if k < length (packet (neighbours (interface w ! i)))
       then Some (packet (neighbours (interface w ! i)) ! k, sizeof_pwospf_list_entry) else None,
       neighbours (interface w ! i))"
    and "queue_getidunsafe (neighbours (interface w ! i)) (int k) =
      (if k < length (packet (neighbours (interface w ! i)))
       then Some (packet (neighbours (interface w ! i)) ! k, sizeof_pwospf_list_entry) else None)"
  using wokD(4,6) [OF assms]
  by (simp_all add: queue_getidandlock_def queue_getidunsafe_def queue_inv_def)

lemma pwospf_reflood_to_ok:
  assumes ok: "wok L n w" and f: "frame_ok n pi" "pi_interface pi = Some j" and i: "i < n"
  shows "safe wire_faults (\<lambda>(pi', w'). wok L n w' \<and> on_intf n pi pi')
           (pwospf_reflood_to E pi i dest w)"
proof -
  let ?p = "put32 26 (if_ip (interface w ! i)) (put32 30 dest (pi_packet pi))"
  have f': "frame_ok n (pi\<lparr>pi_packet := p\<rparr>)" if "length p = length (pi_packet pi)" for p
    using f that by (simp add: frame_ok_def)
  have len: "14 \<le> unat (pi_len pi)" "unat (pi_len pi) \<le> length (pi_packet pi)"
    using f by (simp_all add: frame_ok_def)
  show ?thesis
  proof (cases "first_match (\<lambda>e. arp_ip e = dest) (packet (arp_cache w))")
    case None
    have "safe wire_faults (\<lambda>(pi', w'). wok L n w' \<and> on_intf n pi pi')
        (bindr (arp_queue_ippacket_for_send_on_arp_request_response E (pi\<lparr>pi_packet := ?p\<rparr>)
                  (Some i) dest w) (\<lambda>w. Inr (pi\<lparr>pi_packet := ?p\<rparr>, w)))"
      by (rule safe_bindr [OF arp_queue_ippacket_ok [OF ok f' i]]) simp_all
    with None ok i show ?thesis
      by (simp add: pwospf_reflood_to_def need_def wok_intf [OF ok i] wok_arp [OF ok] Let_def)
  next
    case (Some r)
    then obtain k e where r: "r = (k, e)" by force
    have send: "safe wire_faults (\<lambda>(pi', w'). wok L n w' \<and> on_intf n pi pi')
        (bindr (ethernet_packet_send E (Some i) tm sm ty (pi\<lparr>pi_packet := p\<rparr>) w)
          (\<lambda>(_, pi, w). Inr (pi, w)))" if "length p = length ?p" for p tm sm ty
      by (rule safe_bindr [OF ethernet_packet_send_ok [OF ok]])
         (use len that in \<open>auto simp: on_intf_def\<close>)
    have "safe wire_faults (\<lambda>(pi', w'). wok L n w' \<and> on_intf n pi pi')
        (bindr (checksum_fill 14 24 20 ?p) (\<lambda>p.
          if unat (ip4_ttl p) < 1 then Inr (pi\<lparr>pi_packet := p\<rparr>, w)
          else bindr (ethernet_packet_send E (Some i) (arp_mac e) (if_mac (interface w ! i))
                        (htons ETH_IP_TYPE) (pi\<lparr>pi_packet := p\<rparr>) w) (\<lambda>(_, pi, w). Inr (pi, w))))"
      by (rule safe_bindr [OF checksum_fill_length]) (use ok send in simp)
    with Some r ok i show ?thesis
      by (simp add: pwospf_reflood_to_def need_def wok_intf [OF ok i] wok_arp [OF ok] Let_def
          cong: if_cong)
  qed
qed

lemma reflood_neighbour_ok:
  assumes ok: "wok L n w" and L: "L \<subseteq> {li}" and f: "frame_ok n pi" "pi_interface pi = Some j"
    and i: "i < n"
  shows "safe wire_faults (\<lambda>(pi', w'). wok L n w' \<and> on_intf n pi pi')
           (reflood_neighbour E excluded li i k (pi, w))"
proof -
  have unlock: "safe wire_faults (\<lambda>(pi', w'). wok L n w' \<and> on_intf n pi pi')
      (bindr (pwospf_reflood_to E pi i dest w) (\<lambda>(pi, w). bindr (interface_at w (Some i)) (\<lambda>intf.
         Inr (pi, set_neighbours i (queue_unlockid (neighbours intf) (int k)) w))))"
    if "i \<noteq> li" for dest
  proof (rule safe_bindr [OF pwospf_reflood_to_ok [OF ok f i]])
    have "i \<notin> L" using L that by blast
    then show "safe wire_faults (\<lambda>(pi', w'). wok L n w' \<and> on_intf n pi pi')
        (case a of (pi, w) \<Rightarrow> bindr (interface_at w (Some i)) (\<lambda>intf.
           Inr (pi, set_neighbours i (queue_unlockid (neighbours intf) (int k)) w)))"
      if "case a of (pi', w') \<Rightarrow> wok L n w' \<and> on_intf n pi pi'" for a
      using that i by (auto simp: wok_neighbours_same wok_intf)
  qed
  show ?thesis
  proof (cases "i = li")
    case True
    with pwospf_reflood_to_ok [OF ok f i] ok i show ?thesis
      by (auto simp: reflood_neighbour_def wok_intf wok_nb_get(2))
  next
    case False
    then have "i \<notin> L" using L by blast
    with False unlock ok show ?thesis
      by (simp add: reflood_neighbour_def wok_intf [OF ok i] wok_nb_get(1) [OF ok i]
          wok_neighbours_same(2) [OF ok i])
  qed
qed

lemma reflood_ok:
  assumes ok: "wok L n w" and L: "L \<subseteq> {li}" and f: "frame_ok n pi" "pi_interface pi = Some j"
  shows "safe wire_faults (\<lambda>(pi', w'). wok L n w' \<and> on_intf n pi pi')
           (pwospf_reflood_packetpartiallyunsafe E pi excluded li w)"
proof -
  let ?I = "\<lambda>(pi', w'). wok L n w' \<and> on_intf n pi pi'"
  have nb: "safe wire_faults ?I (reflood_neighbour E excluded li i k st)"
    if "?I st" "i < n" for i k st
  proof -
    obtain pi' w' where st: "st = (pi', w')" by force
    then have "safe wire_faults (\<lambda>(pi'', w''). wok L n w'' \<and> on_intf n pi' pi'')
        (reflood_neighbour E excluded li i k (pi', w'))"
      using that frame_ok_on_intf [OF f] L by (intro reflood_neighbour_ok) auto
    then show ?thesis
      using st that by (auto elim!: safe_mono intro: on_intf_trans)
  qed
  have intf: "safe wire_faults ?I (reflood_interface E excluded li i st)"
    if "?I st" "i < n" for i st
  proof -
    obtain pi' w' where st: "st = (pi', w')" by force
    have "safe wire_faults ?I (for_loop m 0 (reflood_neighbour E excluded li i) (pi', w'))" for m
      by (rule for_loop_safe [where I = "\<lambda>_. ?I"]) (use that st nb in auto)
    moreover have "interface_at w' (Some i) = Inr (interface w' ! i)"
      using st that wok_intf by auto
    ultimately show ?thesis using st by (simp add: reflood_interface_def)
  qed
  show ?thesis
    unfolding pwospf_reflood_packetpartiallyunsafe_def
    by (rule for_loop_safe [where I = "\<lambda>_. ?I"]) (use ok intf wokD(1) [OF ok] in auto)
qed

text \<open>Collecting the advertisements of this router.\<close>

definition topo_ok :: "nat \<Rightarrow> topo \<Rightarrow> bool" where
  "topo_ok n = (\<lambda>(cnt, t, w). wok {} n w \<and> table_inv sizeof_pwospf_lsa t
     \<and> cnt = int (length (packet t)))"

lemma topo_add_ok:
  assumes "table_inv sizeof_pwospf_lsa t" and "cnt = int (length (packet t))"
  shows "safe wire_faults (\<lambda>(cnt, t). table_inv sizeof_pwospf_lsa t \<and> cnt = int (length (packet t)))
           (topo_add l cnt t)"
proof -
  obtain xs where "t = queue_of sizeof_pwospf_lsa xs" using assms table_inv_iff by metis
  with assms show ?thesis by (simp add: topo_add_def queue_add_of)
qed

lemma topo_neighbour_ok:
  assumes st: "topo_ok n st" and i: "i < n"
  shows "safe wire_faults (topo_ok n) (topo_neighbour i k st)"
proof -
  obtain cnt t w where s: "st = (cnt, t, w)" using prod_cases3 by blast
  have ok: "wok {} n w" and t: "table_inv sizeof_pwospf_lsa t" "cnt = int (length (packet t))"
    using st s by (simp_all add: topo_ok_def)
  have "safe wire_faults (topo_ok n)
      (bindr (if b then topo_add l cnt t else Inr (cnt, t)) (\<lambda>(cnt, t). Inr (cnt, t, w)))"
    for b l
    by (rule safe_bindr [where P = "\<lambda>(cnt, t). table_inv sizeof_pwospf_lsa t
          \<and> cnt = int (length (packet t))"])
       (use topo_add_ok [OF t] t ok in \<open>auto simp: topo_ok_def\<close>)
  with st s i show ?thesis
    by (simp add: topo_neighbour_def wok_intf [OF ok] wok_nb_get(1) [OF ok]
        wok_neighbours_same [OF ok])
qed

lemma topo_interface_ok:
  assumes st: "topo_ok n st" and i: "i < n"
  shows "safe wire_faults (topo_ok n) (topo_interface i st)"
proof -
  obtain cnt t w where s: "st = (cnt, t, w)" using prod_cases3 by blast
  have ok: "wok {} n w" and t: "table_inv sizeof_pwospf_lsa t" "cnt = int (length (packet t))"
    using st s by (simp_all add: topo_ok_def)
  have loop: "safe wire_faults (topo_ok n) (for_loop m 0 (topo_neighbour i) (cnt', t', w))"
    if "table_inv sizeof_pwospf_lsa t'" "cnt' = int (length (packet t'))" for m cnt' t'
    by (rule for_loop_safe [where I = "\<lambda>_. topo_ok n"])
       (use that ok i topo_neighbour_ok in \<open>auto simp: topo_ok_def\<close>)
  have "safe wire_faults (topo_ok n) (bindr (topo_add l cnt t) (\<lambda>(cnt, t).
      for_loop m 0 (topo_neighbour i) (cnt, t, w)))" for m l
    by (rule safe_bindr [OF topo_add_ok [OF t]]) (use loop in auto)
  with s i show ?thesis by (simp add: topo_interface_def wok_intf [OF ok])
qed

lemma get_topology_ok:
  assumes "wok {} n w"
  shows "safe wire_faults (topo_ok n) (get_topology w)"
  unfolding get_topology_def
  by (rule for_loop_safe [where I = "\<lambda>_. topo_ok n"])
     (use assms topo_interface_ok wokD(1) [OF assms] in \<open>auto simp: topo_ok_def table_inv_def\<close>)

lemma lsa_copies_ok:
  assumes "table_inv sizeof_pwospf_lsa t"
  shows "safe wire_faults (\<lambda>p'. length p' = length p
      \<and> (packet t \<noteq> [] \<longrightarrow> 66 + 12 * length (packet t) \<le> length p))
    (for_loop (nat (queue_getcurrentsize t)) 0 (lsa_copy t) p)"
proof -
  obtain xs where t: "t = queue_of sizeof_pwospf_lsa xs" using assms table_inv_iff by metis
  have "safe wire_faults (\<lambda>p'. length p' = length p \<and> (0 + length xs \<noteq> 0 \<longrightarrow>
      66 + 12 * (0 + length xs) \<le> length p)) (for_loop (length xs) 0 (lsa_copy t) p)"
    by (rule for_loop_safe [where I = "\<lambda>i p'. length p' = length p \<and>
          (i \<noteq> 0 \<longrightarrow> 66 + 12 * i \<le> length p)"])
       (auto simp: lsa_copy_def t queue_getidunsafe_of need_def put_lsa_def)
  then show ?thesis using t by (simp add: queue_getcurrentsize_def)
qed

lemma generate_ipv4_header_length:
  "safe wire_faults (\<lambda>p'. length p' = length p) (generate_ipv4_header s n prot d p)"
proof -
  have "safe wire_faults (\<lambda>p'. length p' = length (ip_fields s (20 + n) 65 prot d p))
      (checksum_fill 14 24 20 (ip_fields s (20 + n) 65 prot d p))" by (rule checksum_fill_length)
  then show ?thesis by (simp add: generate_ipv4_header_def need_def)
qed

lemma generate_pwospf_link_header_ok:
  assumes "wok L n w"
  shows "safe wire_faults (\<lambda>(p', w'). length p' = length p \<and> wok L n w')
           (generate_pwospf_link_header rid aid advert len p w)"
proof -
  let ?p = "put32 62 (htonl (of_nat advert)) (put16 60 (htons 64)
      (put16 58 (htons (hid w)) (pwospf_fields OSPF_TYPE_LINK (word_of_int len) rid aid p)))"
  have "safe wire_faults (\<lambda>(p', w'). length p' = length p \<and> wok L n w')
      (bindr (checksum_fill 34 46 (32 + int advert * 12) ?p) (\<lambda>p. Inr (p, w\<lparr>hid := hid w + 1\<rparr>)))"
    by (rule safe_bindr [OF checksum_fill_length]) (use assms in \<open>auto simp: pwospf_fields_def\<close>)
  then show ?thesis by (simp add: generate_pwospf_link_header_def need_def)
qed

definition sending :: "nat \<Rightarrow> packet_info \<times> world \<Rightarrow> bool" where
  "sending n = (\<lambda>(pi, w). wok {} n w \<and> 14 \<le> unat (pi_len pi)
     \<and> unat (pi_len pi) \<le> length (pi_packet pi))"

lemma sending_send_ok:
  assumes "wok {} n w" and "14 \<le> unat (pi_len pi)" and "unat (pi_len pi) \<le> length (pi_packet pi)"
  shows "safe wire_faults (sending n)
           (bindr (ethernet_packet_send E (Some i) tm sm ty pi w) (\<lambda>(_, pi, w). Inr (pi, w)))"
  by (rule safe_bindr [OF ethernet_packet_send_ok [OF assms]])
     (use assms in \<open>auto simp: sending_def on_intf_def\<close>)

lemma lsa_send_ok:
  assumes st: "sending n st" and i: "i < n"
  shows "safe wire_faults (sending n) (lsa_send E m len i k st)"
proof -
  obtain pi w where s: "st = (pi, w)" by force
  have ok: "wok {} n w" and len: "14 \<le> unat (pi_len pi)" "unat (pi_len pi) \<le> length (pi_packet pi)"
    using st s by (simp_all add: sending_def)
  have fin: "safe wire_faults (sending n)
      (bindr (generate_pwospf_link_header rid aid m len p w) (\<lambda>(p, w).
       bindr (ethernet_packet_send E (Some i) tm sm ty (pi\<lparr>pi_packet := p\<rparr>) w)
         (\<lambda>(_, pi, w). Inr (pi, w))))" if "length p = length (pi_packet pi)" for rid aid p tm sm ty
    by (rule safe_bindr [OF generate_pwospf_link_header_ok [OF ok]], clarify,
        rule sending_send_ok) (use that len in auto)
  have "safe wire_faults (sending n)
      (bindr (generate_ipv4_header src len IP_TYPE_OSPF dst (pi_packet pi)) (\<lambda>p.
       bindr (generate_pwospf_link_header rid aid m len p w) (\<lambda>(p, w).
       bindr (ethernet_packet_send E (Some i) tm sm ty (pi\<lparr>pi_packet := p\<rparr>) w)
         (\<lambda>(_, pi, w). Inr (pi, w)))))" for src dst rid aid tm sm ty
    by (rule safe_bindr [OF generate_ipv4_header_length]) (use fin in simp)
  with st s show ?thesis
    by (simp add: lsa_send_def wok_intf [OF ok i] wok_nb_get(2) [OF ok i])
qed

lemma lsa_send_interface_ok:
  assumes st: "sending n st" and i: "i < n"
  shows "safe wire_faults (sending n) (lsa_send_interface E m len i st)"
proof -
  obtain pi w where s: "st = (pi, w)" by force
  have ok: "wok {} n w" using st s by (simp add: sending_def)
  have "safe wire_faults (sending n) (for_loop c 0 (lsa_send E m len i)
      (pi\<lparr>pi_interface := Some i\<rparr>, w))" for c
    by (rule for_loop_safe [where I = "\<lambda>_. sending n"])
       (use st s i lsa_send_ok in \<open>auto simp: sending_def\<close>)
  with s show ?thesis by (simp add: lsa_send_interface_def wok_intf [OF ok i])
qed

lemma send_pwospf_lsa_packet_ok:
  assumes "wok {} n w"
  shows "safe wire_faults (wok {} n) (send_pwospf_lsa_packet E w)"
  unfolding send_pwospf_lsa_packet_def
proof (rule safe_bindr [OF get_topology_ok [OF assms]])
  fix r assume r: "topo_ok n r"
  obtain cnt t w where s: "r = (cnt, t, w)" using prod_cases3 by blast
  have ok: "wok {} n w" and t: "table_inv sizeof_pwospf_lsa t" "cnt = int (length (packet t))"
    using r s by (simp_all add: topo_ok_def)
  let ?len = "nat (34 + (32 + cnt * 12))"
  let ?p = "replicate (unat (of_nat ?len :: u32)) (0 :: byte)"
  have stamp: "safe wire_faults (wok {} n)
      (case st of (_, w) \<Rightarrow> case gettimeofday E w of (now, w) \<Rightarrow> Inr (w\<lparr>last_lsu := now\<rparr>))"
    if "sending n st" for st
    using that by (auto simp: sending_def gettimeofday_def)
  have send: "safe wire_faults (wok {} n)
      (bindr (for_loop (num_interfaces w) 0 (lsa_send_interface E (nat cnt) (32 + cnt * 12))
         (\<lparr>pi_packet = p, pi_len = of_nat ?len, pi_interface = None\<rparr>, w)) (\<lambda>(_, w).
           case gettimeofday E w of (now, w) \<Rightarrow> Inr (w\<lparr>last_lsu := now\<rparr>)))"
    if "length p = length ?p" "66 + 12 * length (packet t) \<le> length ?p" for p
    by (rule safe_bindr [OF for_loop_safe [where I = "\<lambda>_. sending n"] stamp])
       (use that ok lsa_send_interface_ok wokD(1) [OF ok] in \<open>auto simp: sending_def\<close>)
  have "safe wire_faults (wok {} n)
      (bindr (for_loop (nat (queue_getcurrentsize t)) 0 (lsa_copy t) ?p) (\<lambda>p.
       bindr (for_loop (num_interfaces w) 0 (lsa_send_interface E (nat cnt) (32 + cnt * 12))
         (\<lparr>pi_packet = p, pi_len = of_nat ?len, pi_interface = None\<rparr>, w)) (\<lambda>(_, w).
           case gettimeofday E w of (now, w) \<Rightarrow> Inr (w\<lparr>last_lsu := now\<rparr>))))"
    if "packet t \<noteq> []"
    by (rule safe_bindr [OF lsa_copies_ok [OF t(1)]]) (use that send in simp)
  then show "safe wire_faults (wok {} n) (case r of (topologysize, t, w) \<Rightarrow>
      if topologysize = 0 then Inr w
      else let lsa_packet_length = 32 + topologysize * 12; len = nat (34 + lsa_packet_length)
        in bindr (for_loop (nat (queue_getcurrentsize t)) 0 (lsa_copy t)
                   (replicate (unat (of_nat len :: u32)) 0)) (\<lambda>p.
           bindr (for_loop (num_interfaces w) 0
                   (lsa_send_interface E (nat topologysize) lsa_packet_length)
                   (\<lparr>pi_packet = p, pi_len = of_nat len, pi_interface = None\<rparr>, w)) (\<lambda>(_, w).
             case gettimeofday E w of (now, w) \<Rightarrow> Inr (w\<lparr>last_lsu := now\<rparr>))))"
    using s ok t by (simp add: Let_def)
qed

lemma djikstra_recompute_ok:
  assumes "wok {} n w" and "memcmp_sound E"
  shows "safe wire_faults (wok {} n) (djikstra_recompute E w)"
proof -
  have "routes_via (num_interfaces w) (packet (ip_table w))" "static_routes w \<noteq> []"
    using assms(1) by (simp_all add: wok_def)
  then obtain es where es: "djikstra_recompute E w = Inr (w\<lparr>ip_table := queue_of sizeof_rtable_entry es\<rparr>)"
      "routes_via (num_interfaces w) es" "set (static_routes w) \<subseteq> set es"
    using djikstra_recompute_safe [OF wok_locks [OF assms(1)] assms(2)] by blast
  obtain e where "e \<in> set (static_routes w)" using \<open>static_routes w \<noteq> []\<close> by (meson ex_in_conv set_empty)
  then have "e \<in> set es" "\<not> dynamic e" using es(3) by (auto simp: static_routes_def)
  then have "filter (\<lambda>e. \<not> dynamic e) es \<noteq> []" by (auto simp: filter_empty_conv)
  with es assms(1) show ?thesis by (auto simp: wok_def intfs_wf_def static_routes_def)
qed

lemma recompute_and_send_ok:
  assumes "wok {} n w" and "memcmp_sound E"
  shows "safe wire_faults (wok {} n) (recompute_and_send E w)"
  unfolding recompute_and_send_def
  by (rule safe_bindr [OF djikstra_recompute_ok [OF assms]]) (rule send_pwospf_lsa_packet_ok)

end
