(* ===== verification/Reception.thy ===== *)
theory Reception
  imports Invariant
begin

text \<open>
  The reception of packets keeps the invariant: PWOSPF, DNS, ICMP, IP, ARP and, at
  the top, \<open>router_handle_packet\<close>.  The lemmas for the IP layer are proved for any
  receive function that behaves on generated ICMP errors, and those never call it
  again; so two levels of \<open>ip_onreceive\<close> are enough, and with two levels or more it
  does not run out of fuel.
\<close>

section \<open>PWOSPF\<close>

lemma lsu_ok_frame [simp]:
  "lsu_ok (e\<lparr>neighbour_id := a\<rparr>) = lsu_ok e" "lsu_ok (e\<lparr>nb_helloint := b\<rparr>) = lsu_ok e"
  "lsu_ok (e\<lparr>immediate_neighbour := c\<rparr>) = lsu_ok e" "lsu_ok (e\<lparr>nb_timestamp := t\<rparr>) = lsu_ok e"
  "lsu_ok (e\<lparr>lsu_lastseq := q\<rparr>) = lsu_ok e" "lsu_ok (e\<lparr>lsu_timestamp := t\<rparr>) = lsu_ok e"
  by (simp_all add: lsu_ok_def split: lsu_block.split)

lemma pwospf_onreceive_hello_ok:
  assumes ok: "wok {} n w" and ii: "pi_interface pi = Some ii" "ii < n" and mc: "memcmp_sound E"
  shows "safe wire_faults (wok {} n) (pwospf_onreceive_hello E pi w)"
proof -
  let ?p = "pi_packet pi"
  let ?nbs = "neighbours (interface w ! ii)"
  have tab: "table_inv sizeof_pwospf_list_entry ?nbs"
    using wokD(4,6) [OF ok ii(2)] by (simp add: table_inv_def)
  have lsu: "lsu_ok e" if "e \<in> set (packet ?nbs)" for e using wokD(5) [OF ok ii(2) that] .
  have put: "wok {} n (set_neighbours ii q (w\<lparr>ticks := t\<rparr>))"
    if "queue_inv sizeof_pwospf_list_entry q" "\<not> locker q" "\<And>e. e \<in> set (packet q) \<Longrightarrow> lsu_ok e" for q t
    by (rule wok_set_neighbours [where L = "{}"]) (use that ok ii in auto)
  note rec = recompute_and_send_ok [OF _ mc]
  have found: "wok {} n (set_neighbours ii (?nbs\<lparr>packet := (packet ?nbs)[nat (int k) := e']\<rparr>) (w\<lparr>ticks := t\<rparr>))"
    if "lsu_ok e'" "k < length (packet ?nbs)" for k e' t
  proof (rule put)
    show "queue_inv sizeof_pwospf_list_entry (?nbs\<lparr>packet := (packet ?nbs)[nat (int k) := e']\<rparr>)"
      using tab by (simp add: table_inv_def queue_inv_def)
    show "\<not> locker (?nbs\<lparr>packet := (packet ?nbs)[nat (int k) := e']\<rparr>)" using tab by (simp add: table_inv_def)
    show "lsu_ok e" if "e \<in> set (packet (?nbs\<lparr>packet := (packet ?nbs)[nat (int k) := e']\<rparr>))" for e
      using that \<open>lsu_ok e'\<close> lsu set_update_subset_insert [of "packet ?nbs" "nat (int k)" e'] by auto
  qed
  have new: "safe wire_faults (wok {} n)
      (bindr (queue_add ?nbs e sizeof_pwospf_list_entry) (\<lambda>nbs.
         recompute_and_send E (set_neighbours ii nbs (w\<lparr>ticks := t\<rparr>))))" if "lsu_ok e" for e t
  proof -
    obtain q where q: "queue_add ?nbs e sizeof_pwospf_list_entry = Inr q"
        "table_inv sizeof_pwospf_list_entry q" "packet q = packet ?nbs @ [e]"
      using dq.add_law [OF tab, of e] by auto
    then have "wok {} n (set_neighbours ii q (w\<lparr>ticks := t\<rparr>))"
      using that lsu by (intro put) (auto simp: table_inv_def)
    with q rec show ?thesis by simp
  qed
  have body: "safe wire_faults (wok {} n)
      (bindr (queue_find sizeof_pwospf_list_entry (\<lambda>e. neighbour_ip e = ip4_src_ip ?p) ?nbs) (\<lambda>(r, nbs).
          case r of
            Some (k, entry) \<Rightarrow>
              (case gettimeofday E w of (now, w) \<Rightarrow>
                 let entry' = entry\<lparr>neighbour_id := u32_at ?p 38,
                                    nb_helloint := ntohs (u16_at ?p 62),
                                    immediate_neighbour := 1, nb_timestamp := now\<rparr>;
                     w = set_neighbours ii (nbs\<lparr>packet := (packet nbs)[nat k := entry']\<rparr>) w
                 in if immediate_neighbour entry = 0 then recompute_and_send E w else Inr w)
          | None \<Rightarrow>
              (case gettimeofday E w of (now, w) \<Rightarrow>
                 bindr (queue_add nbs
                          \<lparr>neighbour_id = u32_at ?p 38, neighbour_ip = ip4_src_ip ?p,
                           nb_helloint = ntohs (u16_at ?p 62), nb_timestamp = now,
                           immediate_neighbour = 1, lsu_lastseq = junk_u16 E,
                           lsu_lastcontents = LsuNull, lsu_lastcontents_count = 0,
                           lsu_timestamp = junk_tv E\<rparr> sizeof_pwospf_list_entry) (\<lambda>nbs.
                   recompute_and_send E (set_neighbours ii nbs w)))))"
  proof (cases "first_match (\<lambda>e. neighbour_ip e = ip4_src_ip ?p) (packet ?nbs)")
    case None
    then show ?thesis using new by (simp add: dq.lookup_law [OF tab] gettimeofday_def lsu_ok_def)
  next
    case (Some r)
    then obtain k e where r: "r = (k, e)" by force
    with Some have e: "k < length (packet ?nbs)" "lsu_ok e"
      using lsu by (auto simp: first_match_Some)
    then show ?thesis
      using found [of "e\<lparr>neighbour_id := a, nb_helloint := b, immediate_neighbour := 1,
          nb_timestamp := t\<rparr>" k for a b t] Some r rec
      by (simp add: dq.lookup_law [OF tab] gettimeofday_def Let_def)
  qed
  show ?thesis
    unfolding pwospf_onreceive_hello_def
    using ok ii body
    by (auto simp: wok_intf [OF ok ii(2)] Let_def
        intro!: safe_bindr [OF generatechecksum_safe])
qed

lemma unlock_neighbours_ok:
  assumes "wok L n w" and "L \<subseteq> {ii}" and "ii < n"
  shows "wok {} n (unlock_neighbours ii w)"
  unfolding unlock_neighbours_def
  by (rule wok_set_neighbours [OF assms(1)])
     (use assms wokD(4,5) [OF assms(1,3)] in \<open>auto simp: queue_unlockall_def\<close>)

lemma modify_neighbour_ok:
  assumes ok: "wok L n w" and ii: "ii < n" and f: "\<And>e. lsu_ok e \<Longrightarrow> lsu_ok (f e)"
  shows "wok L n (modify_neighbour ii k f w)"
proof -
  let ?q = "neighbours (interface w ! ii)"
  let ?q' = "?q\<lparr>packet := (packet ?q)[k := f (packet ?q ! k)]\<rparr>"
  have lsu: "lsu_ok e" if "e \<in> set (packet ?q)" for e using wokD(5) [OF ok ii that] .
  have new: "lsu_ok e" if "e \<in> set (packet ?q')" for e
  proof (cases "k < length (packet ?q)")
    case True
    then have "lsu_ok (f (packet ?q ! k))" using lsu f by simp
    then show ?thesis
      using that lsu set_update_subset_insert [of "packet ?q" k "f (packet ?q ! k)"] by auto
  next
    case False
    then show ?thesis using that lsu by (auto simp: list_update_beyond not_less)
  qed
  show ?thesis
    unfolding modify_neighbour_def
    by (rule wok_set_neighbours [OF ok _ new ii])
       (use wokD(4,6) [OF ok ii] in \<open>auto simp: queue_inv_def\<close>)
qed

lemma getneighbour_from_ok:
  assumes "queue_inv sizeof_pwospf_list_entry q"
  shows "safe {} (\<lambda>r. \<forall>k. r = Some k \<longrightarrow> k < length (packet q)) (getneighbour_from q rid m i)"
proof (induction m arbitrary: i)
  case (Suc m)
  then show ?case
    using assms by (simp add: queue_getidunsafe_def queue_inv_def nat_less_iff)
qed simp

lemma getneighbour_ok:
  assumes "queue_inv sizeof_pwospf_list_entry q"
  shows "safe wire_faults (\<lambda>r. \<forall>k. r = Some k \<longrightarrow> k < length (packet q))
           (getneighbourfromidunsafe q rid)"
  unfolding getneighbourfromidunsafe_def
  by (rule safe_mono [OF getneighbour_from_ok [OF assms]]) auto

lemma lsu_unchanged_ok:
  "lsu_ok e \<Longrightarrow> safe wire_faults (\<lambda>_. True) (lsu_unchanged e c ls)"
  by (auto simp: lsu_unchanged_def lsu_ok_def need_def split: lsu_block.splits)

lemma lsu_alloc_ok:
  "length ls = nat c \<Longrightarrow>
   safe wire_faults (\<lambda>b. b = LsuNull \<or> b = LsuData ls \<and> c = int (length ls)) (lsu_alloc c ls)"
  by (simp add: lsu_alloc_def need_def)

lemma lsu_store_ok:
  "lsu_ok e \<Longrightarrow> length ls = nat c \<Longrightarrow>
   safe wire_faults (\<lambda>b. b = LsuNull \<or> b = LsuData ls \<and> c = int (length ls)) (lsu_store e c ls)"
  by (auto simp: lsu_store_def lsu_ok_def lsu_alloc_def need_def split: lsu_block.splits)

lemma length_payload [simp]: "length (payload n p) = n"
  by (simp add: payload_def)

lemma length_patch_ids [simp]: "length (patch_ids n a b p) = length p"
proof -
  have "length (fold (\<lambda>g p. if u32_at p (66 + 12 * g + 8) = a then put32 (66 + 12 * g + 8) b p else p)
      gs p) = length p" for gs
    by (induction gs arbitrary: p) auto
  then show ?thesis by (simp add: patch_ids_def)
qed

lemma link_known_ok:
  assumes ok: "wok {ii} n w" and ii: "ii < n" and f: "frame_ok n pi" "pi_interface pi = Some ii"
    and k: "k < length (packet (neighbours (interface w ! ii)))" and mc: "memcmp_sound E"
  shows "safe wire_faults (wok {} n) (link_known E pi ii k c w)"
proof -
  let ?e = "packet (neighbours (interface w ! ii)) ! k"
  have e: "lsu_ok ?e" using wokD(5) [OF ok ii] k by simp
  have same: "wok {} n (unlock_neighbours ii (modify_neighbour ii k f w'))"
    if "wok {ii} n w'" "\<And>e. lsu_ok e \<Longrightarrow> lsu_ok (f e)" for w' f
    using unlock_neighbours_ok [OF modify_neighbour_ok [OF that(1) ii that(2)] _ ii] by simp
  have store: "safe wire_faults (wok {} n)
      (bindr (lsu_store ?e c ls) (\<lambda>blk. case gettimeofday E w' of (now, w) \<Rightarrow>
         recompute_and_send E (unlock_neighbours ii
           (modify_neighbour ii k (\<lambda>e. e\<lparr>lsu_lastcontents := blk, lsu_lastcontents_count := c,
              lsu_lastseq := seq, lsu_timestamp := now\<rparr>) w))))"
    if "wok {ii} n w'" "length ls = nat c" for w' ls seq
    by (rule safe_bindr [OF lsu_store_ok [OF e that(2)]])
       (use that in \<open>auto simp: gettimeofday_def intro!: recompute_and_send_ok [OF _ mc] same,
         auto simp: lsu_ok_def\<close>)
  have after: "safe wire_faults (wok {} n)
      (bindr (lsu_unchanged ?e c ls) (\<lambda>same.
         if same then
           (case gettimeofday E w' of (now, w) \<Rightarrow>
              Inr (unlock_neighbours ii
                (modify_neighbour ii k (\<lambda>e. e\<lparr>lsu_lastseq := seq, lsu_timestamp := now\<rparr>) w)))
         else
           bindr (lsu_store ?e c ls) (\<lambda>blk. case gettimeofday E w' of (now, w) \<Rightarrow>
             recompute_and_send E (unlock_neighbours ii
               (modify_neighbour ii k (\<lambda>e. e\<lparr>lsu_lastcontents := blk, lsu_lastcontents_count := c,
                  lsu_lastseq := seq, lsu_timestamp := now\<rparr>) w)))))"
    if "wok {ii} n w'" "length ls = nat c" for w' ls seq
    by (rule safe_bindr [OF lsu_unchanged_ok [OF e]])
       (use that store in \<open>auto simp: gettimeofday_def intro!: same\<close>)
  show ?thesis
    unfolding link_known_def Let_def
    using unlock_neighbours_ok [OF ok _ ii] after
    by (auto intro!: safe_bindr [OF reflood_ok [OF ok _ f]])
qed

lemma link_new_ok:
  assumes ok: "wok {} n w" and ii: "ii < n" and f: "frame_ok n pi" "pi_interface pi = Some ii"
    and mc: "memcmp_sound E"
  shows "safe wire_faults (wok {} n) (link_new E pi ii c w)"
proof -
  let ?q = "neighbours (interface w ! ii)"
  have tab: "table_inv sizeof_pwospf_list_entry ?q"
    using wokD(4,6) [OF ok ii] by (simp add: table_inv_def)
  have flood: "safe wire_faults (wok {} n)
      (bindr (getneighbourfromidunsafe q rid) (\<lambda>r.
       bindr (case r of
                None \<Rightarrow> Inr (pi, w')
              | Some k \<Rightarrow> pwospf_reflood_packetpartiallyunsafe E (pi\<lparr>pi_packet := p\<rparr>)
                           (neighbour_ip (packet q ! k)) ii w')
         (\<lambda>(_, w). recompute_and_send E (unlock_neighbours ii w))))"
    if w': "wok {ii} n w'" and q: "queue_inv sizeof_pwospf_list_entry q"
      and p: "length p = length (pi_packet pi)" for q rid w' p
  proof (rule safe_bindr [OF getneighbour_ok [OF q]])
    fix r
    have f': "frame_ok n (pi\<lparr>pi_packet := p\<rparr>)" "pi_interface (pi\<lparr>pi_packet := p\<rparr>) = Some ii"
      using f p by (simp_all add: frame_ok_def)
    have "safe wire_faults (\<lambda>(_, w). wok {ii} n w)
        (case r of
           None \<Rightarrow> Inr (pi, w')
         | Some k \<Rightarrow> pwospf_reflood_packetpartiallyunsafe E (pi\<lparr>pi_packet := p\<rparr>)
                      (neighbour_ip (packet q ! k)) ii w')"
      using w' by (auto split: option.split intro: safe_mono [OF reflood_ok [OF w' _ f']])
    then show "safe wire_faults (wok {} n)
        (bindr (case r of
                None \<Rightarrow> Inr (pi, w')
              | Some k \<Rightarrow> pwospf_reflood_packetpartiallyunsafe E (pi\<lparr>pi_packet := p\<rparr>)
                           (neighbour_ip (packet q ! k)) ii w')
           (\<lambda>(_, w). recompute_and_send E (unlock_neighbours ii w)))"
      by (rule safe_bindr)
         (use ii in \<open>auto intro!: recompute_and_send_ok [OF _ mc] unlock_neighbours_ok\<close>)
  qed
  have add: "safe wire_faults (wok {} n)
      (bindr (queue_add ?q e sizeof_pwospf_list_entry) (\<lambda>nbs.
       bindr (queue_lockall nbs) (\<lambda>nbs.
       let w = set_neighbours ii nbs (w\<lparr>ticks := t\<rparr>)
       in bindr (getneighbourfromidunsafe nbs rid) (\<lambda>r.
          bindr (case r of
                   None \<Rightarrow> Inr (pi, w)
                 | Some k \<Rightarrow> pwospf_reflood_packetpartiallyunsafe E (pi\<lparr>pi_packet := p\<rparr>)
                              (neighbour_ip (packet nbs ! k)) ii w)
            (\<lambda>(_, w). recompute_and_send E (unlock_neighbours ii w))))))"
    if e: "lsu_ok e" and p: "length p = length (pi_packet pi)" for e rid t p
  proof -
    obtain q where q: "queue_add ?q e sizeof_pwospf_list_entry = Inr q"
        "table_inv sizeof_pwospf_list_entry q" "packet q = packet ?q @ [e]"
      using dq.add_law [OF tab, of e] by auto
    let ?q' = "q\<lparr>locker := True\<rparr>"
    have lock: "queue_lockall q = Inr ?q'" using q(2) by (simp add: queue_lockall_def table_inv_def)
    have inv: "queue_inv sizeof_pwospf_list_entry ?q'" using q(2) by (simp add: table_inv_def)
    have "wok {ii} n (set_neighbours ii ?q' (w\<lparr>ticks := t\<rparr>))"
      by (rule wok_set_neighbours [where L = "{}"])
         (use ok inv q(3) e wokD(5) [OF ok ii] ii in auto)
    then show ?thesis
      unfolding q(1) bindr.simps lock Let_def using flood [OF _ inv p] by blast
  qed
  show ?thesis
    unfolding link_new_def Let_def gettimeofday_def prod.case
    by (rule safe_bindr [OF lsu_alloc_ok])
       (use add in \<open>auto simp: Let_def lsu_ok_def split: lsu_block.splits\<close>)
qed

lemma pwospf_onreceive_link_ok:
  assumes ok: "wok {} n w" and ii: "pi_interface pi = Some ii" "ii < n" and f: "frame_ok n pi"
    and mc: "memcmp_sound E"
  shows "safe wire_faults (wok {} n) (pwospf_onreceive_link E pi w)"
proof -
  let ?q = "neighbours (interface w ! ii)"
  let ?q' = "?q\<lparr>locker := True\<rparr>"
  let ?w = "set_neighbours ii ?q' w"
  have lock: "queue_lockall ?q = Inr ?q'" using wokD(6) [OF ok ii(2)] by (simp add: queue_lockall_def)
  have inv: "queue_inv sizeof_pwospf_list_entry ?q'" using wokD(4) [OF ok ii(2)] by simp
  have w: "wok {ii} n ?w"
    by (rule wok_set_neighbours [OF ok inv]) (use wokD(5) [OF ok ii(2)] ii in auto)
  have nb: "neighbours (interface ?w ! ii) = ?q'"
    using ii(2) wokD(2) [OF ok] by (simp add: set_neighbours_def)
  have un: "wok {} n (unlock_neighbours ii ?w)" by (rule unlock_neighbours_ok [OF w _ ii(2)]) simp
  have found: "safe wire_faults (wok {} n)
      (bindr (getneighbourfromidunsafe ?q' rid) (\<lambda>r.
         case r of Some k \<Rightarrow> link_known E pi ii k c ?w
                 | None \<Rightarrow> link_new E pi ii c (unlock_neighbours ii ?w)))" for rid c
    by (rule safe_bindr [OF getneighbour_ok [OF inv]])
       (use link_known_ok [OF w ii(2) f ii(1) _ mc] link_new_ok [OF un ii(2) f ii(1) mc] nb
        in \<open>auto split: option.split\<close>)
  show ?thesis
    unfolding pwospf_onreceive_link_def
    using ok ii found
    by (auto simp: wok_intf [OF ok ii(2)] lock Let_def intro!: safe_bindr [OF generatechecksum_safe])
qed

lemma pwospf_onreceive_ok:
  assumes ok: "wok {} n w" and ii: "pi_interface pi = Some ii" "ii < n" and f: "frame_ok n pi"
    and mc: "memcmp_sound E"
  shows "safe wire_faults (wok {} n) (pwospf_onreceive E pi w)"
  using pwospf_onreceive_hello_ok [OF ok ii mc] pwospf_onreceive_link_ok [OF ok ii f mc] ok
  by (simp add: pwospf_onreceive_def need_def Let_def)

section \<open>DNS\<close>

lemma parse_labels_safe: "safe wire_faults (\<lambda>_. True) (parse_labels p a)"
proof (induction p a rule: parse_labels.induct)
  case (1 p a)
  show ?case
  proof (cases "a < length p \<and> unat (p ! a) \<noteq> 0 \<and> a + 1 + unat (p ! a) \<le> length p")
    case True
    have "safe wire_faults (\<lambda>_. True) (parse_labels p (a + 1 + unat (p ! a)))"
      using True by (intro 1) (auto simp: Let_def)
    then have "safe wire_faults (\<lambda>_. True)
        (bindr (parse_labels p (a + 1 + unat (p ! a))) (\<lambda>(names, b).
           Inr (slice (a + 1) (unat (p ! a)) p # names, b)))"
      by (rule safe_bindr) auto
    with True show ?thesis by (subst parse_labels.simps) (simp add: Let_def)
  next
    case False
    then show ?thesis by (subst parse_labels.simps) (auto simp: Let_def need_def)
  qed
qed

lemma parse_query_safe: "safe wire_faults (\<lambda>_. True) (parse_query p a)"
  unfolding parse_query_def
  by (rule safe_bindr [OF parse_labels_safe]) (auto simp: need_def)

lemma dns_questions_safe: "safe wire_faults (\<lambda>_. True) (dns_mallocandparse_query_array m p a)"
proof (induction m arbitrary: a)
  case (Suc m)
  have "safe wire_faults (\<lambda>_. True)
      (bindr (dns_mallocandparse_query_array m p b) (\<lambda>qs. Inr (q # qs)))" for q b
    by (rule safe_bindr [OF Suc]) simp
  then show ?case by (auto intro!: safe_bindr [OF parse_query_safe])
qed simp

lemma send_dns_proto_response_ok:
  assumes ok: "wok {} n w" and i: "pi_interface pi = Some i" "i < n"
  shows "safe wire_faults (wok {} n) (send_dns_proto_response E pi answer err w)"
proof -
  let ?n = "length answer"
  have fin: "safe wire_faults (wok {} n)
      (bindr (ethernet_packet_send E (Some i) tm sm ty
                \<lparr>pi_packet = p, pi_len = of_nat (42 + ?n), pi_interface = Some i\<rparr> w)
         (\<lambda>(_, _, w). Inr w))"
    if "42 + ?n < 2 ^ 32" "length p = 42 + ?n" for p tm sm ty
  proof (rule safe_bindr [OF ethernet_packet_send_ok [OF ok]])
    have "unat (of_nat (42 + ?n) :: u32) = 42 + ?n" using that(1) by (simp only: unat_of_nat) simp
    then show "14 \<le> unat (pi_len \<lparr>pi_packet = p, pi_len = of_nat (42 + ?n), pi_interface = Some i\<rparr>)"
      "unat (pi_len \<lparr>pi_packet = p, pi_len = of_nat (42 + ?n), pi_interface = Some i\<rparr>)
        \<le> length (pi_packet \<lparr>pi_packet = p, pi_len = of_nat (42 + ?n), pi_interface = Some i\<rparr>)"
      using that(2) by (simp_all only: packet_info.simps)
  qed auto
  have sum: "safe wire_faults (wok {} n)
      (bindr (malloc_udp_pseudo_header p) (\<lambda>pseudo.
       bindr (generatechecksum pseudo (int (length pseudo))) (\<lambda>c.
       if unat (ip4_ttl (put16 40 c p)) < 1 then Inr w
       else bindr (ethernet_packet_send E (Some i) tm sm ty
              \<lparr>pi_packet = put16 40 c p, pi_len = of_nat (42 + ?n), pi_interface = Some i\<rparr> w)
              (\<lambda>(_, _, w). Inr w))))"
    if "42 + ?n < 2 ^ 32" "length p = 42 + ?n" for p tm sm ty
    by (rule safe_bindr [OF malloc_udp_pseudo_header_safe],
        rule safe_bindr [OF generatechecksum_safe]) (use ok fin [OF that(1)] that(2) in simp)
  have len: "length (udp_fields a b c (blit 42 (put8 3 v answer) (replicate (42 + ?n) 0))) = 42 + ?n"
    for a b c v by (simp add: udp_fields_def)
  show ?thesis
    unfolding send_dns_proto_response_def Let_def
  proof (rule safe_need)
    assume c: "42 \<le> length (pi_packet pi) \<and> 42 + ?n < 2 ^ 32"
    show "safe wire_faults (wok {} n)
        (bindr (interface_at w (pi_interface pi)) (\<lambda>intf.
         bindr (generate_ipv4_header (if_ip intf) (8 + int ?n) IP_TYPE_UDP (ip4_src_ip (pi_packet pi))
                 (udp_fields (u16_at (pi_packet pi) 36) (u16_at (pi_packet pi) 34) (8 + ?n)
                   (blit 42 (put8 3 (u8_at answer 3 AND 0xF0 OR err AND 0x0F) answer)
                     (replicate (42 + ?n) 0)))) (\<lambda>p.
         bindr (checksum_fill 14 24 20 p) (\<lambda>p.
         bindr (malloc_udp_pseudo_header p) (\<lambda>pseudo.
         bindr (generatechecksum pseudo (int (length pseudo))) (\<lambda>c.
         if unat (ip4_ttl (put16 40 c p)) < 1 then Inr w
         else bindr (ethernet_packet_send E (pi_interface pi) (eth_source_mac (pi_packet pi))
                (if_mac intf) (htons ETH_IP_TYPE)
                \<lparr>pi_packet = put16 40 c p, pi_len = of_nat (42 + ?n),
                 pi_interface = pi_interface pi\<rparr> w) (\<lambda>(_, _, w). Inr w)))))))"
      unfolding i(1) wok_intf [OF ok i(2)] bindr.simps
      by (rule safe_bindr [OF generate_ipv4_header_length], rule safe_bindr [OF checksum_fill_length],
          rule sum) (use c len in auto)
  qed simp
qed

lemma handle_question_ok:
  assumes ok: "wok {} n w" and i: "pi_interface pi = Some i" "i < n"
  shows "safe wire_faults (wok {} n) (handle_question E pi q w)"
proof -
  note send = send_dns_proto_response_ok [OF ok i]
  have db: "queue_find sizeof_dns_db_entry P (dns_db w) =
      Inr (map_option (\<lambda>(i, x). (int i, x)) (first_match P (packet (dns_db w))), dns_db w)" for P
    by (rule dq.lookup_law [OF wokD(11) [OF ok]])
  show ?thesis
    using send
    by (simp add: handle_question_def Let_def get_by_ip_safe_def get_by_domainname_array_safe_def db
        split: option.split)
qed

lemma dns_onreceive_ok:
  assumes ok: "wok {} n w" and i: "pi_interface pi = Some i" "i < n"
  shows "safe wire_faults (wok {} n) (dns_onreceive E pi w)"
proof -
  have "safe wire_faults (wok {} n) (bindr (dns_mallocandparse_query_array m p a) (\<lambda>questions.
      case questions of [] \<Rightarrow> Inl OutOfBounds | q # _ \<Rightarrow> handle_question E pi q w))" for m p a
    by (rule safe_bindr [OF dns_questions_safe])
       (use handle_question_ok [OF assms] in \<open>auto split: list.split\<close>)
  then show ?thesis using ok by (simp add: dns_onreceive_def Let_def need_def)
qed

end
