(* ===== verification/IpPath.thy ===== *)
theory IpPath
  imports Reception
begin

text \<open>
  The IP layer.  What a generated ICMP error is; that \<open>ip_onreceive\<close> keeps the invariant
  of the router; that an ICMP error generated while a packet is processed never leads to
  another one, so the recursion of \<open>ip_onreceive\<close> is at most two deep; and what
  forwarding a packet sends.
\<close>

section \<open>Generated ICMP messages\<close>

text \<open>The frame \<open>icmp_allocate_and_send\<close> hands to \<open>ip_onreceive\<close>.\<close>

definition icmp_message ::
    "addr_ip \<Rightarrow> addr_ip \<Rightarrow> byte \<Rightarrow> byte \<Rightarrow> byte list \<Rightarrow> byte list \<Rightarrow> bool" where
  "icmp_message src dst type code data p \<longleftrightarrow>
     length p = 98 \<and> ip_header_ok p
     \<and> ip_header_is src (28 + int (length data)) 65 IP_TYPE_ICMP dst p
     \<and> u8_at p 34 = type \<and> u8_at p 35 = code \<and> slice 42 (length data) p = data
     \<and> generatechecksum (drop 34 p) (8 + int (length data)) = Inr 0"

lemma packetinfo_ip_allocate_None:
  assumes "wok L n w" and "lpm (packet (ip_table w)) dest = None"
  shows "packetinfo_ip_allocate sz dest src prot tot w = Inr (None, w)"
  using assms by (simp add: packetinfo_ip_allocate_def wok_table [OF assms(1)])

lemma packetinfo_ip_allocate_Some:
  assumes ok: "wok L n w" and r: "lpm (packet (ip_table w)) dest = Some (k, e)"
    and i: "rt_interface e = Some i" "i < n"
    and sz: "34 \<le> sz" "(word_of_int tot :: u16) \<noteq> 0"
  shows "\<exists>p. packetinfo_ip_allocate sz dest src prot tot w =
       Inr (Some \<lparr>pi_packet = p, pi_len = of_nat sz, pi_interface = Some i\<rparr>, w)
     \<and> length p = sz \<and> ip_header_ok p
     \<and> ip_header_is (if src = -1 then if_ip (interface w ! i) else src) tot 65 prot dest p"
proof -
  let ?src = "if src = -1 then if_ip (interface w ! i) else src"
  let ?fill = "\<lambda>p. checksum_fill 14 24 20 (ip_fields ?src tot 65 prot dest p)"
  have fill: "\<exists>p'. ?fill p = Inr p' \<and> length p' = sz \<and> ip_header_ok p'
      \<and> ip_header_is ?src tot 65 prot dest p'" if "length p = sz" for p
    using ip_fill_fields [of p tot ?src 65 prot dest] sz that by (auto simp: safe_empty_iff)
  let ?m = "case first_match (\<lambda>e. arp_ip e = dest) (packet (arp_cache w)) of
      Some (_, e) \<Rightarrow> arp_mac e | None \<Rightarrow> MAC_BROADCAST"
  let ?p = "put16 12 (htons ETH_IP_TYPE) (put_mac 0 ?m (put_mac 6 (if_mac (interface w ! i))
      (replicate sz 0)))"
  obtain p' where p': "?fill ?p = Inr p'" "length p' = sz" "ip_header_ok p'"
      "ip_header_is ?src tot 65 prot dest p'"
    using fill [of ?p] by auto
  have "packetinfo_ip_allocate sz dest src prot tot w =
      bindr (?fill ?p) (\<lambda>p. Inr (Some \<lparr>pi_packet = p, pi_len = of_nat sz, pi_interface = Some i\<rparr>, w))"
    using r i sz
    by (auto simp: packetinfo_ip_allocate_def wok_table [OF ok] wok_arp [OF ok] wok_intf [OF ok i(2)]
        Let_def split: option.split)
  with p' show ?thesis by simp
qed

lemma icmp_fields_message:
  assumes "length p = 98" and "ip_header_ok p" and "ip_header_is s tot 65 IP_TYPE_ICMP d p"
    and "tot = 28 + int (length data)" and "length data \<le> 56"
  shows "\<exists>p'. checksum_fill 34 36 (8 + int (length data)) (icmp_fields code type 0 0 data p) = Inr p'
           \<and> icmp_message s d type code data p'"
proof -
  let ?q = "icmp_fields code type 0 0 data p"
  let ?m = "8 + length data"
  have len: "length ?q = 98" using assms by (simp add: icmp_fields_def)
  obtain c where c: "checksum_fill 34 36 (int ?m) ?q = Inr (put16 36 c ?q)"
      "generatechecksum (drop 34 (put16 36 c ?q)) (int ?m) = Inr 0"
    using icmp_sum.fill_verifies [of ?m ?q] len assms(5) by auto
  let ?r = "put16 36 c ?q"
  have same: "u8_at ?r i = u8_at p i" if "i < 34" for i
    using that assms by (simp add: icmp_fields_def wire)
  then have "ip_header_ok ?r \<longleftrightarrow> ip_header_ok p"
    using len assms(1) by (intro ip_header_ok_cong) auto
  moreover have "ip_header_is s tot 65 IP_TYPE_ICMP d ?r"
    using assms by (simp add: ip_header_is_def icmp_fields_def wire)
  moreover have "u8_at ?r 34 = type" "u8_at ?r 35 = code"
    using assms by (simp_all add: icmp_fields_def wire)
  moreover have "slice 42 (length data) ?r = data"
    using assms(1,5) by (simp add: wire) (simp add: icmp_fields_def blit_def slice_def)
  ultimately have "icmp_message s d type code data ?r"
    using assms(2,4) c(2) len by (simp add: icmp_message_def)
  with c(1) show ?thesis by auto
qed

text \<open>
  \<open>icmp_allocate_and_send\<close>: without a route nothing happens; with one, the receive
  function gets the message, whatever that function is.
\<close>

lemma icmp_allocate_None:
  assumes "wok L n w" and "lpm (packet (ip_table w)) ip = None"
  shows "icmp_allocate_and_send recv ip code type idn cnt data src w = Inr (0, w)"
  by (simp add: icmp_allocate_and_send_def packetinfo_ip_allocate_None [OF assms])

lemma icmp_allocate_Some:
  assumes ok: "wok L n w" and r: "lpm (packet (ip_table w)) ip = Some (k, e)"
    and len: "length data \<le> 56"
  shows "\<exists>i p. i < n \<and> rt_interface e = Some i
     \<and> icmp_message (if src = -1 then if_ip (interface w ! i) else src) ip type code data p
     \<and> (\<forall>recv. icmp_allocate_and_send recv ip code type 0 0 data src w =
          bindr (recv \<lparr>pi_packet = p, pi_len = of_nat (42 + length data), pi_interface = Some i\<rparr> w)
            (\<lambda>w. Inr (1, w)))"
proof -
  obtain i where i: "i < n" "rt_interface e = Some i" using wok_route [OF ok r] by blast
  have "unat (of_nat (28 + length data) :: u16) = 28 + length data"
    using len by (simp only: unat_of_nat) simp
  then have "(of_nat (28 + length data) :: u16) \<noteq> 0" by (metis add_eq_0_iff_both_eq_0 unat_0 zero_neq_numeral)
  then have tot: "(word_of_int (20 + 8 + int (length data)) :: u16) \<noteq> 0" by simp
  let ?src = "if src = -1 then if_ip (interface w ! i) else src"
  obtain p where p: "packetinfo_ip_allocate 98 ip src IP_TYPE_ICMP (20 + 8 + int (length data)) w =
       Inr (Some \<lparr>pi_packet = p, pi_len = of_nat 98, pi_interface = Some i\<rparr>, w)"
     "length p = 98" "ip_header_ok p"
     "ip_header_is ?src (20 + 8 + int (length data)) 65 IP_TYPE_ICMP ip p"
    using packetinfo_ip_allocate_Some [OF ok r i(2,1) _ tot, of 98 src IP_TYPE_ICMP] by auto
  obtain p' where p': "checksum_fill 34 36 (8 + int (length data))
       (icmp_fields code type 0 0 data p) = Inr p'" "icmp_message ?src ip type code data p'"
    using icmp_fields_message [OF p(2-4) _ len] by auto
  show ?thesis
    by (intro exI [of _ i] exI [of _ p'])
       (use i p' p(1) len in \<open>simp add: icmp_allocate_and_send_def\<close>)
qed

section \<open>ICMP errors\<close>

text \<open>A generated error, as it enters \<open>ip_onreceive\<close> in the state \<open>w\<close>.\<close>

definition generated :: "nat \<Rightarrow> world \<Rightarrow> packet_info \<Rightarrow> bool" where
  "generated n w pi \<longleftrightarrow>
     frame_ok n pi \<and> 34 \<le> unat (pi_len pi) \<and> ip_header_ok (pi_packet pi)
     \<and> ip4_protocol (pi_packet pi) = IP_TYPE_ICMP \<and> ip4_ttl (pi_packet pi) = 65
     \<and> 34 < length (pi_packet pi)
     \<and> u8_at (pi_packet pi) 34 \<in> {ICMP_TYPE_DST_UNREACH, ICMP_TYPE_TIME_EXCEEDED}
     \<and> lpm (packet (ip_table w)) (ip4_dst_ip (pi_packet pi)) \<noteq> None"

definition error_types :: "byte set" where
  "error_types = {ICMP_TYPE_DST_UNREACH, ICMP_TYPE_TIME_EXCEEDED}"

lemma error_types_mem [simp]:
  "ICMP_TYPE_DST_UNREACH \<in> error_types" "ICMP_TYPE_TIME_EXCEEDED \<in> error_types"
  by (simp_all add: error_types_def)

lemma length_icmp_error_data:
  "42 \<le> length p \<Longrightarrow> length (icmp_error_data E p) = 56"
  by (simp add: icmp_error_data_def)

lemma icmp_message_generated:
  assumes "icmp_message s d type code data p" and "length data = 56" and "type \<in> error_types"
    and "i < n" and "lpm (packet (ip_table w)) d \<noteq> None"
  shows "generated n w
           \<lparr>pi_packet = p, pi_len = of_nat (42 + length data), pi_interface = Some i\<rparr>"
  using assms
  by (auto simp: icmp_message_def generated_def frame_ok_def ip_header_is_def error_types_def)

text \<open>
  An error is either not sent at all, or is one generated frame given to the receive
  function.
\<close>

lemma icmp_error_cases:
  assumes ok: "wok L n w" and len: "length data = 56" and t: "type \<in> error_types"
  shows "(\<forall>recv. icmp_allocate_and_send recv ip code type 0 0 data src w = Inr (0, w))
       \<or> (\<exists>pi. generated n w pi \<and> (\<forall>recv. icmp_allocate_and_send recv ip code type 0 0 data src w =
            bindr (recv pi w) (\<lambda>w. Inr (1, w))))"
proof (cases "lpm (packet (ip_table w)) ip")
  case None
  then show ?thesis by (simp add: icmp_allocate_None [OF ok])
next
  case (Some r)
  then obtain k e where r: "lpm (packet (ip_table w)) ip = Some (k, e)" by force
  obtain i p where p: "i < n"
      "icmp_message (if src = -1 then if_ip (interface w ! i) else src) ip type code data p"
      "\<And>recv. icmp_allocate_and_send recv ip code type 0 0 data src w =
          bindr (recv \<lparr>pi_packet = p, pi_len = of_nat (42 + length data), pi_interface = Some i\<rparr> w)
            (\<lambda>w. Inr (1, w))"
    using icmp_allocate_Some [OF ok r, of data src type code] len by auto
  have "generated n w \<lparr>pi_packet = p, pi_len = of_nat (42 + length data), pi_interface = Some i\<rparr>"
    by (rule icmp_message_generated [OF p(2) len t p(1)]) (simp add: r)
  with p(3) show ?thesis by blast
qed

text \<open>What the IP layer assumes of the receive function it is given.\<close>

definition recv_ok :: "nat \<Rightarrow> receiver \<Rightarrow> bool" where
  "recv_ok n recv \<longleftrightarrow>
     (\<forall>pi w. wok {} n w \<longrightarrow> generated n w pi \<longrightarrow> safe wire_faults (wok {} n) (recv pi w))"

definition recv_same :: "nat \<Rightarrow> receiver \<Rightarrow> receiver \<Rightarrow> bool" where
  "recv_same n recv recv' \<longleftrightarrow>
     (\<forall>pi w. wok {} n w \<longrightarrow> generated n w pi \<longrightarrow> recv pi w = recv' pi w)"

lemma icmp_allocate_ok:
  assumes ok: "wok {} n w" and len: "length data = 56" and t: "type \<in> error_types"
    and recv: "recv_ok n recv"
  shows "safe wire_faults (\<lambda>(_, w). wok {} n w)
           (icmp_allocate_and_send recv ip code type 0 0 data src w)"
  using icmp_error_cases [OF ok len t, of ip code src]
proof (elim disjE exE conjE)
  fix pi assume g: "generated n w pi"
    and eq: "\<forall>recv. icmp_allocate_and_send recv ip code type 0 0 data src w =
      bindr (recv pi w) (\<lambda>w. Inr (1, w))"
  have "safe wire_faults (wok {} n) (recv pi w)" using recv ok g by (simp add: recv_ok_def)
  then show ?thesis unfolding eq [rule_format] by (rule safe_bindr) simp
qed (use ok in simp)

lemma icmp_allocate_same:
  assumes ok: "wok {} n w" and len: "length data = 56" and t: "type \<in> error_types"
    and recv: "recv_same n recv recv'"
  shows "icmp_allocate_and_send recv ip code type 0 0 data src w =
         icmp_allocate_and_send recv' ip code type 0 0 data src w"
  using icmp_error_cases [OF ok len t, of ip code src] ok recv by (auto simp: recv_same_def)

lemma icmp_send_ok:
  assumes "wok {} n w" and "type \<in> error_types" and "recv_ok n recv"
  shows "safe wire_faults (wok {} n) (icmp_send recv E pi src type code w)"
  unfolding icmp_send_def
  by (rule safe_need, rule safe_bindr [OF icmp_allocate_ok])
     (use assms in \<open>auto simp: length_icmp_error_data\<close>)

lemma icmp_send_same:
  assumes "wok {} n w" and "type \<in> error_types" and "recv_same n recv recv'"
  shows "icmp_send recv E pi src type code w = icmp_send recv' E pi src type code w"
  using icmp_allocate_same [OF assms(1) length_icmp_error_data assms(2,3)]
  by (simp add: icmp_send_def need_def)

lemma icmp_type_time_exceeded_ok:
  assumes "wok {} n w" and "recv_ok n recv"
  shows "safe wire_faults (wok {} n) (icmp_type_time_exceeded recv E pi src w)"
  unfolding icmp_type_time_exceeded_def
  by (rule safe_need, rule safe_bindr [OF icmp_allocate_ok])
     (use assms in \<open>auto simp: length_icmp_error_data\<close>)

lemma icmp_type_time_exceeded_same:
  assumes "wok {} n w" and "recv_same n recv recv'"
  shows "icmp_type_time_exceeded recv E pi src w = icmp_type_time_exceeded recv' E pi src w"
  using icmp_allocate_same [OF assms(1) length_icmp_error_data _ assms(2)]
  by (simp add: icmp_type_time_exceeded_def need_def)

section \<open>Local delivery\<close>

lemma update_ip_packet_response_ok:
  assumes ok: "wok {} n w" and f: "frame_ok n pi" "pi_interface pi = Some i"
  shows "safe wire_faults (\<lambda>(_, w). wok {} n w) (update_ip_packet_response E pi d s ttl w)"
proof -
  have fin: "safe wire_faults (\<lambda>(_, w). wok {} n w)
      (update_ethernet_header E (pi\<lparr>pi_packet := p\<rparr>) tm sm (w\<lparr>ip_id := c\<rparr>))"
    if "length p = length (pi_packet pi)" for p tm sm c
  proof -
    have "safe wire_faults (\<lambda>(_, w). wok {} n w)
        (bindr (ethernet_packet_send E (Some i) tm sm ty (pi\<lparr>pi_packet := q\<rparr>) (w\<lparr>ip_id := c\<rparr>))
          (\<lambda>(_, pi, w). Inr (pi, w)))" if "length q = length p" for q tm sm ty
      by (rule safe_bindr [OF ethernet_packet_send_ok [where L = "{}" and n = n]])
         (use ok f \<open>length p = length (pi_packet pi)\<close> that in \<open>auto simp: frame_ok_def\<close>)
    then show ?thesis using f(2) by (simp add: update_ethernet_header_def Let_def need_def)
  qed
  show ?thesis
    unfolding update_ip_packet_response_def Let_def
    by (rule safe_need, rule safe_bindr [OF checksum_fill_length], rule fin) auto
qed

lemma icmp_type_echo_replay_ok:
  assumes ok: "wok {} n w" and f: "frame_ok n pi" "pi_interface pi = Some i"
  shows "safe wire_faults (wok {} n) (icmp_type_echo_replay E pi w)"
  unfolding icmp_type_echo_replay_def Let_def
proof (rule safe_bindr [OF checksum_fill_length])
  fix p :: "byte list" assume "length p = length (put8 34 ICMP_TYPE_REPLAY (pi_packet pi))"
  then have "frame_ok n (pi\<lparr>pi_packet := p\<rparr>)" "pi_interface (pi\<lparr>pi_packet := p\<rparr>) = Some i"
    using f by (simp_all add: frame_ok_def)
  then show "safe wire_faults (wok {} n) (bindr (update_ip_packet_response E (pi\<lparr>pi_packet := p\<rparr>)
      (ip4_src_ip p) (ip4_dst_ip p) 64 w) (\<lambda>(_, w). Inr w))"
    by (intro safe_bindr [OF update_ip_packet_response_ok [OF ok]]) auto
qed

lemma cli_ping_handle_reply_ok:
  assumes "wok L n w" and "cli_ping_handle_reply ip seq w = (r, w')"
  shows "wok L n w'"
  using assms by (auto simp: cli_ping_handle_reply_def Let_def split: if_splits option.splits)

lemma ip_deliver_icmp_ok:
  assumes ok: "wok {} n w" and f: "frame_ok n pi" "pi_interface pi = Some i"
    and recv: "recv_ok n recv"
  shows "safe wire_faults (wok {} n) (ip_deliver_icmp recv E pi own w)"
  using icmp_type_echo_replay_ok [OF ok f] ok icmp_send_ok [OF _ _ recv]
    cli_ping_handle_reply_ok [OF ok]
  by (auto simp: ip_deliver_icmp_def need_def Let_def split: prod.split)

lemma ip_deliver_icmp_same:
  assumes ok: "wok {} n w" and recv: "recv_same n recv recv'"
  shows "ip_deliver_icmp recv E pi own w = ip_deliver_icmp recv' E pi own w"
  using icmp_send_same [OF _ _ recv] cli_ping_handle_reply_ok [OF ok]
  by (auto simp: ip_deliver_icmp_def need_def Let_def split: prod.split)

lemma ip_deliver_udp_ok:
  assumes ok: "wok {} n w" and i: "pi_interface pi = Some i" "i < n" and recv: "recv_ok n recv"
  shows "safe wire_faults (wok {} n) (ip_deliver_udp recv E pi own w)"
proof -
  note unreach = icmp_send_ok [OF ok error_types_mem(1) recv]
  have "safe wire_faults (wok {} n)
      (if ntohs (u16_at p 36) = PORT_DNS then
         (if PACKET_CAN_MARSHALL sizeof_packet_dns 42 (pi_len pi) then dns_onreceive E pi w else Inr w)
       else icmp_send recv E pi own ICMP_TYPE_DST_UNREACH ICMP_CODE_PORT_UNREACH w)" for p
    using unreach dns_onreceive_ok [OF ok i] ok by simp
  then have "safe wire_faults (wok {} n)
      (if bad then icmp_send recv E pi own ICMP_TYPE_DST_UNREACH ICMP_CODE_PORT_UNREACH w
       else if ntohs (u16_at p 36) = PORT_DNS then
         (if PACKET_CAN_MARSHALL sizeof_packet_dns 42 (pi_len pi) then dns_onreceive E pi w else Inr w)
       else icmp_send recv E pi own ICMP_TYPE_DST_UNREACH ICMP_CODE_PORT_UNREACH w)" for bad p
    using unreach by (cases bad) simp_all
  moreover have "safe wire_faults (\<lambda>_. True)
      (if b then bindr (generatechecksum ps m) (\<lambda>c. Inr (c \<noteq> 0)) else Inr False)" for b ps m
    by (auto intro: safe_bindr [OF generatechecksum_safe])
  ultimately show ?thesis
    unfolding ip_deliver_udp_def Let_def using unreach
    by (cases "PACKET_CAN_MARSHALL sizeof_packet_udp 34 (pi_len pi)")
       (simp_all only: if_True if_False,
        blast intro: safe_bindr [OF malloc_udp_pseudo_header_safe] safe_bindr [where P = "\<lambda>_. True"])
qed

lemma ip_deliver_udp_same:
  assumes ok: "wok {} n w" and recv: "recv_same n recv recv'"
  shows "ip_deliver_udp recv E pi own w = ip_deliver_udp recv' E pi own w"
  using icmp_send_same [OF ok _ recv] by (simp add: ip_deliver_udp_def)

lemma ip_local_deliver_ok:
  assumes ok: "wok {} n w" and f: "frame_ok n pi" and recv: "recv_ok n recv" and mc: "memcmp_sound E"
  shows "safe wire_faults (wok {} n) (ip_local_deliver recv E pi own w)"
proof -
  have intf: "\<exists>i<n. pi_interface pi = Some i" if "ip4_protocol (pi_packet pi) \<noteq> IP_TYPE_TCP"
    using that f by (auto simp: frame_ok_def split: option.splits)
  show ?thesis
  proof (cases "ip4_protocol (pi_packet pi) = IP_TYPE_TCP")
    case True
    then show ?thesis
      using ok icmp_type_time_exceeded_ok [OF ok recv]
      by (simp add: ip_local_deliver_def Let_def IP_TYPE_TCP_def IP_TYPE_ICMP_def sr_transport_input_def)
  next
    case False
    then obtain i where i: "pi_interface pi = Some i" "i < n" using intf by blast
    show ?thesis
      using ok icmp_type_time_exceeded_ok [OF ok recv] icmp_send_ok [OF ok _ recv]
        ip_deliver_udp_ok [OF ok i recv] ip_deliver_icmp_ok [OF ok f i(1) recv]
        pwospf_onreceive_ok [OF ok i f mc] False
      by (simp add: ip_local_deliver_def Let_def)
  qed
qed

lemma ip_local_deliver_same:
  assumes ok: "wok {} n w" and recv: "recv_same n recv recv'"
  shows "ip_local_deliver recv E pi own w = ip_local_deliver recv' E pi own w"
  using icmp_send_same [OF ok _ recv] icmp_type_time_exceeded_same [OF ok recv]
    ip_deliver_icmp_same [OF ok recv] ip_deliver_udp_same [OF ok recv]
  by (simp add: ip_local_deliver_def Let_def)

section \<open>Forwarding\<close>

lemma ip_send_next_hop_ok:
  assumes ok: "wok L n w" and f: "frame_ok n pi" and i: "i < n"
  shows "safe wire_faults (wok L n) (ip_send_next_hop E pi (Some i) m w)"
proof -
  have "safe wire_faults (wok L n)
      (bindr (ethernet_packet_send E (Some i) m sm ty (pi\<lparr>pi_packet := p\<rparr>) w) (\<lambda>(_, _, w). Inr w))"
    if "length p = length (pi_packet pi)" for p sm ty
    by (rule safe_bindr [OF ethernet_packet_send_ok [OF ok]])
       (use f that in \<open>auto simp: frame_ok_def\<close>)
  then show ?thesis
    unfolding ip_send_next_hop_def Let_def wok_intf [OF ok i] bindr.simps
    by (intro safe_bindr [OF checksum_fill_length]) simp
qed

text \<open>What forwarding does, once the route and the next hop are known.\<close>

definition hop_address :: "rtable_entry \<Rightarrow> addr_ip \<Rightarrow> addr_ip" where
  "hop_address e ip = (if router_ip e = 0 then ip else router_ip e)"

lemma ip_forward_Some:
  assumes ok: "wok L n w" and ttl: "\<not> ip4_ttl (pi_packet pi) \<le> 1"
    and r: "lpm (packet (ip_table w)) (ip4_dst_ip (pi_packet pi)) = Some (k, e)"
  shows "ip_forward recv E pi w =
    (let hop = hop_address e (ip4_dst_ip (pi_packet pi))
     in case first_match (\<lambda>e. arp_ip e = hop) (packet (arp_cache w)) of
          Some (_, a) \<Rightarrow> ip_send_next_hop E pi (rt_interface e) (arp_mac a) w
        | None \<Rightarrow> arp_queue_ippacket_for_send_on_arp_request_response E pi (rt_interface e) hop w)"
  using ttl r
  by (auto simp: ip_forward_def wok_table [OF ok] wok_arp [OF ok] hop_address_def Let_def
      split: option.split)

lemma ip_forward_ok:
  assumes ok: "wok {} n w" and f: "frame_ok n pi" and recv: "recv_ok n recv"
  shows "safe wire_faults (wok {} n) (ip_forward recv E pi w)"
proof (cases "ip4_ttl (pi_packet pi) \<le> 1")
  case True
  then show ?thesis using icmp_type_time_exceeded_ok [OF ok recv] by (simp add: ip_forward_def)
next
  case ttl: False
  show ?thesis
  proof (cases "lpm (packet (ip_table w)) (ip4_dst_ip (pi_packet pi))")
    case None
    then show ?thesis
      using ttl icmp_send_ok [OF ok _ recv]
      by (auto simp: ip_forward_def wok_table [OF ok] interface_at_def need_def)
  next
    case (Some r)
    then obtain k e where r: "lpm (packet (ip_table w)) (ip4_dst_ip (pi_packet pi)) = Some (k, e)"
      by force
    obtain i where "i < n" "rt_interface e = Some i" using wok_route [OF ok r] by blast
    then show ?thesis
      using ip_send_next_hop_ok [OF ok f] arp_queue_ippacket_ok [OF ok f]
      by (auto simp: ip_forward_Some [OF ok ttl r] Let_def split: option.split)
  qed
qed

lemma ip_forward_same:
  assumes ok: "wok {} n w" and recv: "recv_same n recv recv'"
  shows "ip_forward recv E pi w = ip_forward recv' E pi w"
  using icmp_type_time_exceeded_same [OF ok recv] icmp_send_same [OF ok _ recv]
  by (simp add: ip_forward_def Let_def wok_table [OF ok] cong: option.case_cong)

section \<open>Reception\<close>

lemma own_interface_from_spec:
  assumes "i + m \<le> length (interface w)"
  shows "safe {} (\<lambda>r. case r of
       Some k \<Rightarrow> i \<le> k \<and> k < i + m \<and> if_ip (interface w ! k) = ip
     | None \<Rightarrow> \<forall>k. i \<le> k \<and> k < i + m \<longrightarrow> if_ip (interface w ! k) \<noteq> ip)
    (own_interface_from w ip m i)"
  using assms
proof (induction m arbitrary: i)
  case (Suc m)
  have "safe {} (\<lambda>r. case r of
       Some k \<Rightarrow> Suc i \<le> k \<and> k < Suc i + m \<and> if_ip (interface w ! k) = ip
     | None \<Rightarrow> \<forall>k. Suc i \<le> k \<and> k < Suc i + m \<longrightarrow> if_ip (interface w ! k) \<noteq> ip)
    (own_interface_from w ip m (Suc i))" using Suc by simp
  then have "safe {} (\<lambda>r. case r of
       Some k \<Rightarrow> i \<le> k \<and> k < i + Suc m \<and> if_ip (interface w ! k) = ip
     | None \<Rightarrow> \<forall>k. i \<le> k \<and> k < i + Suc m \<longrightarrow> if_ip (interface w ! k) \<noteq> ip)
    (own_interface_from w ip m (Suc i))" if "if_ip (interface w ! i) \<noteq> ip"
  proof (rule safe_mono)
    fix r assume r: "case r of
       Some k \<Rightarrow> Suc i \<le> k \<and> k < Suc i + m \<and> if_ip (interface w ! k) = ip
     | None \<Rightarrow> \<forall>k. Suc i \<le> k \<and> k < Suc i + m \<longrightarrow> if_ip (interface w ! k) \<noteq> ip"
    show "case r of
       Some k \<Rightarrow> i \<le> k \<and> k < i + Suc m \<and> if_ip (interface w ! k) = ip
     | None \<Rightarrow> \<forall>k. i \<le> k \<and> k < i + Suc m \<longrightarrow> if_ip (interface w ! k) \<noteq> ip"
    proof (cases r)
      case None
      with r that show ?thesis by simp (metis Suc_leI le_neq_implies_less)
    qed (use r in simp)
  qed simp
  then show ?case using Suc.prems by (simp add: interface_at_def)
qed auto

lemma own_interface_cases:
  assumes ok: "wok L n w"
  obtains k where "own_interface w ip = Inr (Some k)" "k < n" "if_ip (interface w ! k) = ip"
  | "own_interface w ip = Inr None" "\<And>k. k < n \<Longrightarrow> if_ip (interface w ! k) \<noteq> ip"
proof -
  obtain r where r: "own_interface w ip = Inr r"
      "case r of Some k \<Rightarrow> k < n \<and> if_ip (interface w ! k) = ip
               | None \<Rightarrow> \<forall>k<n. if_ip (interface w ! k) \<noteq> ip"
    using own_interface_from_spec [of 0 n w ip] wokD(1,2) [OF ok]
    by (auto simp: own_interface_def safe_empty_iff cong: option.case_cong)
  then show thesis using that by (cases r) auto
qed

text \<open>What a packet with a valid header does: control, local delivery or forwarding.\<close>

definition for_ospf :: "byte list \<Rightarrow> bool" where
  "for_ospf p \<longleftrightarrow> ip4_dst_ip p = ALLSPFRouters \<and> ip4_protocol p = IP_TYPE_OSPF"

lemma ip_receive_invalid:
  assumes "34 \<le> length (pi_packet pi)" and "\<not> ip_header_ok (pi_packet pi)"
  shows "ip_receive recv E pi w = bindr (ip_print (pi_packet pi)) (\<lambda>_. Inr w)"
  using assms by (simp add: ip_receive_def Let_def ip_header_check_iff)

lemma ip_receive_valid:
  assumes "34 \<le> length (pi_packet pi)" and "ip_header_ok (pi_packet pi)"
    and "\<not> for_ospf (pi_packet pi)" and ok: "wok L n w"
  shows "(\<exists>k<n. if_ip (interface w ! k) = ip4_dst_ip (pi_packet pi)
            \<and> (\<forall>recv. ip_receive recv E pi w =
                 ip_local_deliver recv E pi (ip4_dst_ip (pi_packet pi)) w))
       \<or> ((\<forall>k<n. if_ip (interface w ! k) \<noteq> ip4_dst_ip (pi_packet pi))
            \<and> (\<forall>recv. ip_receive recv E pi w = ip_forward recv E pi w))"
  using assms
  by (cases rule: own_interface_cases [OF ok, of "ip4_dst_ip (pi_packet pi)"])
     (auto simp: ip_receive_def Let_def ip_header_check_iff for_ospf_def wok_intf [OF ok])

lemma ip_print_safe: "safe wire_faults (\<lambda>_. True) (ip_print p)"
  by (auto simp: ip_print_def need_def Let_def)

lemma ip_receive_ok:
  assumes ok: "wok {} n w" and f: "frame_ok n pi" and recv: "recv_ok n recv" and mc: "memcmp_sound E"
  shows "safe wire_faults (wok {} n) (ip_receive recv E pi w)"
proof -
  let ?p = "pi_packet pi"
  consider "length ?p < 34" | "34 \<le> length ?p" "\<not> ip_header_ok ?p"
    | "34 \<le> length ?p" "ip_header_ok ?p" "for_ospf ?p"
    | "34 \<le> length ?p" "ip_header_ok ?p" "\<not> for_ospf ?p" by linarith
  then show ?thesis
  proof cases
    case 1
    then show ?thesis by (simp add: ip_receive_def ip_header_check_def Let_def)
  next
    case 2
    show ?thesis unfolding ip_receive_invalid [OF 2]
      by (rule safe_bindr [OF ip_print_safe]) (use ok in simp)
  next
    case 3
    then have "ip4_protocol ?p \<noteq> IP_TYPE_TCP"
      by (simp add: for_ospf_def IP_TYPE_OSPF_def IP_TYPE_TCP_def)
    then obtain i where i: "pi_interface pi = Some i" "i < n"
      using f by (auto simp: frame_ok_def split: option.splits)
    then show ?thesis
      using 3 ok pwospf_onreceive_ok [OF ok i f mc]
      by (simp add: ip_receive_def ip_header_check_iff for_ospf_def)
  next
    case 4
    then show ?thesis
      using ip_receive_valid [OF 4 ok, of E] ip_local_deliver_ok [OF ok f recv mc] ip_forward_ok [OF ok f recv]
      by auto
  qed
qed

lemma ip_receive_same:
  assumes ok: "wok {} n w" and recv: "recv_same n recv recv'"
  shows "ip_receive recv E pi w = ip_receive recv' E pi w"
proof (cases "34 \<le> length (pi_packet pi)")
  case True
  show ?thesis
    using ip_local_deliver_same [OF ok recv] ip_forward_same [OF ok recv]
    by (cases rule: own_interface_cases [OF ok, of "ip4_dst_ip (pi_packet pi)"])
       (simp_all add: ip_receive_def Let_def ip_header_check_iff [OF True])
next
  case False
  then show ?thesis by (simp add: ip_receive_def ip_header_check_def Let_def)
qed

section \<open>The depth of the recursion\<close>

text \<open>A generated error never calls the receive function.\<close>

lemma generated_same:
  assumes ok: "wok {} n w" and g: "generated n w pi"
  shows "ip_receive recv E pi w = ip_receive recv' E pi w"
proof -
  let ?p = "pi_packet pi"
  have p: "34 \<le> length ?p" "ip_header_ok ?p" "\<not> for_ospf ?p" and ttl: "ip4_ttl ?p = 65"
    using g by (simp_all add: generated_def for_ospf_def frame_ok_def IP_TYPE_ICMP_def IP_TYPE_OSPF_def)
  obtain k e where r: "lpm (packet (ip_table w)) (ip4_dst_ip ?p) = Some (k, e)"
    using g by (auto simp: generated_def)
  have "ip_local_deliver recv E pi own w = ip_local_deliver recv' E pi own w" for own
    using g
    by (auto simp: generated_def ip_local_deliver_def ip_deliver_icmp_def Let_def
        ICMP_TYPE_DST_UNREACH_def ICMP_TYPE_TIME_EXCEEDED_def ICMP_TYPE_REQUEST_def
        ICMP_TYPE_REPLAY_def)
  moreover have "ip_forward recv E pi w = ip_forward recv' E pi w"
  proof -
    have "\<not> ip4_ttl ?p \<le> 1" unfolding ttl by (simp add: word_le_nat_alt)
    from ip_forward_Some [OF ok this r] show ?thesis by metis
  qed
  ultimately show ?thesis using ip_receive_valid [OF p ok, of E] by auto
qed

lemma generated_recv_ok:
  assumes "memcmp_sound E"
  shows "recv_ok n (ip_onreceive (Suc m) E)"
  unfolding recv_ok_def
proof (intro allI impI)
  fix pi w assume ok: "wok {} n w" and g: "generated n w pi"
  have "recv_ok n (\<lambda>pi w. Inr w)" by (simp add: recv_ok_def)
  then have "safe wire_faults (wok {} n) (ip_receive (\<lambda>pi w. Inr w) E pi w)"
    using ip_receive_ok [OF ok _ _ assms] g by (simp add: generated_def)
  then show "safe wire_faults (wok {} n) (ip_onreceive (Suc m) E pi w)"
    using generated_same [OF ok g] by (metis ip_onreceive.simps(2))
qed

lemma ip_onreceive_ok:
  assumes "wok {} n w" and "frame_ok n pi" and "memcmp_sound E"
  shows "safe wire_faults (wok {} n) (ip_onreceive (Suc (Suc m)) E pi w)"
  using ip_receive_ok [OF assms(1,2) generated_recv_ok assms(3)] assms(3) by simp

lemma ip_onreceive_two:
  assumes "wok {} n w"
  shows "ip_onreceive (Suc (Suc m)) E pi w = ip_onreceive 2 E pi w"
proof -
  have "recv_same n (ip_onreceive (Suc m) E) (ip_onreceive (Suc 0) E)"
    unfolding recv_same_def using generated_same by (metis ip_onreceive.simps(2))
  then show ?thesis
    using ip_receive_same [OF assms, of "ip_onreceive (Suc m) E" "ip_onreceive (Suc 0) E"]
    by (simp add: numeral_2_eq_2)
qed

end
