(* ===== verification/Forwarding.thy ===== *)
theory Forwarding
  imports IpPath
begin

text \<open>
  What the router puts on the wire: the frame a forwarded packet leaves in, the packet
  and the request of an unresolved next hop, the ICMP error for an expired packet and
  the reply to an echo request, each traced from \<open>ip_onreceive\<close> to the frame.
\<close>

section \<open>Frames\<close>

lemma u8_at_take: "u8_at (take k p) i = (if i < k then u8_at p i else 0)"
  by (simp add: u8_at_def)

lemma mac_at_cong: "(\<And>j. i \<le> j \<Longrightarrow> j < i + 6 \<Longrightarrow> u8_at p j = u8_at q j) \<Longrightarrow> mac_at p i = mac_at q i"
  by (simp add: mac_at_def)

lemma u32_at_cong: "(\<And>j. i \<le> j \<Longrightarrow> j < i + 4 \<Longrightarrow> u8_at p j = u8_at q j) \<Longrightarrow> u32_at p i = u32_at q i"
  by (simp add: u32_at_def u16_at_def)

lemma mac_at_take: "i + 6 \<le> k \<Longrightarrow> mac_at (take k p) i = mac_at p i"
  by (rule mac_at_cong) (simp add: u8_at_take)

lemma u32_at_take: "i + 4 \<le> k \<Longrightarrow> u32_at (take k p) i = u32_at p i"
  by (rule u32_at_cong) (simp add: u8_at_take)

lemma u16_at_take: "i + 2 \<le> k \<Longrightarrow> u16_at (take k p) i = u16_at p i"
  by (rule u16_at_cong) (simp_all add: u8_at_take)

text \<open>
  \<open>f\<close> is the frame \<open>p\<close> forwarded to \<open>tm\<close> by the interface with address \<open>sm\<close>: new
  Ethernet header, TTL one less, valid header checksum, and every other byte kept.
\<close>

definition forwarded :: "byte list \<Rightarrow> addr_mac \<Rightarrow> addr_mac \<Rightarrow> byte list \<Rightarrow> bool" where
  "forwarded p tm sm f \<longleftrightarrow>
     length f = length p \<and> eth_dest_mac f = tm \<and> eth_source_mac f = sm
     \<and> eth_type f = htons ETH_IP_TYPE \<and> ip_header_ok f \<and> ip4_ttl f = ip4_ttl p - 1
     \<and> (\<forall>j. 14 \<le> j \<longrightarrow> j \<noteq> 22 \<longrightarrow> j \<noteq> 24 \<longrightarrow> j \<noteq> 25 \<longrightarrow> u8_at f j = u8_at p j)"

text \<open>The bytes of a frame that are on the wire.\<close>

abbreviation wire_frame :: "packet_info \<Rightarrow> byte list" where
  "wire_frame pi \<equiv> take (unat (pi_len pi)) (pi_packet pi)"

lemma forwarded_frame:
  assumes len: "34 \<le> k" "k \<le> length q" "length q = length p"
    and q: "ip_header_ok q" "ip4_ttl q = ip4_ttl p - 1"
      "\<And>j. j \<noteq> 22 \<Longrightarrow> j \<noteq> 24 \<Longrightarrow> j \<noteq> 25 \<Longrightarrow> u8_at q j = u8_at p j"
  shows "forwarded (take k p) tm sm
           (take k (put16 12 (htons ETH_IP_TYPE) (put_mac 6 sm (put_mac 0 tm q))))"
proof -
  let ?f = "put16 12 (htons ETH_IP_TYPE) (put_mac 6 sm (put_mac 0 tm q))"
  have rest: "u8_at ?f j = u8_at q j" if "14 \<le> j" for j using that by (simp add: wire)
  have "mac_at (take k ?f) 0 = mac_at ?f 0" "mac_at (take k ?f) 6 = mac_at ?f 6"
    using len by (auto intro!: mac_at_cong simp: u8_at_take)
  then have macs: "mac_at (take k ?f) 0 = tm" "mac_at (take k ?f) 6 = sm"
    using len by (simp_all add: wire)
  have "u16_at (take k ?f) 12 = u16_at ?f 12"
    using len by (intro u16_at_cong) (simp_all add: u8_at_take)
  then have ty: "u16_at (take k ?f) 12 = htons ETH_IP_TYPE" using len by (simp add: wire)
  have "ip_header_ok (take k ?f) \<longleftrightarrow> ip_header_ok q"
    by (rule ip_header_ok_cong) (use len rest in \<open>simp_all add: u8_at_take\<close>)
  then show ?thesis
    using len q macs ty rest by (simp add: forwarded_def u8_at_take)
qed

lemma ip_send_next_hop_eq:
  assumes ok: "wok L n w" and i: "i < n" and hdr: "ip_header_ok (pi_packet pi)"
    and len: "34 \<le> unat (pi_len pi)" "unat (pi_len pi) \<le> length (pi_packet pi)"
  shows "\<exists>f. ip_send_next_hop E pi (Some i) tm w = Inr (w\<lparr>sent := sent w @ [(i, f)]\<rparr>)
           \<and> forwarded (wire_frame pi) tm (if_mac (interface w ! i)) f"
proof -
  let ?p = "pi_packet pi" and ?k = "unat (pi_len pi)"
  obtain q where q: "checksum_fill 14 24 20 (put8 22 (ip4_ttl ?p - 1) ?p) = Inr q"
      "length q = length ?p" "ip_header_ok q" "ip4_ttl q = ip4_ttl ?p - 1"
      "\<And>j. j \<noteq> 22 \<Longrightarrow> j \<noteq> 24 \<Longrightarrow> j \<noteq> 25 \<Longrightarrow> u8_at q j = u8_at ?p j"
    using ip_refill_ok [OF _ hdr, of 22 "ip4_ttl ?p - 1"] len by (auto simp: safe_empty_iff)
  let ?f = "take ?k (put16 12 (htons ETH_IP_TYPE)
      (put_mac 6 (if_mac (interface w ! i)) (put_mac 0 tm q)))"
  have "forwarded (wire_frame pi) tm (if_mac (interface w ! i)) ?f"
    by (rule forwarded_frame) (use len q in auto)
  moreover have "ip_send_next_hop E pi (Some i) tm w = Inr (w\<lparr>sent := sent w @ [(i, ?f)]\<rparr>)"
    using q(1,2) len
    by (simp add: ip_send_next_hop_def wok_intf [OF ok i] ethernet_packet_send_Some Let_def)
  ultimately show ?thesis by blast
qed

section \<open>Transit packets\<close>

text \<open>A packet the router has to forward: valid, not for the router, with a TTL above 1.\<close>

definition in_transit :: "world \<Rightarrow> packet_info \<Rightarrow> bool" where
  "in_transit w pi \<longleftrightarrow>
     34 \<le> unat (pi_len pi) \<and> unat (pi_len pi) \<le> length (pi_packet pi)
     \<and> ip_header_ok (pi_packet pi) \<and> \<not> for_ospf (pi_packet pi)
     \<and> (\<forall>i<num_interfaces w. if_ip (interface w ! i) \<noteq> ip4_dst_ip (pi_packet pi))"

lemma in_transit_receive:
  assumes ok: "wok L n w" and t: "in_transit w pi"
  shows "ip_receive recv E pi w = ip_forward recv E pi w"
proof -
  have p: "34 \<le> length (pi_packet pi)" "ip_header_ok (pi_packet pi)" "\<not> for_ospf (pi_packet pi)"
    using t by (auto simp: in_transit_def)
  show ?thesis using ip_receive_valid [OF p ok, of E] t wokD(1) [OF ok] by (auto simp: in_transit_def)
qed

lemma in_transit_sent:
  assumes ok: "wok L n w" and t: "in_transit w pi" and ttl: "\<not> ip4_ttl (pi_packet pi) \<le> 1"
    and r: "lpm (packet (ip_table w)) (ip4_dst_ip (pi_packet pi)) = Some (k, e)"
    and a: "first_match (\<lambda>e'. arp_ip e' = hop_address e (ip4_dst_ip (pi_packet pi)))
              (packet (arp_cache w)) = Some (j, a)"
  shows "\<exists>i f. i < n \<and> rt_interface e = Some i
     \<and> ip_receive recv E pi w = Inr (w\<lparr>sent := sent w @ [(i, f)]\<rparr>)
     \<and> forwarded (wire_frame pi) (arp_mac a) (if_mac (interface w ! i)) f"
proof -
  obtain i where i: "i < n" "rt_interface e = Some i" using wok_route [OF ok r] by blast
  have "ip_receive recv E pi w = ip_send_next_hop E pi (Some i) (arp_mac a) w"
    using in_transit_receive [OF ok t, of recv E] ip_forward_Some [OF ok ttl r, of recv E] a i by simp
  with ip_send_next_hop_eq [OF ok i(1), of pi E "arp_mac a"] t i show ?thesis
    by (auto simp: in_transit_def)
qed

lemma in_transit_queued:
  assumes ok: "wok L n w" and t: "in_transit w pi" and ttl: "\<not> ip4_ttl (pi_packet pi) \<le> 1"
    and r: "lpm (packet (ip_table w)) (ip4_dst_ip (pi_packet pi)) = Some (k, e)"
    and a: "first_match (\<lambda>e'. arp_ip e' = hop_address e (ip4_dst_ip (pi_packet pi)))
              (packet (arp_cache w)) = None"
  shows "\<exists>i<n. rt_interface e = Some i
     \<and> ip_receive recv E pi w = Inr (w\<lparr>ticks := Suc (ticks w),
          iparp_buffer := queue_of sizeof_iparp_buffer_entry (packet (iparp_buffer w) @
            [\<lparr>ib_packet_info = pi\<lparr>pi_packet := wire_frame pi\<rparr>,
              reception_time = clock E (ticks w), sent_arps_count = 1,
              ib_len = sizeof_packet_info + int (unat (pi_len pi)), ib_intf = Some i,
              ib_dest = hop_address e (ip4_dst_ip (pi_packet pi))\<rparr>]),
          sent := sent w @ [(i, arp_request_frame (interface w ! i)
                                  (hop_address e (ip4_dst_ip (pi_packet pi))))]\<rparr>)"
proof -
  obtain i where i: "i < n" "rt_interface e = Some i" using wok_route [OF ok r] by blast
  let ?hop = "hop_address e (ip4_dst_ip (pi_packet pi))"
  have "ip_receive recv E pi w =
      arp_queue_ippacket_for_send_on_arp_request_response E pi (Some i) ?hop w"
    using in_transit_receive [OF ok t, of recv E] ip_forward_Some [OF ok ttl r, of recv E] a i by simp
  moreover have "iparp_buffer w = queue_of sizeof_iparp_buffer_entry (packet (iparp_buffer w))"
    using wokD(10) [OF ok] by (simp add: table_inv_iff)
  ultimately show ?thesis
    using i t wokD(2) [OF ok] arp_queue_ippacket_eq [of i w pi "packet (iparp_buffer w)" E ?hop]
    by (auto simp: in_transit_def)
qed

section \<open>Expired packets\<close>

lemma icmp_message_transit:
  assumes m: "icmp_message s d type code data p" and len: "length data = 56"
    and own: "\<And>i. i < num_interfaces w \<Longrightarrow> if_ip (interface w ! i) \<noteq> d"
  shows "in_transit w \<lparr>pi_packet = p, pi_len = of_nat (42 + length data), pi_interface = i\<rparr>"
  using assms
  by (auto simp: icmp_message_def in_transit_def for_ospf_def ip_header_is_def IP_TYPE_ICMP_def
      IP_TYPE_OSPF_def)

text \<open>A generated message leaves the router in one frame, when its next hop is resolved.\<close>

lemma icmp_error_sent:
  assumes ok: "wok {} n w" and len: "length data = 56"
    and own: "\<And>i. i < n \<Longrightarrow> if_ip (interface w ! i) \<noteq> ip"
    and r: "lpm (packet (ip_table w)) ip = Some (k, e)"
    and a: "first_match (\<lambda>e'. arp_ip e' = hop_address e ip) (packet (arp_cache w)) = Some (j, a)"
  shows "\<exists>i p f. i < n \<and> rt_interface e = Some i
     \<and> icmp_message (if src = -1 then if_ip (interface w ! i) else src) ip type code data p
     \<and> forwarded p (arp_mac a) (if_mac (interface w ! i)) f
     \<and> icmp_allocate_and_send (ip_onreceive (Suc m) E) ip code type 0 0 data src w =
         Inr (1, w\<lparr>sent := sent w @ [(i, f)]\<rparr>)"
proof -
  have len': "length data \<le> 56" using len by simp
  obtain i p where p: "i < n" "rt_interface e = Some i"
      "icmp_message (if src = -1 then if_ip (interface w ! i) else src) ip type code data p"
      "\<And>recv. icmp_allocate_and_send recv ip code type 0 0 data src w =
          bindr (recv \<lparr>pi_packet = p, pi_len = of_nat (42 + length data), pi_interface = Some i\<rparr> w)
            (\<lambda>w. Inr (1, w))"
    using icmp_allocate_Some [OF ok r len', of src type code] by auto
  let ?pi = "\<lparr>pi_packet = p, pi_len = of_nat (42 + length data), pi_interface = Some i\<rparr>"
  have t: "in_transit w ?pi"
    by (rule icmp_message_transit [OF p(3) len]) (use own wokD(1) [OF ok] in simp)
  have d: "ip4_dst_ip (pi_packet ?pi) = ip" "ip4_ttl (pi_packet ?pi) = 65" "length p = 98"
    using p(3) by (simp_all add: icmp_message_def ip_header_is_def)
  then have ttl: "\<not> ip4_ttl (pi_packet ?pi) \<le> 1" by (simp add: word_le_nat_alt)
  obtain f where f: "ip_receive (ip_onreceive m E) E ?pi w = Inr (w\<lparr>sent := sent w @ [(i, f)]\<rparr>)"
      "forwarded (wire_frame ?pi) (arp_mac a) (if_mac (interface w ! i)) f"
    using in_transit_sent [OF ok t ttl, of k e j a "ip_onreceive m E" E] r a d p(2) by auto
  have "wire_frame ?pi = p" using len d(3) by simp
  with f p show ?thesis by (intro exI [of _ i] exI [of _ p] exI [of _ f]) simp
qed

lemma expired_sent:
  assumes ok: "wok {} n w" and t: "in_transit w pi" and ttl: "ip4_ttl (pi_packet pi) \<le> 1"
    and len: "42 \<le> length (pi_packet pi)"
    and own: "\<And>i. i < n \<Longrightarrow> if_ip (interface w ! i) \<noteq> ip4_src_ip (pi_packet pi)"
    and r: "lpm (packet (ip_table w)) (ip4_src_ip (pi_packet pi)) = Some (k, e)"
    and a: "first_match (\<lambda>e'. arp_ip e' = hop_address e (ip4_src_ip (pi_packet pi)))
              (packet (arp_cache w)) = Some (j, a)"
  shows "\<exists>i p f. i < n \<and> rt_interface e = Some i
     \<and> icmp_message (if_ip (interface w ! i)) (ip4_src_ip (pi_packet pi))
          ICMP_TYPE_TIME_EXCEEDED 0 (icmp_error_data E (pi_packet pi)) p
     \<and> forwarded p (arp_mac a) (if_mac (interface w ! i)) f
     \<and> ip_onreceive (Suc (Suc m)) E pi w = Inr (w\<lparr>sent := sent w @ [(i, f)]\<rparr>)"
proof -
  obtain i p f where p: "i < n" "rt_interface e = Some i"
      "icmp_message (if_ip (interface w ! i)) (ip4_src_ip (pi_packet pi))
          ICMP_TYPE_TIME_EXCEEDED 0 (icmp_error_data E (pi_packet pi)) p"
      "forwarded p (arp_mac a) (if_mac (interface w ! i)) f"
      "icmp_allocate_and_send (ip_onreceive (Suc m) E) (ip4_src_ip (pi_packet pi)) 0
         ICMP_TYPE_TIME_EXCEEDED 0 0 (icmp_error_data E (pi_packet pi)) (-1) w =
         Inr (1, w\<lparr>sent := sent w @ [(i, f)]\<rparr>)"
    using icmp_error_sent [OF ok length_icmp_error_data [OF len] own r a,
        of "-1" ICMP_TYPE_TIME_EXCEEDED 0 E m E] by auto
  have "ip_onreceive (Suc (Suc m)) E pi w =
      ip_forward (ip_onreceive (Suc m) E) E pi w"
    using in_transit_receive [OF ok t, of "ip_onreceive (Suc m) E" E] by simp
  also have "\<dots> = icmp_type_time_exceeded (ip_onreceive (Suc m) E) E pi (-1) w"
    using ttl by (simp add: ip_forward_def)
  also have "\<dots> = Inr (w\<lparr>sent := sent w @ [(i, f)]\<rparr>)"
    using p(5) len by (simp add: icmp_type_time_exceeded_def)
  finally show ?thesis using p by blast
qed

section \<open>Echo requests\<close>

text \<open>
  The reply to an echo request is written into the frame of the request: addresses
  and MAC addresses swapped, type 0, TTL 64, both checksums valid; the payload stays.
\<close>

definition echo_reply :: "byte list \<Rightarrow> byte list \<Rightarrow> bool" where
  "echo_reply p f \<longleftrightarrow>
     length f = length p \<and> eth_dest_mac f = eth_source_mac p \<and> eth_source_mac f = eth_dest_mac p
     \<and> ip4_dst_ip f = ip4_src_ip p \<and> ip4_src_ip f = ip4_dst_ip p \<and> ip_header_ok f
     \<and> ip4_ttl f = 64 \<and> u8_at f 34 = ICMP_TYPE_REPLAY
     \<and> generatechecksum (drop 34 f) 64 = Inr 0
     \<and> (\<forall>j. j = 35 \<or> 38 \<le> j \<longrightarrow> u8_at f j = u8_at p j)"

definition reply_header :: "u16 \<Rightarrow> byte list \<Rightarrow> byte list" where
  "reply_header idn p =
     put16 18 (htons idn) (put16 20 0 (put8 22 64 (put32 26 (ip4_dst_ip p) (put32 30 (ip4_src_ip p) p))))"

lemma reply_header_fill:
  assumes "34 \<le> length p" and "ip_header_ok p"
  shows "\<exists>q. checksum_fill 14 24 20 (reply_header idn p) = Inr q \<and> length q = length p
     \<and> ip_header_ok q \<and> ip4_ttl q = 64 \<and> ip4_dst_ip q = ip4_src_ip p \<and> ip4_src_ip q = ip4_dst_ip p
     \<and> (\<forall>j. j < 14 \<or> 34 \<le> j \<longrightarrow> u8_at q j = u8_at p j)"
proof -
  let ?q = "reply_header idn p"
  have len: "length ?q = length p" by (simp add: reply_header_def)
  obtain c where c: "checksum_fill 14 24 (int 20) ?q = Inr (put16 24 c ?q)"
      "generatechecksum (drop 14 (put16 24 c ?q)) (int 20) = Inr 0"
    using ip_sum.fill_verifies [of 20 ?q] assms(1) len by auto
  let ?r = "put16 24 c ?q"
  have "ip_header_ok ?r"
    using c(2) assms by (simp add: ip_header_ok_def reply_header_def wire)
  moreover have "u8_at ?r j = u8_at p j" if "j < 14 \<or> 34 \<le> j" for j
    using that by (elim disjE) (simp_all add: reply_header_def wire)
  moreover have "ip4_ttl ?r = 64" "ip4_dst_ip ?r = ip4_src_ip p" "ip4_src_ip ?r = ip4_dst_ip p"
    using assms(1) by (simp_all add: reply_header_def wire)
  ultimately show ?thesis using c(1) len by auto
qed

text \<open>The frame that results from the bytes \<open>s\<close> after the header was filled in.\<close>

lemma echo_reply_frame:
  assumes len: "98 \<le> k" "k \<le> length p" "length s = length p" "length r = length p" "length f = k"
    and s: "ip_header_ok s" "ip4_ttl s = 64" "ip4_dst_ip s = ip4_src_ip p" "ip4_src_ip s = ip4_dst_ip p"
      "\<And>j. 34 \<le> j \<Longrightarrow> u8_at s j = u8_at r j"
    and m: "eth_dest_mac f = mac_at p 6" "eth_source_mac f = mac_at p 0"
    and f: "\<And>j. 14 \<le> j \<Longrightarrow> u8_at f j = u8_at (take k s) j"
    and r: "u8_at r 34 = ICMP_TYPE_REPLAY" "generatechecksum (drop 34 r) (int 64) = Inr 0"
      "\<And>j. j = 35 \<or> 38 \<le> j \<Longrightarrow> u8_at r j = u8_at p j"
  shows "echo_reply (take k p) f"
proof -
  have "ip_header_ok f" using ip_header_ok_cong [of f s] len f s(1) by (simp add: u8_at_take)
  moreover have "u32_at f j = u32_at s j" if "14 \<le> j" "j + 4 \<le> k" for j
    by (rule u32_at_cong) (use that f in \<open>simp add: u8_at_take\<close>)
  moreover have "mac_at (take k p) j = mac_at p j" "u32_at (take k p) j = u32_at p j"
    if "j + 6 \<le> k" for j
    using that by (auto intro!: mac_at_cong u32_at_cong simp: u8_at_take)
  moreover have "generatechecksum (drop 34 f) (int 64) = generatechecksum (drop 34 r) (int 64)"
    by (rule generatechecksum_cong) (use len f s(5) in \<open>auto simp: u8_at_drop u8_at_take\<close>)
  ultimately show ?thesis
    using len s m f r by (auto simp: echo_reply_def u8_at_take)
qed

text \<open>\<open>update_ethernet_header\<close> with the MAC addresses swapped.\<close>

lemma swap_macs_sent:
  assumes i: "pi_interface pi = Some i" and len: "34 \<le> unat (pi_len pi)" "unat (pi_len pi) \<le> length s"
  shows "\<exists>f. map_sum id snd (update_ethernet_header E (pi\<lparr>pi_packet := s\<rparr>) (eth_source_mac s)
                (eth_dest_mac s) w) = Inr (w\<lparr>sent := sent w @ [(i, f)]\<rparr>)
     \<and> length f = unat (pi_len pi) \<and> eth_dest_mac f = eth_source_mac s
     \<and> eth_source_mac f = eth_dest_mac s
     \<and> (\<forall>j\<ge>14. u8_at f j = u8_at (take (unat (pi_len pi)) s) j)"
proof -
  let ?k = "unat (pi_len pi)"
  let ?m = "put_mac 6 (eth_dest_mac s) (put_mac 0 (eth_source_mac s) s)"
  let ?g = "put16 12 (htons ETH_IP_TYPE)
      (put_mac 6 (eth_source_mac ?m) (put_mac 0 (eth_dest_mac ?m) ?m))"
  have "mac_at (take ?k ?g) 0 = mac_at ?g 0" "mac_at (take ?k ?g) 6 = mac_at ?g 6"
    using len by (auto intro!: mac_at_cong simp: u8_at_take)
  then have "mac_at (take ?k ?g) 0 = mac_at s 6" "mac_at (take ?k ?g) 6 = mac_at s 0"
    using len by (simp_all add: wire)
  moreover have "u8_at (take ?k ?g) j = u8_at (take ?k s) j" if "14 \<le> j" for j
    using that by (simp add: u8_at_take wire)
  moreover have "map_sum id snd (update_ethernet_header E (pi\<lparr>pi_packet := s\<rparr>) (eth_source_mac s)
      (eth_dest_mac s) w) = Inr (w\<lparr>sent := sent w @ [(i, take ?k ?g)]\<rparr>)"
    using i len by (simp add: update_ethernet_header_def Let_def ethernet_packet_send_Some)
  ultimately show ?thesis using len by (intro exI [of _ "take ?k ?g"]) simp
qed

lemma bindr_map_snd: "map_sum id snd r = Inr w \<Longrightarrow> bindr r (\<lambda>(_, w). Inr w) = Inr w"
  by (cases r) auto

lemma echo_replay_sent:
  assumes len: "98 \<le> unat (pi_len pi)" "unat (pi_len pi) \<le> length (pi_packet pi)"
    and hdr: "ip_header_ok (pi_packet pi)" and i: "pi_interface pi = Some i"
  shows "\<exists>f. icmp_type_echo_replay E pi w =
       Inr (w\<lparr>ip_id := ip_id w + 1, sent := sent w @ [(i, f)]\<rparr>) \<and> echo_reply (wire_frame pi) f"
proof -
  let ?p = "pi_packet pi" and ?k = "unat (pi_len pi)"
  let ?q = "put8 34 ICMP_TYPE_REPLAY ?p"
  obtain c where c: "checksum_fill 34 36 (int 64) ?q = Inr (put16 36 c ?q)"
      "generatechecksum (drop 34 (put16 36 c ?q)) (int 64) = Inr 0"
    using icmp_sum.fill_verifies [of 64 ?q] len by auto
  let ?r = "put16 36 c ?q"
  have r: "length ?r = length ?p" "\<And>j. j < 34 \<Longrightarrow> u8_at ?r j = u8_at ?p j"
    "\<And>j. j = 35 \<or> 38 \<le> j \<Longrightarrow> u8_at ?r j = u8_at ?p j" "u8_at ?r 34 = ICMP_TYPE_REPLAY"
    using len by (auto simp: wire)
  have ips: "ip4_dst_ip ?r = ip4_dst_ip ?p" "ip4_src_ip ?r = ip4_src_ip ?p"
    by (simp_all add: wire)
  have "ip_header_ok ?r" using ip_header_ok_cong [of ?r ?p] r len hdr by simp
  then obtain s where s: "checksum_fill 14 24 20 (reply_header (ip_id w) ?r) = Inr s"
      "length s = length ?p" "ip_header_ok s" "ip4_ttl s = 64"
      "ip4_dst_ip s = ip4_src_ip ?p" "ip4_src_ip s = ip4_dst_ip ?p"
      "\<And>j. j < 14 \<or> 34 \<le> j \<Longrightarrow> u8_at s j = u8_at ?r j"
    using reply_header_fill [of ?r "ip_id w"] r(1) len ips by auto
  have macs: "mac_at s 0 = mac_at ?p 0" "mac_at s 6 = mac_at ?p 6"
    using s(7) r(2) by (auto intro!: mac_at_cong)
  obtain f where f: "map_sum id snd (update_ethernet_header E (pi\<lparr>pi_packet := s\<rparr>) (eth_source_mac s)
                (eth_dest_mac s) (w\<lparr>ip_id := ip_id w + 1\<rparr>)) =
        Inr (w\<lparr>ip_id := ip_id w + 1, sent := sent w @ [(i, f)]\<rparr>)"
      "length f = ?k" "eth_dest_mac f = eth_source_mac s" "eth_source_mac f = eth_dest_mac s"
      "\<And>j. 14 \<le> j \<Longrightarrow> u8_at f j = u8_at (take ?k s) j"
    using swap_macs_sent [OF i, of s E "w\<lparr>ip_id := ip_id w + 1\<rparr>"] len s(2) by auto
  have "icmp_type_echo_replay E pi w = bindr (update_ethernet_header E (pi\<lparr>pi_packet := s\<rparr>)
      (eth_source_mac s) (eth_dest_mac s) (w\<lparr>ip_id := ip_id w + 1\<rparr>)) (\<lambda>(_, w). Inr w)"
    using c(1) s(1) len by (simp add: icmp_type_echo_replay_def update_ip_packet_response_def
        reply_header_def Let_def)
  then have "icmp_type_echo_replay E pi w =
      Inr (w\<lparr>ip_id := ip_id w + 1, sent := sent w @ [(i, f)]\<rparr>)"
    using bindr_map_snd [OF f(1)] by simp
  moreover have "echo_reply (wire_frame pi) f"
    by (rule echo_reply_frame [where s = s and r = ?r]) (use len s f macs r c(2) in auto)
  ultimately show ?thesis by blast
qed

lemma echo_request_answered:
  assumes ok: "wok L n w" and own: "k < n" "if_ip (interface w ! k) = ip4_dst_ip (pi_packet pi)"
    and len: "98 \<le> unat (pi_len pi)" "unat (pi_len pi) \<le> length (pi_packet pi)"
    and hdr: "ip_header_ok (pi_packet pi)" and i: "pi_interface pi = Some i"
    and icmp: "ip4_protocol (pi_packet pi) = IP_TYPE_ICMP" "u8_at (pi_packet pi) 34 = ICMP_TYPE_REQUEST"
      "ip4_ttl (pi_packet pi) \<noteq> 0"
  shows "\<exists>f. ip_receive recv E pi w = Inr (w\<lparr>ip_id := ip_id w + 1, sent := sent w @ [(i, f)]\<rparr>)
           \<and> echo_reply (wire_frame pi) f"
proof -
  have p: "34 \<le> length (pi_packet pi)" "\<not> for_ospf (pi_packet pi)"
    using len icmp(1) by (simp_all add: for_ospf_def IP_TYPE_ICMP_def IP_TYPE_OSPF_def)
  have "ip_receive recv E pi w = ip_local_deliver recv E pi (ip4_dst_ip (pi_packet pi)) w"
    using ip_receive_valid [OF p(1) hdr p(2) ok, of E] own by auto
  also have "\<dots> = icmp_type_echo_replay E pi w"
    using icmp len by (simp add: ip_local_deliver_def ip_deliver_icmp_def Let_def)
  finally show ?thesis using echo_replay_sent [OF len hdr i, of E w] by simp
qed

text \<open>
  The data of an error is the header and 8 bytes of the offending packet, followed by 28
  bytes of the stack; they reach the wire.
\<close>

lemma icmp_error_leak:
  assumes m: "icmp_message s d type code (icmp_error_data E p) q" and f: "forwarded q tm sm f"
    and len: "42 \<le> length p"
  shows "slice 42 28 f = slice 14 28 p" "slice 70 28 f = map (stack_bytes E) [0..<28]"
proof -
  have l: "length q = 98" "length f = 98" "length (icmp_error_data E p) = 56"
    using m f len by (simp_all add: icmp_message_def forwarded_def length_icmp_error_data)
  have "slice 42 56 q = icmp_error_data E p" using m l by (simp add: icmp_message_def)
  moreover have "slice 42 56 f = slice 42 56 q"
    by (rule slice_eqI) (use f l in \<open>auto simp: forwarded_def\<close>)
  moreover have "slice 14 20 p @ slice 34 8 p = slice 14 28 p"
    using take_add [of 20 8 "drop 14 p"] by (simp add: slice_def)
  ultimately have eq: "slice 42 56 f = slice 14 28 p @ map (stack_bytes E) [0..<28]"
    by (simp add: icmp_error_data_def flip: append_assoc)
  have n: "length (slice 14 28 p) = 28" using len by (simp add: slice_def)
  have "slice 42 28 f = take 28 (slice 42 56 f)" "slice 70 28 f = drop 28 (slice 42 56 f)"
    by (simp_all add: slice_def drop_take)
  then show "slice 42 28 f = slice 14 28 p" "slice 70 28 f = map (stack_bytes E) [0..<28]"
    unfolding eq using n by simp_all
qed

end
