(* ===== verification/Pending.thy ===== *)
theory Pending
  imports Forwarding
begin

text \<open>
  The packets that wait for an ARP reply, and the reception of ARP and Ethernet frames.
  The loop of \<open>process_arpipqueue\<close> hands packets to \<open>ip_onreceive\<close>, which may append to
  the buffer the loop runs over.  Processing one packet appends at most one, unless it is
  a PWOSPF packet for the router itself; so the loop ends, after at most as many
  iterations as there are packets at the start.  \<open>router_handle_packet\<close> keeps the
  invariant, whatever the frame contains.
\<close>

section \<open>What one packet adds to the buffer\<close>

text \<open>A PWOSPF packet this router would process itself.\<close>

definition control_for :: "world \<Rightarrow> packet_info \<Rightarrow> bool" where
  "control_for w pi \<longleftrightarrow>
     ip4_protocol (pi_packet pi) = IP_TYPE_OSPF
     \<and> (ip4_dst_ip (pi_packet pi) = ALLSPFRouters
        \<or> (\<exists>i<num_interfaces w. if_ip (interface w ! i) = ip4_dst_ip (pi_packet pi)))"

definition settled :: "world \<Rightarrow> bool" where
  "settled w \<longleftrightarrow> (\<forall>b\<in>set (packet (iparp_buffer w)). \<not> control_for w (ib_packet_info b))"

definition same_buffer :: "world \<Rightarrow> world \<Rightarrow> bool" where
  "same_buffer w w' \<longleftrightarrow>
     interface w' = interface w \<and> num_interfaces w' = num_interfaces w
     \<and> iparp_buffer w' = iparp_buffer w"

definition one_more :: "world \<Rightarrow> world \<Rightarrow> bool" where
  "one_more w w' \<longleftrightarrow>
     interface w' = interface w \<and> num_interfaces w' = num_interfaces w
     \<and> (packet (iparp_buffer w') = packet (iparp_buffer w)
        \<or> (\<exists>b. packet (iparp_buffer w') = packet (iparp_buffer w) @ [b]
             \<and> \<not> control_for w (ib_packet_info b)))"

lemma same_buffer_one_more: "same_buffer w w' \<Longrightarrow> one_more w w'"
  by (simp add: same_buffer_def one_more_def)

lemma same_buffer_simps [simp]:
  "same_buffer w w" "same_buffer w (w'\<lparr>sent := a\<rparr>) = same_buffer w w'"
  "same_buffer w (w'\<lparr>ip_id := b\<rparr>) = same_buffer w w'"
  "same_buffer w (w'\<lparr>ping_list := c\<rparr>) = same_buffer w w'"
  "same_buffer w (w'\<lparr>transport_in := d\<rparr>) = same_buffer w w'"
  "same_buffer w (w'\<lparr>dns_db := e\<rparr>) = same_buffer w w'"
  by (simp_all add: same_buffer_def)

lemma one_more_trans: "same_buffer w w1 \<Longrightarrow> one_more w1 w2 \<Longrightarrow> one_more w w2"
  by (auto simp: same_buffer_def one_more_def control_for_def)

lemma same_buffer_safe: "safe UNIV (same_buffer w) r \<Longrightarrow> safe UNIV (one_more w) r"
  by (erule safe_mono) (auto intro: same_buffer_one_more)

lemma control_for_take:
  assumes "34 \<le> k"
  shows "control_for w (pi\<lparr>pi_packet := take k p\<rparr>) = control_for w (pi\<lparr>pi_packet := p\<rparr>)"
proof -
  have "u32_at (take k p) 30 = u32_at p 30"
    using assms by (intro u32_at_cong) (simp add: u8_at_take)
  then show ?thesis using assms by (simp add: control_for_def u8_at_take)
qed

lemma ethernet_packet_send_quiet:
  "same_buffer w0 w \<Longrightarrow>
   safe UNIV (\<lambda>(_, _, w'). same_buffer w0 w') (ethernet_packet_send E intf tm sm ty pi w)"
  by (simp add: ethernet_packet_send_def need_def Let_def split: option.split)

lemma arp_send_request_quiet: "safe UNIV (same_buffer w) (arp_send_request E intf ip w)"
  unfolding arp_send_request_def arp_send_def
  by (rule safe_any_bindr, rule safe_bindr [where P = "\<lambda>(_, w'). same_buffer w w'"])
     (auto simp: need_def intro!: safe_bindr [OF ethernet_packet_send_quiet])

lemma ip_send_next_hop_quiet: "safe UNIV (same_buffer w) (ip_send_next_hop E pi intf m w)"
  unfolding ip_send_next_hop_def Let_def
  by (rule safe_any_bindr, rule safe_any_bindr, rule safe_bindr [OF ethernet_packet_send_quiet]) auto

lemma icmp_type_echo_replay_quiet: "safe UNIV (same_buffer w) (icmp_type_echo_replay E pi w)"
proof -
  have "safe UNIV (\<lambda>(_, w'). same_buffer w w') (update_ethernet_header E pi tm sm (w\<lparr>ip_id := c\<rparr>))"
    for pi tm sm c
    unfolding update_ethernet_header_def Let_def
    by (auto simp: need_def intro!: safe_bindr [OF ethernet_packet_send_quiet])
  then have resp: "safe UNIV (\<lambda>(_, w'). same_buffer w w') (update_ip_packet_response E pi d s ttl w)"
    for pi d s ttl
    unfolding update_ip_packet_response_def Let_def
    by (auto simp: need_def intro!: safe_any_bindr)
  show ?thesis
    unfolding icmp_type_echo_replay_def Let_def
    by (rule safe_any_bindr, rule safe_bindr [OF resp]) auto
qed

lemma send_dns_proto_response_quiet:
  "same_buffer w0 w \<Longrightarrow> safe UNIV (same_buffer w0) (send_dns_proto_response E pi answer err w)"
  unfolding send_dns_proto_response_def Let_def need_def
  by (simp del: split_paired_All, intro impI, (rule safe_any_bindr)+,
      auto intro!: safe_bindr [OF ethernet_packet_send_quiet])

lemma dns_onreceive_quiet: "safe UNIV (same_buffer w) (dns_onreceive E pi w)"
proof -
  have find: "safe UNIV (\<lambda>(r, w'). same_buffer w w') (get_by_ip_safe ip w)"
    "safe UNIV (\<lambda>(r, w'). same_buffer w w') (get_by_domainname_array_safe ns c w)" for ip ns c
    by (auto simp: get_by_ip_safe_def get_by_domainname_array_safe_def intro!: safe_any_bindr
        split: prod.split)
  have "safe UNIV (same_buffer w) (handle_question E pi q w)" for q
    unfolding handle_question_def Let_def
    by (auto intro!: send_dns_proto_response_quiet safe_bindr [OF find(1)] safe_bindr [OF find(2)]
        split: option.split)
  then show ?thesis
    unfolding dns_onreceive_def Let_def
    by (auto simp: need_def intro!: safe_any_bindr split: list.split)
qed

text \<open>What the IP layer assumes of the receive function here.\<close>

definition recv_one :: "nat \<Rightarrow> receiver \<Rightarrow> bool" where
  "recv_one n recv \<longleftrightarrow>
     (\<forall>pi w. wok {} n w \<longrightarrow> generated n w pi \<longrightarrow> safe UNIV (one_more w) (recv pi w))"

lemma icmp_allocate_one:
  assumes ok: "wok {} n w" and len: "length data = 56" and t: "type \<in> error_types"
    and recv: "recv_one n recv"
  shows "safe UNIV (\<lambda>(_, w'). one_more w w')
           (icmp_allocate_and_send recv ip code type 0 0 data src w)"
  using icmp_error_cases [OF ok len t, of ip code src]
proof (elim disjE exE conjE)
  fix pi assume g: "generated n w pi"
    and eq: "\<forall>recv. icmp_allocate_and_send recv ip code type 0 0 data src w =
      bindr (recv pi w) (\<lambda>w. Inr (1, w))"
  have "safe UNIV (one_more w) (recv pi w)" using recv ok g by (simp add: recv_one_def)
  then show ?thesis unfolding eq [rule_format] by (rule safe_bindr) simp
qed (simp add: same_buffer_one_more)

lemma icmp_send_one:
  assumes "wok {} n w" and "type \<in> error_types" and "recv_one n recv"
  shows "safe UNIV (one_more w) (icmp_send recv E pi src type code w)"
  unfolding icmp_send_def
  by (rule safe_need, rule safe_bindr [OF icmp_allocate_one])
     (use assms in \<open>auto simp: length_icmp_error_data\<close>)

lemma icmp_type_time_exceeded_one:
  assumes "wok {} n w" and "recv_one n recv"
  shows "safe UNIV (one_more w) (icmp_type_time_exceeded recv E pi src w)"
  unfolding icmp_type_time_exceeded_def
  by (rule safe_need, rule safe_bindr [OF icmp_allocate_one])
     (use assms in \<open>auto simp: length_icmp_error_data\<close>)

lemma ip_deliver_icmp_one:
  assumes ok: "wok {} n w" and recv: "recv_one n recv"
  shows "safe UNIV (one_more w) (ip_deliver_icmp recv E pi own w)"
proof -
  have "safe UNIV (one_more w)
      (case cli_ping_handle_reply ip seq w of (worked, w) \<Rightarrow>
         if \<not> worked then icmp_send recv E pi own ICMP_TYPE_DST_UNREACH ICMP_CODE_PORT_UNREACH w
         else Inr w)" for ip seq
  proof -
    obtain r w' where c: "cli_ping_handle_reply ip seq w = (r, w')" by force
    then have b: "same_buffer w w'"
      by (auto simp: cli_ping_handle_reply_def Let_def split: if_splits option.splits)
    have "safe UNIV (one_more w') (icmp_send recv E pi own ICMP_TYPE_DST_UNREACH code w')" for code
      by (rule icmp_send_one [OF cli_ping_handle_reply_ok [OF ok c] _ recv]) simp
    then have "safe UNIV (one_more w) (icmp_send recv E pi own ICMP_TYPE_DST_UNREACH code w')" for code
      by (rule safe_mono) (auto intro: one_more_trans [OF b])
    then show ?thesis using c b by (simp add: same_buffer_one_more)
  qed
  then show ?thesis
    using same_buffer_safe [OF icmp_type_echo_replay_quiet]
    by (simp add: ip_deliver_icmp_def need_def Let_def same_buffer_one_more)
qed

lemma ip_deliver_udp_one:
  assumes ok: "wok {} n w" and recv: "recv_one n recv"
  shows "safe UNIV (one_more w) (ip_deliver_udp recv E pi own w)"
  unfolding ip_deliver_udp_def Let_def
  using icmp_send_one [OF ok error_types_mem(1) recv] same_buffer_safe [OF dns_onreceive_quiet]
  by (auto simp: same_buffer_one_more intro!: safe_any_bindr)

lemma ip_local_deliver_one:
  assumes ok: "wok {} n w" and recv: "recv_one n recv"
    and "ip4_protocol (pi_packet pi) \<noteq> IP_TYPE_OSPF"
  shows "safe UNIV (one_more w) (ip_local_deliver recv E pi own w)"
  using assms(3) icmp_type_time_exceeded_one [OF ok recv] ip_deliver_icmp_one [OF ok recv]
    ip_deliver_udp_one [OF ok recv] icmp_send_one [OF ok error_types_mem(1) recv]
  by (simp add: ip_local_deliver_def Let_def sr_transport_input_def same_buffer_one_more)

lemma arp_queue_ippacket_one:
  assumes ok: "wok {} n w" and len: "34 \<le> unat (pi_len pi)" and i: "i < n"
    and nc: "\<not> control_for w pi"
  shows "safe UNIV (one_more w)
           (arp_queue_ippacket_for_send_on_arp_request_response E pi (Some i) dest w)"
proof (cases "unat (pi_len pi) \<le> length (pi_packet pi)")
  case True
  have "iparp_buffer w = queue_of sizeof_iparp_buffer_entry (packet (iparp_buffer w))"
    using wokD(10) [OF ok] by (simp add: table_inv_iff)
  moreover have "\<not> control_for w (pi\<lparr>pi_packet := wire_frame pi\<rparr>)"
    using nc control_for_take [OF len, where w = w and pi = pi and p = "pi_packet pi"] by simp
  ultimately show ?thesis
    using arp_queue_ippacket_eq [OF _ True, of i w "packet (iparp_buffer w)" E dest] i wokD(2) [OF ok]
    by (simp add: one_more_def)
qed (simp add: arp_queue_ippacket_for_send_on_arp_request_response_def)

lemma ip_forward_one:
  assumes ok: "wok {} n w" and recv: "recv_one n recv"
    and len: "34 \<le> unat (pi_len pi)" and nc: "\<not> control_for w pi"
  shows "safe UNIV (one_more w) (ip_forward recv E pi w)"
proof (cases "ip4_ttl (pi_packet pi) \<le> 1")
  case True
  then show ?thesis using icmp_type_time_exceeded_one [OF ok recv] by (simp add: ip_forward_def)
next
  case ttl: False
  show ?thesis
  proof (cases "lpm (packet (ip_table w)) (ip4_dst_ip (pi_packet pi))")
    case None
    then show ?thesis
      using ttl icmp_send_one [OF ok _ recv]
      by (simp add: ip_forward_def wok_table [OF ok] Let_def safe_any_bindr)
  next
    case (Some r)
    then obtain k e where r: "lpm (packet (ip_table w)) (ip4_dst_ip (pi_packet pi)) = Some (k, e)"
      by force
    obtain i where i: "i < n" "rt_interface e = Some i" using wok_route [OF ok r] by blast
    show ?thesis
      unfolding ip_forward_Some [OF ok ttl r] Let_def i(2)
      using same_buffer_safe [OF ip_send_next_hop_quiet] arp_queue_ippacket_one [OF ok len i(1) nc]
      by (auto split: option.split)
  qed
qed

lemma ip_receive_one:
  assumes ok: "wok {} n w" and recv: "recv_one n recv" and f: "frame_ok n pi"
    and len: "34 \<le> unat (pi_len pi)" and nc: "\<not> control_for w pi"
  shows "safe UNIV (one_more w) (ip_receive recv E pi w)"
proof -
  let ?p = "pi_packet pi"
  have p: "34 \<le> length ?p" using len f by (simp add: frame_ok_def)
  have no: "\<not> for_ospf ?p" using nc by (auto simp: control_for_def for_ospf_def)
  show ?thesis
  proof (cases "ip_header_ok ?p")
    case True
    consider k where "k < n" "if_ip (interface w ! k) = ip4_dst_ip ?p"
        "ip_receive recv E pi w = ip_local_deliver recv E pi (ip4_dst_ip ?p) w"
      | "ip_receive recv E pi w = ip_forward recv E pi w"
      using ip_receive_valid [OF p True no ok, of E] by blast
    then show ?thesis
    proof cases
      case (1 k)
      then have "ip4_protocol ?p \<noteq> IP_TYPE_OSPF"
        using nc wokD(1) [OF ok] by (auto simp: control_for_def)
      then show ?thesis using 1 ip_local_deliver_one [OF ok recv] by simp
    next
      case 2
      then show ?thesis using ip_forward_one [OF ok recv len nc] by simp
    qed
  next
    case False
    show ?thesis unfolding ip_receive_invalid [OF p False]
      by (rule safe_any_bindr) (simp add: same_buffer_one_more)
  qed
qed

lemma generated_recv_one: "recv_one n (ip_onreceive (Suc m) E)"
  unfolding recv_one_def
proof (intro allI impI)
  fix pi w assume ok: "wok {} n w" and g: "generated n w pi"
  have "recv_one n (\<lambda>pi w. Inr w)" by (simp add: recv_one_def same_buffer_one_more)
  moreover have "\<not> control_for w pi"
    using g by (simp add: generated_def control_for_def IP_TYPE_ICMP_def IP_TYPE_OSPF_def)
  ultimately have "safe UNIV (one_more w) (ip_receive (\<lambda>pi w. Inr w) E pi w)"
    using ip_receive_one [OF ok, of "\<lambda>pi w. Inr w" pi E] g by (simp add: generated_def)
  then show "safe UNIV (one_more w) (ip_onreceive (Suc m) E pi w)"
    using generated_same [OF ok g] by (metis ip_onreceive.simps(2))
qed

lemma ip_onreceive_one:
  assumes "wok {} n w" and "frame_ok n pi" and "34 \<le> unat (pi_len pi)" and "\<not> control_for w pi"
    and "memcmp_sound E"
  shows "safe wire_faults (\<lambda>w'. wok {} n w' \<and> one_more w w') (ip_onreceive (Suc (Suc m)) E pi w)"
  using safe_and [OF ip_onreceive_ok [OF assms(1,2,5)]]
    ip_receive_one [OF assms(1) generated_recv_one assms(2-4)]
  by (metis ip_onreceive.simps(2))

section \<open>Processing the buffer\<close>

abbreviation waiting :: "world \<Rightarrow> iparp_buffer_entry list" where
  "waiting w \<equiv> packet (iparp_buffer w)"

abbreviation set_waiting :: "iparp_buffer_entry list \<Rightarrow> world \<Rightarrow> world" where
  "set_waiting bs w \<equiv> w\<lparr>iparp_buffer := queue_of sizeof_iparp_buffer_entry bs\<rparr>"

lemma wok_waiting: "wok L n w \<Longrightarrow> iparp_buffer w = queue_of sizeof_iparp_buffer_entry (waiting w)"
  using wokD(10) by (simp add: table_inv_iff)

lemma wok_set_waiting:
  assumes "wok L n w" and "\<And>b. b \<in> set bs \<Longrightarrow> buffer_ok n b"
  shows "wok L n (set_waiting bs w)"
  using assms by (auto simp: wok_def intfs_wf_def static_routes_def)

lemma set_remove_nth: "b \<in> set (remove_nth i xs) \<Longrightarrow> b \<in> set xs"
  by (auto simp: remove_nth_def dest: in_set_takeD in_set_dropD)

lemma wok_remove_waiting: "wok L n w \<Longrightarrow> wok L n (set_waiting (remove_nth i (waiting w)) w)"
  by (rule wok_set_waiting) (auto dest: set_remove_nth wokD(7))

text \<open>The packets the arrival of the address \<open>ip\<close> releases.\<close>

definition released :: "world \<Rightarrow> addr_ip \<Rightarrow> iparp_buffer_entry \<Rightarrow> bool" where
  "released w ip b \<longleftrightarrow>
     34 \<le> unat (pi_len (ib_packet_info b))
     \<and> (\<exists>k e. lpm (packet (ip_table w)) (ip4_dst_ip (pi_packet (ib_packet_info b))) = Some (k, e)
            \<and> ip = hop_address e (ip4_dst_ip (pi_packet (ib_packet_info b))))"

lemma process_from_end: "wok L n w \<Longrightarrow> length (waiting w) \<le> i \<Longrightarrow> process_from (Suc m) recv ip (int i) w = Inr w"
  by (subst process_from.simps, subst wok_waiting) auto

lemma process_from_step:
  assumes ok: "wok {} n w" and i: "i < length (waiting w)" and b: "b = waiting w ! i"
  shows "process_from (Suc m) recv ip (int i) w =
    (if released w ip b then
       bindr (checksum_fill 14 24 20 (pi_packet (ib_packet_info b))) (\<lambda>p.
       bindr (recv (ib_packet_info b\<lparr>pi_packet := p\<rparr>) (set_waiting (remove_nth i (waiting w)) w))
         (process_from m recv ip (int (Suc i))))
     else process_from m recv ip (int (Suc i)) w)"
proof -
  let ?pi = "ib_packet_info b"
  have bok: "buffer_ok n b" using wokD(7) [OF ok] i b by simp
  then have len: "14 \<le> unat (pi_len ?pi)" "unat (pi_len ?pi) \<le> length (pi_packet ?pi)"
    by (simp_all add: buffer_ok_def frame_ok_def)
  have can: "PACKET_CAN_MARSHALL sizeof_packet_ip4 14 (pi_len ?pi) \<longleftrightarrow> 34 \<le> unat (pi_len ?pi)"
    using PACKET_CAN_MARSHALL_iff [of 14 "pi_len ?pi" 20] len(1) by simp
  have get: "queue_getidandlock (iparp_buffer w) (int i) =
      (Some (b, sizeof_iparp_buffer_entry), iparp_buffer w)"
    using i b by (subst (1 2) wok_waiting [OF ok]) (simp add: queue_simps)
  have size: "int i < qsize (iparp_buffer w)"
    using i by (subst wok_waiting [OF ok]) simp
  have rem: "queue_unlockidandremove (iparp_buffer w) (int i) =
      queue_of sizeof_iparp_buffer_entry (remove_nth i (waiting w))"
    using i by (subst wok_waiting [OF ok]) (simp add: queue_simps)
  have unl: "queue_unlockid (iparp_buffer w) (int i) = iparp_buffer w"
    by (subst (1 2) wok_waiting [OF ok]) (simp add: queue_simps)
  show ?thesis
    unfolding process_from.simps get
    using size bok len can
    by (auto simp: buffer_ok_def wok_table [OF ok] rem unl released_def hop_address_def Let_def add.commute
        split: option.split)
qed

text \<open>A released packet, with its checksum recomputed, is again a complete frame.\<close>

lemma released_frame:
  assumes "buffer_ok n b" and "34 \<le> unat (pi_len (ib_packet_info b))"
  shows "safe wire_faults (\<lambda>p. frame_ok n (ib_packet_info b\<lparr>pi_packet := p\<rparr>)
      \<and> control_for w (ib_packet_info b\<lparr>pi_packet := p\<rparr>) = control_for w (ib_packet_info b))
    (checksum_fill 14 24 20 (pi_packet (ib_packet_info b)))"
  by (rule safe_mono [OF checksum_fill_safe])
     (use assms in \<open>auto simp: buffer_ok_def frame_ok_def control_for_def wire split: option.splits\<close>)

text \<open>What the loops over the buffer rely on: the contract of \<open>ip_onreceive\<close>.\<close>

definition receives :: "nat \<Rightarrow> receiver \<Rightarrow> bool" where
  "receives n recv \<longleftrightarrow>
     (\<forall>pi w. wok {} n w \<longrightarrow> frame_ok n pi \<longrightarrow> safe wire_faults (wok {} n) (recv pi w))
     \<and> (\<forall>pi w. wok {} n w \<longrightarrow> frame_ok n pi \<longrightarrow> 34 \<le> unat (pi_len pi) \<longrightarrow> \<not> control_for w pi
          \<longrightarrow> safe wire_faults (\<lambda>w'. wok {} n w' \<and> one_more w w') (recv pi w))"

lemma ip_onreceive_receives: "memcmp_sound E \<Longrightarrow> receives n (ip_onreceive (Suc (Suc f)) E)"
  unfolding receives_def using ip_onreceive_ok ip_onreceive_one by blast

lemma process_from_ok:
  assumes recv: "receives n recv"
  shows "wok {} n w \<Longrightarrow> safe (insert OutOfFuel wire_faults) (wok {} n)
           (process_from m recv ip (int i) w)"
proof (induction m arbitrary: i w)
  case (Suc m)
  note ok = Suc.prems
  show ?case
  proof (cases "i < length (waiting w)")
    case True
    define b where "b = waiting w ! i"
    have b: "buffer_ok n b" using wokD(7) [OF ok] True by (simp add: b_def)
    have rel: "safe (insert OutOfFuel wire_faults) (wok {} n)
        (bindr (checksum_fill 14 24 20 (pi_packet (ib_packet_info b))) (\<lambda>p.
         bindr (recv (ib_packet_info b\<lparr>pi_packet := p\<rparr>)
                  (set_waiting (remove_nth i (waiting w)) w))
           (process_from m recv ip (int (Suc i)))))"
      if "released w ip b"
    proof (rule safe_bindr [OF safe_mono [OF released_frame [OF b]]])
      fix p assume "frame_ok n (ib_packet_info b\<lparr>pi_packet := p\<rparr>)"
      then have "safe wire_faults (wok {} n) (recv (ib_packet_info b\<lparr>pi_packet := p\<rparr>)
          (set_waiting (remove_nth i (waiting w)) w))"
        using recv wok_remove_waiting [OF ok] by (simp add: receives_def)
      then show "safe (insert OutOfFuel wire_faults) (wok {} n)
          (bindr (recv (ib_packet_info b\<lparr>pi_packet := p\<rparr>)
             (set_waiting (remove_nth i (waiting w)) w))
            (process_from m recv ip (int (Suc i))))"
        by (intro safe_bindr [OF safe_mono Suc.IH]) auto
    qed (use that in \<open>auto simp: released_def\<close>)
    show ?thesis
      unfolding process_from_step [OF ok True b_def] using rel Suc.IH [OF ok, of "Suc i"] by simp
  next
    case False
    then show ?thesis using process_from_end [OF ok, of i m] ok by simp
  qed
qed simp

text \<open>
  The loop ends: no more iterations than there are packets from the current one on,
  unless a PWOSPF packet for this router waits.
\<close>

lemma settled_remove: "settled w \<Longrightarrow> settled (set_waiting (remove_nth i (waiting w)) w)"
  by (auto simp: settled_def control_for_def dest: set_remove_nth)

lemma settled_one_more: "settled w \<Longrightarrow> one_more w w' \<Longrightarrow> settled w'"
  by (auto simp: settled_def one_more_def control_for_def)

lemma length_one_more: "one_more w w' \<Longrightarrow> length (waiting w') \<le> Suc (length (waiting w))"
  by (auto simp: one_more_def)

lemma process_from_ends:
  assumes recv: "receives n recv"
  shows "wok {} n w \<Longrightarrow> settled w \<Longrightarrow> length (waiting w) - i < m \<Longrightarrow>
    safe wire_faults (\<lambda>w'. wok {} n w' \<and> settled w')
      (process_from m recv ip (int i) w)"
proof (induction m arbitrary: i w)
  case (Suc m)
  note ok = Suc.prems(1)
  show ?case
  proof (cases "i < length (waiting w)")
    case True
    define b where "b = waiting w ! i"
    let ?w = "set_waiting (remove_nth i (waiting w)) w"
    have b: "buffer_ok n b" using wokD(7) [OF ok] True by (simp add: b_def)
    have nc: "\<not> control_for ?w (ib_packet_info b)"
      using Suc.prems(2) True by (simp add: settled_def b_def control_for_def)
    have wl: "length (waiting ?w) = length (waiting w) - 1" using length_remove_nth [OF True] by simp
    have rel: "safe wire_faults (\<lambda>w'. wok {} n w' \<and> settled w')
        (bindr (checksum_fill 14 24 20 (pi_packet (ib_packet_info b))) (\<lambda>p.
         bindr (recv (ib_packet_info b\<lparr>pi_packet := p\<rparr>) ?w)
           (process_from m recv ip (int (Suc i)))))"
      if r: "released w ip b"
    proof (rule safe_bindr [OF released_frame [OF b]])
      have len: "34 \<le> unat (pi_len (ib_packet_info b))" using r by (simp add: released_def)
      then show "34 \<le> unat (pi_len (ib_packet_info b))" .
      fix p assume p: "frame_ok n (ib_packet_info b\<lparr>pi_packet := p\<rparr>)
        \<and> control_for ?w (ib_packet_info b\<lparr>pi_packet := p\<rparr>) = control_for ?w (ib_packet_info b)"
      have rec: "safe wire_faults (\<lambda>w'. wok {} n w' \<and> one_more ?w w')
          (recv (ib_packet_info b\<lparr>pi_packet := p\<rparr>) ?w)"
        using p nc len recv wok_remove_waiting [OF ok] by (simp add: receives_def)
      show "safe wire_faults (\<lambda>w'. wok {} n w' \<and> settled w')
          (bindr (recv (ib_packet_info b\<lparr>pi_packet := p\<rparr>) ?w)
            (process_from m recv ip (int (Suc i))))"
      proof (rule safe_bindr [OF rec])
        fix w' assume w': "wok {} n w' \<and> one_more ?w w'"
        have "length (waiting w') - Suc i < m"
          using length_one_more [of ?w w'] w' wl True Suc.prems(3) by linarith
        with w' settled_one_more [OF settled_remove [OF Suc.prems(2)], of i w']
        show "safe wire_faults (\<lambda>w'. wok {} n w' \<and> settled w')
            (process_from m recv ip (int (Suc i)) w')"
          by (intro Suc.IH) auto
      qed
    qed
    show ?thesis
      unfolding process_from_step [OF ok True b_def]
      using rel Suc.IH [OF ok Suc.prems(2), of "Suc i"] Suc.prems(3) True by simp
  next
    case False
    then show ?thesis using process_from_end [OF ok, of i m] Suc.prems by simp
  qed
qed simp

section \<open>ARP reception\<close>

lemma arp_putincache_ok:
  assumes ok: "wok L n w"
  shows "safe wire_faults (wok L n) (arp_putincache E ip mac timeout w)"
proof -
  have "arp_cache w = arp_queue_of (packet (arp_cache w))"
    using wokD(9) [OF ok] by (simp add: table_inv_iff)
  then show ?thesis
    using ok by (simp add: arp_putincache_of [of w "packet (arp_cache w)"] wok_def intfs_wf_def
        static_routes_def)
qed

lemma arp_send_ok:
  assumes "wok L n w" and "14 \<le> unat (pi_len pi)" and "unat (pi_len pi) \<le> length (pi_packet pi)"
  shows "safe wire_faults (\<lambda>(_, w'). wok L n w') (arp_send E (Some i) pi opc tip tm sip sm w)"
  unfolding arp_send_def
  by (rule safe_need, rule safe_bindr [OF ethernet_packet_send_ok])
     (use assms in \<open>auto simp: arp_fill_def\<close>)

lemma arp_handle_ok:
  assumes ok: "wok L n w" and f: "frame_ok n pi" "pi_interface pi = Some i"
  shows "safe wire_faults (\<lambda>(_, w'). wok L n w') (arp_handle E pi intf w)"
proof -
  have len: "14 \<le> unat (pi_len pi)" "unat (pi_len pi) \<le> length (pi_packet pi)"
    using f by (simp_all add: frame_ok_def)
  have "safe wire_faults (\<lambda>(_, w'). wok L n w')
      (bindr (arp_putincache E ip mac timeout w) (\<lambda>w. Inr (pi, w)))"
    "safe wire_faults (\<lambda>(_, w'). wok L n w') (bindr (arp_putincache E ip mac timeout w)
      (arp_send E (Some i) pi opc tip tm sip sm))" for ip mac timeout opc tip tm sip sm
    by (rule safe_bindr [OF arp_putincache_ok [OF ok]], use arp_send_ok len in auto)+
  then show ?thesis using ok f by (simp add: arp_handle_def Let_def)
qed

lemma arp_onreceive_ok:
  assumes ok: "wok {} n w" and f: "frame_ok n pi" "pi_interface pi = Some i" and mc: "memcmp_sound E"
  shows "safe (insert OutOfFuel wire_faults) (wok {} n) (arp_onreceive steps (Suc (Suc fuel)) E pi w)"
proof -
  have i: "i < n" using f by (simp add: frame_ok_def)
  have "safe (insert OutOfFuel wire_faults) (wok {} n) (bindr (arp_handle E pi intf w) (\<lambda>(pi, w).
      process_arpipqueue steps (Suc (Suc fuel)) E (arp_sender_ip (pi_packet pi)) w))" for intf
    by (rule safe_bindr [OF safe_mono [OF arp_handle_ok [OF ok f]]])
       (use process_from_ok [OF ip_onreceive_receives [OF mc], where i = 0] in \<open>auto simp: process_arpipqueue_def\<close>)
  then show ?thesis
    using ok by (simp add: arp_onreceive_def need_def Let_def f(2) wok_intf [OF ok i])
qed

text \<open>What a request for the address of the receiving interface leads to.\<close>

definition arp_request_for :: "interface \<Rightarrow> byte list \<Rightarrow> bool" where
  "arp_request_for intf p \<longleftrightarrow>
     42 \<le> length p \<and> ntohs (arp_hardwaretype p) = ARP_HTYPE_ETH
     \<and> ntohs (arp_protocoltype p) = ARP_PTYPE_IP
     \<and> arp_hardwareaddresslength p = 6 \<and> arp_protocoladdresslength p = 4
     \<and> ntohs (arp_opcode p) = ucast ARP_OPCODE_REQUEST \<and> arp_target_ip p = if_ip intf"

definition arp_reply :: "interface \<Rightarrow> addr_ip \<Rightarrow> addr_mac \<Rightarrow> byte list \<Rightarrow> bool" where
  "arp_reply intf ip mac f \<longleftrightarrow>
     eth_dest_mac f = mac \<and> eth_source_mac f = if_mac intf \<and> eth_type f = htons ETH_ARP_TYPE
     \<and> arp_hardwaretype f = htons ARP_HTYPE_ETH \<and> arp_protocoltype f = htons ARP_PTYPE_IP
     \<and> arp_hardwareaddresslength f = 6 \<and> arp_protocoladdresslength f = 4
     \<and> arp_opcode f = htons (ucast ARP_OP_REPLY)
     \<and> arp_sender_ip f = if_ip intf \<and> arp_sender_mac f = if_mac intf
     \<and> arp_target_ip f = ip \<and> arp_target_mac f = mac"

lemma arp_reply_frame:
  assumes "42 \<le> k" and "k \<le> length p"
  shows "arp_reply intf ip mac (take k (put16 12 (htons ETH_ARP_TYPE) (put_mac 6 (if_mac intf)
      (put_mac 0 mac (arp_fill ARP_OP_REPLY ip mac (if_ip intf) (if_mac intf) p)))))"
  using assms
  by (simp add: arp_reply_def mac_at_take u32_at_take u16_at_take u8_at_take arp_fill_def wire)

lemma arp_onreceive_request:
  assumes ok: "wok L n w" and i: "pi_interface pi = Some i" "i < n"
    and r: "arp_request_for (interface w ! i) (pi_packet pi)"
    and len: "42 \<le> unat (pi_len pi)" "unat (pi_len pi) \<le> length (pi_packet pi)"
  shows "\<exists>f. arp_reply (interface w ! i) (arp_sender_ip (pi_packet pi)) (arp_sender_mac (pi_packet pi)) f
    \<and> arp_onreceive steps fuel E pi w = process_arpipqueue steps fuel E (if_ip (interface w ! i))
        (w\<lparr>arp_cache := arp_queue_of (arp_learn (arp_sender_ip (pi_packet pi))
              (arp_sender_mac (pi_packet pi))
              (stamp (clock E (ticks w)) ARP_CACHE_TIMEOUT_REQUEST) (packet (arp_cache w))),
            ticks := Suc (ticks w), sent := sent w @ [(i, f)]\<rparr>)"
proof -
  let ?p = "pi_packet pi" and ?intf = "interface w ! i"
  let ?q = "put16 12 (htons ETH_ARP_TYPE) (put_mac 6 (if_mac ?intf) (put_mac 0 (arp_sender_mac ?p)
      (arp_fill ARP_OP_REPLY (arp_sender_ip ?p) (arp_sender_mac ?p) (if_ip ?intf) (if_mac ?intf) ?p)))"
  have l: "length (arp_fill o' a b c d ?p) = length ?p" for o' a b c d by (simp add: arp_fill_def)
  have cache: "arp_cache w = arp_queue_of (packet (arp_cache w))"
    using wokD(9) [OF ok] by (simp add: table_inv_iff)
  have sip: "u32_at ?q 28 = if_ip ?intf" using r by (simp add: arp_request_for_def arp_fill_def wire)
  have "arp_onreceive steps fuel E pi w = process_arpipqueue steps fuel E (u32_at ?q 28)
        (w\<lparr>arp_cache := arp_queue_of (arp_learn (arp_sender_ip ?p) (arp_sender_mac ?p)
              (stamp (clock E (ticks w)) ARP_CACHE_TIMEOUT_REQUEST) (packet (arp_cache w))),
            ticks := Suc (ticks w), sent := sent w @ [(i, take (unat (pi_len pi)) ?q)]\<rparr>)"
    using r len
    by (simp add: arp_onreceive_def arp_request_for_def i(1) wok_intf [OF ok i(2)] arp_handle_def
        arp_putincache_of [OF cache] arp_send_def ethernet_packet_send_Some l Let_def)
  with sip arp_reply_frame [OF len] show ?thesis by auto
qed

text \<open>Handling an ARP packet does not touch the buffer; so the loop after it ends.\<close>

lemma arp_putincache_quiet:
  assumes "wok L n w"
  shows "safe UNIV (same_buffer w) (arp_putincache E ip mac timeout w)"
  using arp_putincache_of [of w "packet (arp_cache w)" E ip mac timeout] wokD(9) [OF assms]
  by (simp add: table_inv_iff same_buffer_def)

lemma arp_handle_quiet:
  assumes "wok L n w"
  shows "safe UNIV (\<lambda>(_, w'). same_buffer w w') (arp_handle E pi intf w)"
proof -
  have send: "safe UNIV (\<lambda>(_, w''). same_buffer w w'') (arp_send E i pi opc tip tm sip sm w')"
    if "same_buffer w w'" for i opc tip tm sip sm w'
    unfolding arp_send_def
    by (rule safe_need, rule safe_bindr [OF ethernet_packet_send_quiet [OF that]]) auto
  show ?thesis
    unfolding arp_handle_def Let_def
    by (auto intro!: safe_bindr [OF arp_putincache_quiet [OF assms]] send)
qed

lemma settled_same_buffer: "settled w \<Longrightarrow> same_buffer w w' \<Longrightarrow> settled w'"
  by (auto simp: settled_def same_buffer_def control_for_def)

lemma arp_onreceive_ends:
  assumes ok: "wok {} n w" and f: "frame_ok n pi" "pi_interface pi = Some i" and mc: "memcmp_sound E"
    and st: "settled w" "length (waiting w) < steps"
  shows "safe wire_faults (\<lambda>w'. wok {} n w' \<and> settled w') (arp_onreceive steps (Suc (Suc fuel)) E pi w)"
proof -
  have i: "i < n" using f by (simp add: frame_ok_def)
  have "safe wire_faults (\<lambda>w'. wok {} n w' \<and> settled w') (bindr (arp_handle E pi intf w) (\<lambda>(pi, w).
      process_arpipqueue steps (Suc (Suc fuel)) E (arp_sender_ip (pi_packet pi)) w))" for intf
  proof (rule safe_bindr [OF safe_and [OF arp_handle_ok [OF ok f] arp_handle_quiet [OF ok]]])
    fix r :: "packet_info \<times> world"
    assume r: "(case r of (_, w') \<Rightarrow> wok {} n w') \<and> (case r of (_, w') \<Rightarrow> same_buffer w w')"
    obtain pi' w' where s: "r = (pi', w')" by force
    with r st have "wok {} n w'" "settled w'" "length (waiting w') - 0 < steps"
      using settled_same_buffer by (auto simp: same_buffer_def)
    from process_from_ends [OF ip_onreceive_receives [OF mc] this, where ip = "arp_sender_ip (pi_packet pi')"]
    show "safe wire_faults (\<lambda>w'. wok {} n w' \<and> settled w') (case r of (pi, w) \<Rightarrow>
        process_arpipqueue steps (Suc (Suc fuel)) E (arp_sender_ip (pi_packet pi)) w)"
      unfolding s process_arpipqueue_def by simp
  qed
  then show ?thesis
    using ok st by (simp add: arp_onreceive_def need_def Let_def f(2) wok_intf [OF ok i])
qed

section \<open>Frames\<close>

lemma router_handle_packet_ok:
  assumes ok: "wok {} n w" and f: "frame_ok n pi" "pi_interface pi = Some i" and mc: "memcmp_sound E"
  shows "safe (insert OutOfFuel wire_faults) (wok {} n)
           (router_handle_packet steps (Suc (Suc fuel)) E pi w)"
proof -
  have "safe (insert OutOfFuel wire_faults) (wok {} n) (ip_onreceive (Suc (Suc fuel)) E pi w)"
    by (rule safe_mono [OF ip_onreceive_ok [OF ok f(1) mc]]) auto
  then show ?thesis
    using ok arp_onreceive_ok [OF ok f mc]
    by (simp add: router_handle_packet_def Let_def)
qed

lemma router_handle_packet_ends:
  assumes ok: "wok {} n w" and f: "frame_ok n pi" "pi_interface pi = Some i" and mc: "memcmp_sound E"
    and st: "settled w" "length (waiting w) < steps"
  shows "safe wire_faults (wok {} n) (router_handle_packet steps (Suc (Suc fuel)) E pi w)"
proof -
  have "safe wire_faults (wok {} n) (arp_onreceive steps (Suc (Suc fuel)) E pi w)"
    by (rule safe_mono [OF arp_onreceive_ends [OF ok f mc st]]) auto
  moreover have "safe wire_faults (wok {} n) (ip_onreceive (Suc (Suc fuel)) E pi w)"
    by (rule ip_onreceive_ok [OF ok f(1) mc])
  ultimately show ?thesis using ok by (simp add: router_handle_packet_def Let_def)
qed

end
