(* ===== verification/System.thy ===== *)
theory System
  imports Pending
begin

text \<open>
  The router as a whole.  Start-up (\<open>router_init\<close>, \<open>router_add_interface\<close> for each
  interface, \<open>sr_integ_hw_setup\<close>) establishes the invariant; the frame handler, the
  periodic passes of the threads, the commands on the ARP cache and TCP output keep it.
  A step relation collects these operations, and every state reached from start-up
  satisfies the invariant.
\<close>

section \<open>Start-up\<close>

text \<open>The state between \<open>router_init\<close> and \<open>sr_integ_hw_setup\<close>.\<close>

definition booting :: "nat \<Rightarrow> world \<Rightarrow> bool" where
  "booting n w \<longleftrightarrow>
     num_interfaces w = n \<and> intfs_wf w \<and> (\<forall>i<n. \<not> locker (neighbours (interface w ! i)))
     \<and> \<not> djkstra_locker w \<and> ip_table w = queue_init \<and> arp_cache w = queue_init
     \<and> iparp_buffer w = queue_init \<and> dns_db w = queue_init"

definition name_ok :: "string \<Rightarrow> bool" where
  "name_ok name \<longleftrightarrow> PREFIX_LENGTH \<le> length name \<and> length name < SR_NAMELEN"

lemma router_init_booting:
  assumes "length (interface w) = ROUTER_MAX_INTERFACES" and "\<not> djkstra_locker w"
  shows "booting 0 (router_init E w)"
  using assms by (simp add: booting_def router_init_def gettimeofday_def intfs_wf_def)

lemma queue_init_inv [simp]: "queue_inv s queue_init" "\<not> locker queue_init" "packet queue_init = []"
  by (simp_all add: queue_init_def queue_inv_def)

lemma router_add_interface_booting:
  assumes b: "booting n w" and n: "n < ROUTER_MAX_INTERFACES" and nm: "name_ok name"
  shows "safe {} (booting (Suc n)) (router_add_interface name ip msk mac w)"
  using assms
  by (auto simp: booting_def name_ok_def router_add_interface_def intfs_wf_def nth_list_update
      less_Suc_eq Let_def split: if_splits)

lemma router_add_interface_overflow:
  assumes "booting ROUTER_MAX_INTERFACES w"
  shows "router_add_interface name ip msk mac w = Inl OutOfBounds"
  using assms by (auto simp: booting_def router_add_interface_def intfs_wf_def Let_def)

text \<open>One route per interface; the first one is always added.\<close>

definition setup_inv :: "nat \<Rightarrow> nat \<Rightarrow> world \<Rightarrow> bool" where
  "setup_inv n i w \<longleftrightarrow>
     num_interfaces w = n \<and> intfs_wf w \<and> (\<forall>i<n. \<not> locker (neighbours (interface w ! i)))
     \<and> \<not> djkstra_locker w \<and> table_inv sizeof_rtable_entry (ip_table w)
     \<and> arp_cache w = queue_init \<and> iparp_buffer w = queue_init \<and> dns_db w = queue_init
     \<and> routes_via n (packet (ip_table w)) \<and> (\<forall>e\<in>set (packet (ip_table w)). \<not> dynamic e)
     \<and> (0 < i \<longrightarrow> packet (ip_table w) \<noteq> [])"

lemma hw_setup_step:
  assumes s: "setup_inv n i w" and i: "i < n"
  shows "\<exists>tbl. ip_putintable (ip_table w) sub (Some i) msk False 0 0 = Inr tbl
           \<and> setup_inv n (Suc i) (w\<lparr>ip_table := tbl\<rparr>)"
proof -
  have t: "ip_table w = queue_of sizeof_rtable_entry (packet (ip_table w))"
    using s by (simp add: setup_inv_def table_inv_iff)
  have "first_match P (packet (ip_table w)) \<noteq> None \<Longrightarrow> packet (ip_table w) \<noteq> []" for P
    by auto
  then show ?thesis
    using s i
    by (subst t) (auto simp: ip_putintable_of setup_inv_def intfs_wf_def routes_via_def
        split: option.splits)
qed

lemma hw_setup_from_inv:
  "setup_inv n i w \<Longrightarrow> i + m \<le> n \<Longrightarrow> safe {} (setup_inv n (i + m)) (hw_setup_from m i w)"
proof (induction m arbitrary: i w)
  case (Suc m)
  have i: "i < n" "i < length (interface w)"
    using Suc.prems by (auto simp: setup_inv_def intfs_wf_def)
  obtain tbl where t: "ip_putintable (ip_table w)
        (if_ip (interface w ! i) AND subnet_mask (interface w ! i)) (Some i)
        (subnet_mask (interface w ! i)) False 0 0 = Inr tbl"
      "setup_inv n (Suc i) (w\<lparr>ip_table := tbl\<rparr>)"
    using hw_setup_step [OF Suc.prems(1) i(1)] by blast
  have "safe {} (setup_inv n (Suc i + m)) (hw_setup_from m (Suc i) (w\<lparr>ip_table := tbl\<rparr>))"
    using Suc.IH [OF t(2)] Suc.prems(2) by simp
  with t(1) i(2) show ?case by (simp add: interface_at_def)
qed simp

lemma setup_inv_wok:
  assumes "setup_inv n i w" and "0 < i"
  shows "wok {} n w"
proof -
  have "filter (\<lambda>e. \<not> dynamic e) (packet (ip_table w)) = packet (ip_table w)"
    using assms by (intro filter_True) (simp add: setup_inv_def)
  then show ?thesis
    using assms by (simp add: setup_inv_def wok_def table_inv_def static_routes_def)
qed

lemma sr_integ_hw_setup_ok:
  assumes "booting n w" and "0 < n"
  shows "safe {} (wok {} n) (sr_integ_hw_setup w)"
proof -
  have s: "setup_inv n 0 w"
    using assms by (simp add: booting_def setup_inv_def routes_via_def table_inv_def)
  have n: "num_interfaces w = n" using assms by (simp add: booting_def)
  have "safe {} (setup_inv n (0 + n)) (hw_setup_from n 0 w)"
    by (rule hw_setup_from_inv [OF s]) simp
  then show ?thesis
    unfolding sr_integ_hw_setup_def n by (rule safe_mono) (use setup_inv_wok assms(2) in auto)
qed

text \<open>The whole start-up, with the parameters of the interfaces that are added.\<close>

type_synonym if_spec = "string \<times> addr_ip \<times> addr_ip \<times> addr_mac"

primrec add_interfaces :: "if_spec list \<Rightarrow> world \<Rightarrow> world result" where
  "add_interfaces [] w = Inr w"
| "add_interfaces (s # ss) w =
     (case s of (name, ip, msk, mac) \<Rightarrow>
        bindr (router_add_interface name ip msk mac w) (add_interfaces ss))"

definition start_router :: "env \<Rightarrow> if_spec list \<Rightarrow> world \<Rightarrow> world result" where
  "start_router E specs w = bindr (add_interfaces specs (router_init E w)) sr_integ_hw_setup"

lemma add_interfaces_booting:
  "booting n w \<Longrightarrow> n + length specs \<le> ROUTER_MAX_INTERFACES \<Longrightarrow>
   \<forall>s\<in>set specs. name_ok (fst s) \<Longrightarrow>
   safe {} (booting (n + length specs)) (add_interfaces specs w)"
proof (induction specs arbitrary: n w)
  case (Cons s specs)
  obtain name ip msk mac where s: "s = (name, ip, msk, mac)" using prod_cases4 by blast
  have "safe {} (booting (Suc n)) (router_add_interface name ip msk mac w)"
    using Cons.prems s by (intro router_add_interface_booting) auto
  then show ?case
    unfolding s add_interfaces.simps prod.case
    by (rule safe_bindr) (use Cons.IH [of "Suc n"] Cons.prems in simp)
qed simp

lemma start_router_ok:
  assumes "length (interface w) = ROUTER_MAX_INTERFACES" and "\<not> djkstra_locker w"
    and "specs \<noteq> []" and "length specs \<le> ROUTER_MAX_INTERFACES" and "\<forall>s\<in>set specs. name_ok (fst s)"
  shows "safe {} (wok {} (length specs)) (start_router E specs w)"
  unfolding start_router_def
proof (rule safe_bindr)
  show "safe {} (booting (0 + length specs)) (add_interfaces specs (router_init E w))"
    by (rule add_interfaces_booting [OF router_init_booting [OF assms(1,2)]]) (use assms in auto)
  show "safe {} (wok {} (length specs)) (sr_integ_hw_setup w')" if "booting (0 + length specs) w'" for w'
    using sr_integ_hw_setup_ok that assms(3) by simp
qed

section \<open>Periodic passes and commands\<close>

lemma wok_set_cache: "wok L n w \<Longrightarrow> wok L n (w\<lparr>arp_cache := arp_queue_of xs\<rparr>)"
  by (simp add: wok_def intfs_wf_def static_routes_def)

lemma wok_cache: "wok L n w \<Longrightarrow> arp_cache w = arp_queue_of (packet (arp_cache w))"
  using wokD(9) by (simp add: table_inv_iff)

lemma arp_sweep_ok: "wok L n w \<Longrightarrow> safe {} (wok L n) (arp_sweep P w)"
  using arp_sweep_of [OF wok_cache] wok_set_cache by auto

lemma arp_clear_all_ok: "wok L n w \<Longrightarrow> wok L n (arp_clear_all w)"
  unfolding arp_clear_all_def
  by (subst wok_cache) (simp_all add: queue_purge_of wok_set_cache)

lemma arp_remove_ip_mac_ok:
  assumes "wok L n w"
  shows "safe {} (wok L n) (arp_remove_ip_mac ip mac w)"
proof -
  let ?xs = "packet (arp_cache w)"
  have "arp_remove_ip_mac ip mac (w\<lparr>arp_cache := arp_queue_of ?xs\<rparr>) =
      Inr (w\<lparr>arp_cache := arp_queue_of
        (case first_match (\<lambda>e. arp_ip e = ip \<and> arp_mac e = mac) ?xs of
           Some (i, _) \<Rightarrow> remove_nth i ?xs | None \<Rightarrow> ?xs)\<rparr>)"
    by (auto simp: arp_remove_ip_mac_def queue_simps first_match_Some split: option.splits)
  moreover have "w\<lparr>arp_cache := arp_queue_of ?xs\<rparr> = w"
    using wok_cache [OF assms] world_update_same(1) [of w] by simp
  ultimately show ?thesis using wok_set_cache [OF assms] by simp
qed

lemma arp_maintain_cache_pass_ok:
  assumes "wok L n w"
  shows "safe {} (wok L n) (arp_maintain_cache_pass E w)"
  using arp_maintain_cache_pass_of [OF wok_cache [OF assms], of E] wok_set_cache [OF assms]
  by (cases "sweep_list (arp_expired E) (packet (arp_cache w)) (ticks w)")
     (simp add: wok_def intfs_wf_def static_routes_def)

lemma hello_send_ok:
  assumes st: "sending n st" and i: "i < n"
  shows "safe wire_faults (sending n) (hello_send E i st)"
proof -
  obtain pi w where s: "st = (pi, w)" by force
  have ok: "wok {} n w" and len: "14 \<le> unat (pi_len pi)" "unat (pi_len pi) \<le> length (pi_packet pi)"
    using st s by (simp_all add: sending_def)
  have hello: "safe wire_faults (\<lambda>p'. length p' = length p) (generate_pwospf_hello_header rid aid msk p)"
    for rid aid msk p
    unfolding generate_pwospf_hello_header_def
    by (rule safe_need, rule safe_mono [OF checksum_fill_length]) (auto simp: pwospf_fields_def)
  show ?thesis
    unfolding s hello_send_def prod.case wok_intf [OF ok i] bindr.simps
    by (rule safe_bindr [OF generate_ipv4_header_length], rule safe_bindr [OF hello],
        rule sending_send_ok) (use ok len in auto)
qed

lemma send_pwospf_hello_packet_ok:
  assumes "wok {} n w"
  shows "safe wire_faults (wok {} n) (send_pwospf_hello_packet E w)"
  unfolding send_pwospf_hello_packet_def
  by (rule safe_bindr [OF for_loop_safe [where I = "\<lambda>_. sending n"]])
     (use assms hello_send_ok wokD(1) [OF assms] in \<open>auto simp: sending_def\<close>)

text \<open>A datagram of the TCP stack.\<close>

lemma sr_integ_ip_output_ok:
  assumes ok: "wok {} n w" and mc: "memcmp_sound E" and len: "length data < 65516"
  shows "safe wire_faults (\<lambda>(r, w). r = 1 \<and> wok {} n w)
           (sr_integ_ip_output (Suc (Suc fuel)) E data IP_TYPE_TCP src dest w)"
proof -
  let ?t = "20 + length data"
  let ?p = "put32 30 dest (put32 26 src (put8 23 IP_TYPE_TCP (put8 22 64 (put16 20 (htons 0x4000)
      (put16 18 (junk_u16 E) (put16 16 (htons (of_nat ?t)) (put8 15 0x10
        (put8 14 0x45 (replicate 34 0 @ data)))))))))"
  define m where "m = (of_nat (14 + ?t) :: u32)"
  have u: "unat m = 34 + length data" using len unfolding m_def by (simp only: unat_of_nat) simp
  have p: "length ?p = 34 + length data" "u8_at ?p 23 = IP_TYPE_TCP" by (simp_all add: wire)
  have step: "safe wire_faults (\<lambda>(r, w). r = 1 \<and> wok {} n w)
      (bindr (ip_onreceive (Suc (Suc fuel)) E \<lparr>pi_packet = q, pi_len = m, pi_interface = None\<rparr> w)
        (\<lambda>w. Inr (1, w)))" if "\<exists>c. q = put16 24 c (put16 24 0 ?p)" for q
  proof (rule safe_bindr [OF ip_onreceive_ok [OF ok _ mc]])
    have "length q = 34 + length data" "u8_at q 23 = IP_TYPE_TCP"
      using that p by (auto simp: u8_at_put16)
    then show "frame_ok n \<lparr>pi_packet = q, pi_len = m, pi_interface = None\<rparr>"
      using u by (simp add: frame_ok_def)
  qed simp
  show ?thesis
    unfolding sr_integ_ip_output_def Let_def m_def [symmetric]
    by (rule safe_bindr [OF checksum_fill_safe], rule step)
qed

section \<open>Retransmission of ARP requests\<close>

lemma receives_generated:
  assumes "receives n recv"
  shows "recv_ok n recv \<and> recv_one n recv"
proof -
  have "safe wire_faults (\<lambda>w'. wok {} n w' \<and> one_more w w') (recv pi w)"
    if "wok {} n w" "generated n w pi" for pi w
  proof -
    have "frame_ok n pi" "34 \<le> unat (pi_len pi)" "\<not> control_for w pi"
      using that(2) by (auto simp: generated_def control_for_def IP_TYPE_ICMP_def IP_TYPE_OSPF_def)
    with assms that(1) show ?thesis by (simp add: receives_def)
  qed
  then show ?thesis
    unfolding recv_ok_def recv_one_def
    by (metis (mono_tags, lifting) UNIV_I safe_mono subsetI)
qed

definition resend_due :: "timeval \<Rightarrow> iparp_buffer_entry \<Rightarrow> bool" where
  "resend_due now b \<longleftrightarrow> 34 \<le> unat (pi_len (ib_packet_info b)) \<and> arpip_timed_out now b"

lemma maintain_from_end:
  "wok L n w \<Longrightarrow> length (waiting w) \<le> i \<Longrightarrow> maintain_from (Suc m) recv E now (int i) w = Inr w"
  by (subst maintain_from.simps, subst wok_waiting) auto

lemma maintain_from_step:
  assumes ok: "wok {} n w" and i: "i < length (waiting w)" and b: "b = waiting w ! i"
  shows "maintain_from (Suc m) recv E now (int i) w =
    (if resend_due now b then
       (if sent_arps_count b < ARPIP_QUEUE_MAXARPREQUESTS then
          bindr (arp_send_request E (ib_intf b) (ib_dest b)
                   (set_waiting ((waiting w)[i := b\<lparr>sent_arps_count := sent_arps_count b + 1,
                        reception_time := clock E (ticks w)\<rparr>]) (w\<lparr>ticks := Suc (ticks w)\<rparr>)))
            (maintain_from m recv E now (int (Suc i)))
        else
          bindr (interface_at w (Some i)) (\<lambda>iface.
          bindr (icmp_send recv E (ib_packet_info b) (if_ip iface) ICMP_TYPE_DST_UNREACH
                   ICMP_CODE_HOST_UNREACH (set_waiting (remove_nth i (waiting w)) w))
            (maintain_from m recv E now (int (Suc i)))))
     else maintain_from m recv E now (int (Suc i)) w)"
proof -
  let ?pi = "ib_packet_info b"
  have bok: "buffer_ok n b" using wokD(7) [OF ok] i b by simp
  then have len: "14 \<le> unat (pi_len ?pi)" by (simp add: buffer_ok_def frame_ok_def)
  have can: "PACKET_CAN_MARSHALL sizeof_packet_ip4 14 (pi_len ?pi) \<longleftrightarrow> 34 \<le> unat (pi_len ?pi)"
    using PACKET_CAN_MARSHALL_iff [of 14 "pi_len ?pi" 20] len by simp
  have get: "queue_getidandlock (iparp_buffer w) (int i) =
      (Some (b, sizeof_iparp_buffer_entry), iparp_buffer w)"
    using i b by (subst (1 2) wok_waiting [OF ok]) (simp add: queue_simps)
  have size: "int i < qsize (iparp_buffer w)"
    using i by (subst wok_waiting [OF ok]) simp
  have rem: "queue_unlockidandremove (iparp_buffer w) (int i) =
      queue_of sizeof_iparp_buffer_entry (remove_nth i (waiting w))"
    using i by (subst wok_waiting [OF ok]) (simp add: queue_simps)
  have unl: "queue_unlockid (iparp_buffer w) (int i) = iparp_buffer w"
    by (subst (1 2) wok_waiting [OF ok]) (simp add: queue_simps)
  have upd: "queue_unlockid (iparp_buffer w\<lparr>packet := (waiting w)[i := x]\<rparr>) (int i) =
      queue_of sizeof_iparp_buffer_entry ((waiting w)[i := x])" for x
    by (subst (1) wok_waiting [OF ok]) (simp add: queue_of_def queue_unlockid_def)
  show ?thesis
    unfolding maintain_from.simps get
    using size bok can
    by (simp add: buffer_ok_def rem unl upd resend_due_def gettimeofday_def Let_def add.commute)
qed

lemma maintain_from_ends:
  assumes recv: "receives n recv"
  shows "wok {} n w \<Longrightarrow> length (waiting w) - i < m \<Longrightarrow>
    safe wire_faults (wok {} n) (maintain_from m recv E now (int i) w)"
proof (induction m arbitrary: i w)
  case (Suc m)
  note ok = Suc.prems(1)
  show ?case
  proof (cases "i < length (waiting w)")
    case True
    define b where "b = waiting w ! i"
    have b: "buffer_ok n b" using wokD(7) [OF ok] True by (simp add: b_def)
    then obtain k where k: "k < n" "ib_intf b = Some k" by (auto simp: buffer_ok_def)
    let ?b = "b\<lparr>sent_arps_count := sent_arps_count b + 1, reception_time := clock E (ticks w)\<rparr>"
    let ?w1 = "set_waiting ((waiting w)[i := ?b]) (w\<lparr>ticks := Suc (ticks w)\<rparr>)"
    let ?w2 = "set_waiting (remove_nth i (waiting w)) w"
    have nxt: "safe wire_faults (wok {} n) (maintain_from m recv E now (int (Suc i)) w')"
      if "wok {} n w'" "length (waiting w') \<le> length (waiting w)" for w'
      using Suc.IH [OF that(1), of "Suc i"] that(2) Suc.prems(2) True by simp
    have "wok {} n ?w1"
    proof (rule wok_set_waiting)
      show "wok {} n (w\<lparr>ticks := Suc (ticks w)\<rparr>)" using ok by simp
      show "buffer_ok n b'" if "b' \<in> set ((waiting w)[i := ?b])" for b'
        using that set_update_subset_insert [of "waiting w" i ?b] wokD(7) [OF ok] b
        by (auto simp: buffer_ok_def)
    qed
    then have w1: "safe wire_faults (\<lambda>w'. wok {} n w' \<and> same_buffer ?w1 w')
        (arp_send_request E (Some k) d ?w1)" for d
      by (rule safe_and [OF arp_send_request_ok [OF _ k(1)] arp_send_request_quiet])
    have w2: "safe wire_faults (\<lambda>w'. wok {} n w' \<and> one_more ?w2 w')
        (icmp_send recv E pi s ICMP_TYPE_DST_UNREACH c ?w2)" for pi s c
      using receives_generated [OF recv] wok_remove_waiting [OF ok]
      by (intro safe_and icmp_send_ok icmp_send_one) auto
    have "safe wire_faults (wok {} n) (bindr (arp_send_request E (Some k) d ?w1)
        (maintain_from m recv E now (int (Suc i))))" for d
      by (rule safe_bindr [OF w1], rule nxt) (auto simp: same_buffer_def)
    moreover have "safe wire_faults (wok {} n) (bindr (icmp_send recv E pi s ICMP_TYPE_DST_UNREACH c ?w2)
        (maintain_from m recv E now (int (Suc i))))" for pi s c
      by (rule safe_bindr [OF w2], rule nxt)
         (use length_one_more [of ?w2] length_remove_nth [OF True] True in fastforce)+
    moreover have "safe wire_faults (\<lambda>_. True) (interface_at w (Some i))"
      by (simp add: interface_at_def need_def)
    ultimately show ?thesis
      unfolding maintain_from_step [OF ok True b_def] k(2)
      using nxt [OF ok] by (auto intro: safe_bindr [where P = "\<lambda>_. True"])
  next
    case False
    then show ?thesis using maintain_from_end [OF ok, of i m] ok by simp
  qed
qed simp

section \<open>Neighbours that time out\<close>

text \<open>
  \<open>pwospf_thread\<close> frees the link-state block of a dead neighbour and then removes every
  neighbour with the same router id, skipping the entry after each removed one.  When the
  ids in a table are distinct this removes exactly the dead entry.
\<close>

definition ids_distinct :: "nat \<Rightarrow> world \<Rightarrow> bool" where
  "ids_distinct n w \<longleftrightarrow>
     (\<forall>i<n. distinct (map neighbour_id (packet (neighbours (interface w ! i)))))"

lemma skip_filter_distinct:
  assumes "distinct (map f xs)"
  shows "skip_filter (\<lambda>x. f x = a) xs = filter (\<lambda>x. f x \<noteq> a) xs"
proof (rule skip_filter_isolated)
  fix i assume "Suc i < length xs" "f (xs ! i) = a"
  then show "f (xs ! Suc i) \<noteq> a"
    using assms nth_eq_iff_index_eq [of "map f xs" i "Suc i"] by auto
qed

lemma filter_update_out: "\<not> P (xs ! i) \<Longrightarrow> \<not> P y \<Longrightarrow> filter P (xs[i := y]) = filter P xs"
  by (induction xs arbitrary: i) (auto split: nat.splits)

definition forget :: "u32 \<Rightarrow> pwospf_list_entry dataqueue \<Rightarrow> pwospf_list_entry dataqueue" where
  "forget rid q = queue_of sizeof_pwospf_list_entry (filter (\<lambda>e. neighbour_id e \<noteq> rid) (packet q))"

lemma removeall_eq:
  assumes n: "num_interfaces w = n" "n \<le> length (interface w)"
    and q: "\<And>i. i < n \<Longrightarrow> table_inv sizeof_pwospf_list_entry (neighbours (interface w ! i))"
    and d: "ids_distinct n w"
  shows "safe {} (\<lambda>w'. \<exists>ifs. w' = w\<lparr>interface := ifs\<rparr> \<and> length ifs = length (interface w)
      \<and> (\<forall>i<n. neighbours (ifs ! i) = forget rid (neighbours (interface w ! i))))
    (removeallneighbourswithrouterid rid w)"
proof -
  let ?I = "\<lambda>j w'. \<exists>ifs. w' = w\<lparr>interface := ifs\<rparr> \<and> length ifs = length (interface w)
      \<and> (\<forall>i<n. neighbours (ifs ! i) =
           (if i < j then forget rid (neighbours (interface w ! i)) else neighbours (interface w ! i)))"
  have "safe {} (?I (0 + n)) (removeallneighbourswithrouterid rid w)"
    unfolding removeallneighbourswithrouterid_def n(1)
  proof (rule for_loop_safe)
    show "?I 0 w" by (rule exI [of _ "interface w"]) simp
  next
    fix j w' assume j: "j < 0 + n" and "?I j w'"
    then obtain ifs where w': "w' = w\<lparr>interface := ifs\<rparr>" "length ifs = length (interface w)"
        "\<And>i. i < n \<Longrightarrow> neighbours (ifs ! i) =
           (if i < j then forget rid (neighbours (interface w ! i)) else neighbours (interface w ! i))"
      by auto
    let ?q = "neighbours (interface w ! j)"
    have qj: "?q = queue_of sizeof_pwospf_list_entry (packet ?q)"
      using q [of j] j by (simp add: table_inv_iff)
    have "queue_sweep sizeof_pwospf_list_entry (\<lambda>e (u::unit). (neighbour_id e = rid, u)) ?q () =
        Inr (forget rid ?q, ())"
      using d j by (subst qj) (simp add: queue_simps sweep_list_stateless forget_def ids_distinct_def
          skip_filter_distinct)
    moreover have "neighbours (ifs ! j) = ?q" "j < length ifs" using w' n j by auto
    ultimately show "safe {} (?I (Suc j)) (bindr (interface_at w' (Some j)) (\<lambda>intf.
        bindr (queue_sweep sizeof_pwospf_list_entry (\<lambda>e (u::unit). (neighbour_id e = rid, u))
          (neighbours intf) ()) (\<lambda>(nbs, _). Inr (set_neighbours j nbs w'))))"
      using w' n j
      by (simp add: interface_at_def set_neighbours_def)
         (rule exI [of _ "ifs[j := (ifs ! j)\<lparr>neighbours := forget rid ?q\<rparr>]"],
          simp add: nth_list_update less_Suc_eq)
  qed
  then show ?thesis by (rule safe_mono) auto
qed

lemma forget_ok:
  assumes ok: "wok {} n w" and d: "ids_distinct n w" and ifs: "length ifs = length (interface w)"
    "\<And>i. i < n \<Longrightarrow> neighbours (ifs ! i) = forget rid (neighbours (interface w ! i))"
  shows "wok {} n (w\<lparr>interface := ifs\<rparr>) \<and> ids_distinct n (w\<lparr>interface := ifs\<rparr>)"
proof
  have "lsu_ok e" if "i < n" "e \<in> set (packet (neighbours (ifs ! i)))" for i e
    using that ifs(2) wokD(5) [OF ok] by (auto simp: forget_def)
  then show "wok {} n (w\<lparr>interface := ifs\<rparr>)"
    using ok ifs by (simp add: wok_def intfs_wf_def static_routes_def forget_def)
  show "ids_distinct n (w\<lparr>interface := ifs\<rparr>)"
    using d ifs by (simp add: ids_distinct_def forget_def distinct_map_filter)
qed

lemma free_lsu_ok:
  "lsu_ok e \<Longrightarrow> safe {} (\<lambda>e'. neighbour_id e' = neighbour_id e) (free_lsu e)"
  by (auto simp: free_lsu_def lsu_ok_def split: lsu_block.splits)

lemma reap_dead_ok:
  assumes ok: "wok {} n w" and d: "ids_distinct n w" and j: "j < n"
    and i: "i < length (packet (neighbours (interface w ! j)))"
    and e: "neighbour_id e = neighbour_id (packet (neighbours (interface w ! j)) ! i)"
  shows "safe {} (\<lambda>w'. wok {} n w' \<and> ids_distinct n w')
    (removeallneighbourswithrouterid (neighbour_id e) (set_neighbours j
       (queue_unlockid (neighbours (interface w ! j)\<lparr>packet :=
          (packet (neighbours (interface w ! j)))[i := e]\<rparr>) (int i)) w))"
proof -
  let ?q = "neighbours (interface w ! j)" and ?rid = "neighbour_id e"
  let ?q' = "queue_unlockid (?q\<lparr>packet := (packet ?q)[i := e]\<rparr>) (int i)"
  let ?w = "set_neighbours j ?q' w"
  have tab: "table_inv sizeof_pwospf_list_entry (neighbours (interface w ! k))" if "k < n" for k
    using wokD(4,6) [OF ok that] by (simp add: table_inv_def)
  have q': "?q' = queue_of sizeof_pwospf_list_entry ((packet ?q)[i := e])"
    by (subst (1) tab [OF j, unfolded table_inv_iff]) (simp add: queue_of_def queue_unlockid_def)
  have jl: "j < length (interface w)" using j wokD(2) [OF ok] by simp
  have nb: "neighbours (interface ?w ! k) = (if k = j then ?q' else neighbours (interface w ! k))" for k
    using jl by (simp add: set_neighbours_def nth_list_update)
  have "map neighbour_id ((packet ?q)[i := e]) = map neighbour_id (packet ?q)"
    using i e by (metis list_update_id map_update)
  then have d': "ids_distinct n ?w" using d nb q' by (auto simp: ids_distinct_def)
  have "safe {} (\<lambda>w'. \<exists>ifs. w' = ?w\<lparr>interface := ifs\<rparr> \<and> length ifs = length (interface ?w)
      \<and> (\<forall>i<n. neighbours (ifs ! i) = forget ?rid (neighbours (interface ?w ! i))))
    (removeallneighbourswithrouterid ?rid ?w)"
    by (rule removeall_eq) (use wokD(1,2) [OF ok] tab nb q' d' in \<open>auto simp: set_neighbours_def\<close>)
  then show ?thesis
  proof (rule safe_mono)
    fix w' assume "\<exists>ifs. w' = ?w\<lparr>interface := ifs\<rparr> \<and> length ifs = length (interface ?w)
      \<and> (\<forall>i<n. neighbours (ifs ! i) = forget ?rid (neighbours (interface ?w ! i)))"
    then obtain ifs where w': "w' = w\<lparr>interface := ifs\<rparr>" "length ifs = length (interface w)"
        "\<And>i. i < n \<Longrightarrow> neighbours (ifs ! i) = forget ?rid (neighbours (interface ?w ! i))"
      by (auto simp: set_neighbours_def)
    have "forget ?rid ?q' = forget ?rid ?q"
      using e by (simp add: q' forget_def filter_update_out)
    then have "neighbours (ifs ! k) = forget ?rid (neighbours (interface w ! k))" if "k < n" for k
      using w'(3) [OF that] nb by simp
    with forget_ok [OF ok d w'(2)] w'(1) show "wok {} n w' \<and> ids_distinct n w'" by simp
  qed simp
qed

lemma reap_neighbour_ok:
  assumes ok: "wok {} n w" and d: "ids_distinct n w" and j: "j < n"
  shows "safe {} (\<lambda>(_, w'). wok {} n w' \<and> ids_distinct n w') (reap_neighbour now j i (c, w))"
proof -
  let ?q = "neighbours (interface w ! j)"
  have size: "int i < qsize ?q \<longleftrightarrow> i < length (packet ?q)"
    using wokD(4) [OF ok j] by (simp add: queue_inv_def)
  have dead: "safe {} (\<lambda>(_, w'). wok {} n w' \<and> ids_distinct n w')
      (bindr (free_lsu (packet ?q ! i)) (\<lambda>entry.
       bindr (removeallneighbourswithrouterid (neighbour_id entry) (set_neighbours j
          (queue_unlockid (?q\<lparr>packet := (packet ?q)[i := entry]\<rparr>) (int i)) w))
         (\<lambda>w. Inr (True, w))))" if i: "i < length (packet ?q)"
  proof (rule safe_bindr [OF free_lsu_ok])
    show "lsu_ok (packet ?q ! i)" using wokD(5) [OF ok j] i by simp
    fix e :: pwospf_list_entry assume "neighbour_id e = neighbour_id (packet ?q ! i)"
    then show "safe {} (\<lambda>(_, w'). wok {} n w' \<and> ids_distinct n w')
        (bindr (removeallneighbourswithrouterid (neighbour_id e) (set_neighbours j
          (queue_unlockid (?q\<lparr>packet := (packet ?q)[i := e]\<rparr>) (int i)) w)) (\<lambda>w. Inr (True, w)))"
      by (intro safe_bindr [OF reap_dead_ok [OF ok d j i]]) auto
  qed
  show ?thesis
    using ok d dead
    by (simp add: reap_neighbour_def wok_intf [OF ok j] size wok_nb_get(1) [OF ok j]
        wok_neighbours_same [OF ok j] Let_def)
qed

lemma reap_interface_ok:
  assumes "case st of (_, w) \<Rightarrow> wok {} n w \<and> ids_distinct n w" and j: "j < n"
  shows "safe {} (\<lambda>(_, w'). wok {} n w' \<and> ids_distinct n w') (reap_interface now j st)"
proof -
  obtain c w where st: "st = (c, w)" by force
  with assms have ok: "wok {} n w" "ids_distinct n w" by auto
  show ?thesis
    unfolding st reap_interface_def prod.case wok_intf [OF ok(1) j] bindr.simps
    by (rule for_loop_safe [where I = "\<lambda>_ (_, w'). wok {} n w' \<and> ids_distinct n w'"])
       (use ok j reap_neighbour_ok in auto)
qed

lemma send_pwospf_hello_packet_quiet: "safe UNIV (same_buffer w) (send_pwospf_hello_packet E w)"
proof -
  have "safe UNIV (\<lambda>(_, w'). same_buffer w w') (hello_send E i st)"
    if "case st of (_, w') \<Rightarrow> same_buffer w w'" for i st
  proof -
    obtain pi w' where st: "st = (pi, w')" by force
    show ?thesis
      unfolding st hello_send_def prod.case
      by (rule safe_any_bindr, rule safe_any_bindr, rule safe_any_bindr,
          rule safe_bindr [OF ethernet_packet_send_quiet]) (use that st in auto)
  qed
  then show ?thesis
    unfolding send_pwospf_hello_packet_def
    by (intro safe_bindr [OF for_loop_safe [where I = "\<lambda>_ (_, w'). same_buffer w w'"]]) auto
qed

lemma pwospf_thread_pass_ok:
  assumes ok: "wok {} n w" and d: "ids_distinct n w" and mc: "memcmp_sound E"
  shows "safe wire_faults (wok {} n) (pwospf_thread_pass E w)"
  unfolding pwospf_thread_pass_def
proof (rule safe_bindr [OF safe_and [OF send_pwospf_hello_packet_ok [OF ok]
        send_pwospf_hello_packet_quiet]])
  fix w1 assume w1: "wok {} n w1 \<and> same_buffer w w1"
  have st: "wok {} n (w1\<lparr>ticks := t\<rparr>)" "ids_distinct n (w1\<lparr>ticks := t\<rparr>)"
      "num_interfaces (w1\<lparr>ticks := t\<rparr>) = n" for t
    using w1 d wokD(1) [of "{}" n w1] by (auto simp: same_buffer_def ids_distinct_def)
  let ?J = "\<lambda>(_ :: bool, w'). wok {} n w' \<and> ids_distinct n w'"
  have loop: "safe wire_faults ?J (for_loop n 0 (reap_interface now) (False, w1\<lparr>ticks := t\<rparr>))" for now t
    by (rule safe_mono [OF for_loop_safe [where I = "\<lambda>_. ?J" and F = "{}"]])
       (use st reap_interface_ok in auto)
  have fin: "safe wire_faults (wok {} n) (bindr (if c then recompute_and_send E w' else Inr w') (\<lambda>w.
      if b w then send_pwospf_lsa_packet E w else Inr w))" if "wok {} n w'" for c b w'
    by (rule safe_bindr [where P = "wok {} n"])
       (use that recompute_and_send_ok [OF _ mc] send_pwospf_lsa_packet_ok in auto)
  show "safe wire_faults (wok {} n) (case gettimeofday E w1 of (now, w) \<Rightarrow>
      bindr (for_loop (num_interfaces w) 0 (reap_interface now) (False, w)) (\<lambda>(changed, w).
      bindr (if changed then recompute_and_send E w else Inr w) (\<lambda>w.
        if tv_sec now - tv_sec (last_lsu w) > LSUINT then send_pwospf_lsa_packet E w else Inr w)))"
    unfolding gettimeofday_def prod.case st(3)
    by (rule safe_bindr [OF loop], clarify, rule fin)
qed

section \<open>Executions\<close>

text \<open>
  The operations of the running router that complete: a frame from the network, the
  passes of the ARP, retransmission and PWOSPF threads, the commands on the ARP cache,
  and output of the TCP stack.
\<close>

inductive router_step :: "env \<Rightarrow> world \<Rightarrow> world \<Rightarrow> bool" for E where
  Frame: "frame_ok (num_interfaces w) pi \<Longrightarrow> pi_interface pi = Some i \<Longrightarrow>
    router_handle_packet steps (Suc (Suc fuel)) E pi w = Inr w' \<Longrightarrow> router_step E w w'"
| Age: "arp_maintain_cache_pass E w = Inr w' \<Longrightarrow> router_step E w w'"
| Resend: "thread_arpipqueue_maintain_pass steps (Suc (Suc fuel)) E now w = Inr w' \<Longrightarrow>
    length (packet (iparp_buffer w)) < steps \<Longrightarrow> router_step E w w'"
| Ospf: "ids_distinct (num_interfaces w) w \<Longrightarrow> pwospf_thread_pass E w = Inr w' \<Longrightarrow> router_step E w w'"
| Arp_add: "arp_add_static E ip mac w = Inr w' \<Longrightarrow> router_step E w w'"
| Arp_remove: "arp_remove_ip_mac ip mac w = Inr w' \<Longrightarrow> router_step E w w'"
| Arp_remove_ip: "arp_remove_static_ip ip w = Inr w' \<Longrightarrow> router_step E w w'"
| Arp_clear_static: "arp_clear_static w = Inr w' \<Longrightarrow> router_step E w w'"
| Arp_clear_dynamic: "arp_clear_dynamic w = Inr w' \<Longrightarrow> router_step E w w'"
| Arp_clear_all: "router_step E w (arp_clear_all w)"
| Tcp: "length data < 65516 \<Longrightarrow>
    sr_integ_ip_output (Suc (Suc fuel)) E data IP_TYPE_TCP src dest w = Inr (r, w') \<Longrightarrow>
    router_step E w w'"

lemma router_step_ok:
  assumes "router_step E w w'" and "wok {} n w" and mc: "memcmp_sound E"
  shows "wok {} n w'"
  using assms(1,2)
proof cases
  case (Frame pi i steps fuel)
  then show ?thesis
    using safe_InrD [OF router_handle_packet_ok [OF assms(2) _ _ mc]] wokD(1) [OF assms(2)] by metis
next
  case Age
  then show ?thesis using safe_InrD [OF arp_maintain_cache_pass_ok [OF assms(2)]] by metis
next
  case (Resend steps fuel now)
  then have "length (waiting w) - 0 < steps" by simp
  from maintain_from_ends [OF ip_onreceive_receives [OF mc, where f = fuel] assms(2) this, where now = now and E = E] Resend
  show ?thesis by (simp add: thread_arpipqueue_maintain_pass_def)
next
  case Ospf
  then show ?thesis
    using safe_InrD [OF pwospf_thread_pass_ok [OF assms(2) _ mc]] wokD(1) [OF assms(2)] by metis
next
  case (Arp_add ip mac)
  then show ?thesis
    using safe_InrD [OF arp_putincache_ok [OF assms(2)]] unfolding arp_add_static_def by metis
next
  case (Arp_remove ip mac)
  then show ?thesis using safe_InrD [OF arp_remove_ip_mac_ok [OF assms(2)]] by metis
next
  case (Tcp data fuel src dest r)
  then show ?thesis using safe_InrD [OF sr_integ_ip_output_ok [OF assms(2) mc]] by fastforce
qed (use assms(2) safe_InrD [OF arp_sweep_ok [OF assms(2)]] arp_clear_all_ok in
      \<open>auto simp: arp_remove_static_ip_def arp_clear_static_def arp_clear_dynamic_def\<close>)

lemma reachable_ok:
  assumes "(router_step E)\<^sup>*\<^sup>* w w'" and "wok {} n w" and "memcmp_sound E"
  shows "wok {} n w'"
  using assms by (induction rule: rtranclp_induct) (auto intro: router_step_ok)

end
