(* ===== verification/LinkState.thy ===== *)
theory LinkState
  imports System
begin

text \<open>
  What PWOSPF packets mean: a generated HELLO is accepted by the receiver and enters the
  neighbour into its table, the advertisements copied into a link-state packet are the
  ones the receiver reads, the comparison of two link-state blocks, and two malformed
  situations: a negative advertisement count, and neighbours with equal router ids that
  time out.
\<close>

section \<open>HELLO packets\<close>

lemma pwospf_fields_wire:
  assumes "58 \<le> length p"
  shows "length (pwospf_fields ty len rid aid p) = length p"
    "u8_at (pwospf_fields ty len rid aid p) 34 = OSPF_VERSION"
    "u8_at (pwospf_fields ty len rid aid p) 35 = ty"
    "u32_at (pwospf_fields ty len rid aid p) 38 = rid"
    "u32_at (pwospf_fields ty len rid aid p) 42 = aid"
    "u32_at (pwospf_fields ty len rid aid p) 50 = 0"
    "\<And>i. i < 34 \<or> 58 \<le> i \<Longrightarrow> u8_at (pwospf_fields ty len rid aid p) i = u8_at p i"
proof -
  show "length (pwospf_fields ty len rid aid p) = length p"
    "u8_at (pwospf_fields ty len rid aid p) 34 = OSPF_VERSION"
    "u8_at (pwospf_fields ty len rid aid p) 35 = ty"
    "u32_at (pwospf_fields ty len rid aid p) 38 = rid"
    "u32_at (pwospf_fields ty len rid aid p) 42 = aid"
    "u32_at (pwospf_fields ty len rid aid p) 50 = 0"
    using assms by (simp_all add: pwospf_fields_def wire)
  show "u8_at (pwospf_fields ty len rid aid p) i = u8_at p i" if "i < 34 \<or> 58 \<le> i" for i
    using that by (elim disjE) (simp_all add: pwospf_fields_def wire)
qed

text \<open>The PWOSPF part of a HELLO, as the receiver reads it.\<close>

definition hello_packet :: "addr_ip \<Rightarrow> addr_ip \<Rightarrow> u32 \<Rightarrow> byte list \<Rightarrow> bool" where
  "hello_packet rid aid msk p \<longleftrightarrow>
     u8_at p 34 = OSPF_VERSION \<and> u8_at p 35 = OSPF_TYPE_HELLO \<and> u32_at p 38 = rid
     \<and> u32_at p 42 = aid \<and> u32_at p 50 = 0 \<and> u32_at p 58 = msk \<and> ntohs (u16_at p 62) = HELLOINT
     \<and> generatechecksum (drop 34 p) 32 = Inr 0"

lemma generate_hello:
  assumes len: "66 \<le> length p"
  shows "\<exists>q. generate_pwospf_hello_header rid aid msk p = Inr q \<and> length q = length p
           \<and> hello_packet rid aid msk q \<and> (\<forall>i<34. u8_at q i = u8_at p i)"
proof -
  let ?f = "pwospf_fields OSPF_TYPE_HELLO 32 rid aid p"
  let ?q = "put16 64 0 (put16 62 (htons HELLOINT) (put32 58 msk ?f))"
  note f = pwospf_fields_wire [where ty = OSPF_TYPE_HELLO and len = 32 and rid = rid and aid = aid and p = p]
  have l: "length ?q = length p" using f len by simp
  obtain c where c: "checksum_fill 34 46 (int 32) ?q = Inr (put16 46 c ?q)"
      "generatechecksum (drop 34 (put16 46 c ?q)) (int 32) = Inr 0"
    using ospf_sum.fill_verifies [of 32 ?q] l len by auto
  let ?r = "put16 46 c ?q"
  have "hello_packet rid aid msk ?r"
    using c(2) f len by (simp add: hello_packet_def wire)
  moreover have "u8_at ?r i = u8_at p i" if "i < 34" for i using that f len by (simp add: wire)
  ultimately show ?thesis
    using c(1) l len by (intro exI [of _ ?r]) (simp add: generate_pwospf_hello_header_def)
qed

text \<open>A HELLO from an address that is not in the table enters a new immediate neighbour.\<close>

definition new_neighbour :: "env \<Rightarrow> addr_ip \<Rightarrow> addr_ip \<Rightarrow> timeval \<Rightarrow> pwospf_list_entry" where
  "new_neighbour E rid ip now =
     \<lparr>neighbour_id = rid, neighbour_ip = ip, nb_helloint = HELLOINT, nb_timestamp = now,
      immediate_neighbour = 1, lsu_lastseq = junk_u16 E, lsu_lastcontents = LsuNull,
      lsu_lastcontents_count = 0, lsu_timestamp = junk_tv E\<rparr>"

lemma hello_accepted:
  assumes ok: "wok {} n w" and ii: "pi_interface pi = Some ii" "ii < n"
    and h: "hello_packet rid 0 (subnet_mask (interface w ! ii)) (pi_packet pi)"
    and intf: "helloint (interface w ! ii) = HELLOINT" and area: "area_id (pw_router w) = 0"
    and len: "66 \<le> unat (pi_len pi)" "unat (pi_len pi) \<le> length (pi_packet pi)"
    and new: "\<And>e. e \<in> set (packet (neighbours (interface w ! ii))) \<Longrightarrow>
                neighbour_ip e \<noteq> ip4_src_ip (pi_packet pi)"
  shows "pwospf_onreceive E pi w = recompute_and_send E (set_neighbours ii
     (queue_of sizeof_pwospf_list_entry (packet (neighbours (interface w ! ii)) @
        [new_neighbour E rid (ip4_src_ip (pi_packet pi)) (clock E (ticks w))]))
     (w\<lparr>ticks := Suc (ticks w)\<rparr>))"
proof -
  let ?p = "pi_packet pi" and ?q = "neighbours (interface w ! ii)"
  have q: "?q = queue_of sizeof_pwospf_list_entry (packet ?q)"
    using wokD(4,6) [OF ok ii(2)] by (simp add: table_inv_def flip: table_inv_iff)
  have none: "first_match (\<lambda>e. neighbour_ip e = ip4_src_ip ?p) (packet ?q) = None"
    using new by (auto simp: first_match_None)
  have find: "queue_find sizeof_pwospf_list_entry (\<lambda>e. neighbour_ip e = ip4_src_ip ?p) ?q =
      Inr (None, ?q)"
    by (subst (1 2) q) (simp add: queue_simps none)
  have add: "queue_add ?q x sizeof_pwospf_list_entry =
      Inr (queue_of sizeof_pwospf_list_entry (packet ?q @ [x]))" for x
    by (subst q) (simp add: queue_simps)
  have m: "PACKET_CAN_MARSHALL sizeof_pwospf_packet_hello 34 (pi_len pi)"
    using PACKET_CAN_MARSHALL_iff [of 34 "pi_len pi" 32] len by simp
  have "pwospf_onreceive E pi w = pwospf_onreceive_hello E pi w"
    using h area len m
    by (simp add: pwospf_onreceive_def hello_packet_def Let_def OSPF_VERSION_def ntohl_def)
  also have "\<dots> = recompute_and_send E (set_neighbours ii
     (queue_of sizeof_pwospf_list_entry (packet ?q @
        [new_neighbour E rid (ip4_src_ip ?p) (clock E (ticks w))])) (w\<lparr>ticks := Suc (ticks w)\<rparr>))"
    using h intf
    by (simp add: pwospf_onreceive_hello_def ii(1) wok_intf [OF ok ii(2)] hello_packet_def find add
        gettimeofday_def new_neighbour_def)
  finally show ?thesis .
qed

section \<open>Link-state packets\<close>

lemma lsa_at_put_lsa_same: "off + 12 \<le> length p \<Longrightarrow> lsa_at (put_lsa off l p) off = l"
  by (simp add: lsa_at_def put_lsa_def wire)

lemma lsa_at_put_lsa_other:
  "off' + 12 \<le> off \<or> off + 12 \<le> off' \<Longrightarrow> lsa_at (put_lsa off l p) off' = lsa_at p off'"
  by (elim disjE) (simp_all add: lsa_at_def put_lsa_def wire)

lemma length_put_lsa [simp]: "length (put_lsa off l p) = length p"
  by (simp add: put_lsa_def)

lemma lsa_copies_payload:
  assumes len: "66 + 12 * length xs \<le> length p"
  shows "\<exists>q. for_loop (length xs) 0 (lsa_copy (queue_of sizeof_pwospf_lsa xs)) p = Inr q
           \<and> length q = length p \<and> payload (length xs) q = xs"
proof -
  let ?I = "\<lambda>i q. length q = length p \<and> (\<forall>g<i. lsa_at q (66 + 12 * g) = xs ! g)"
  have "safe {} (?I (0 + length xs))
      (for_loop (length xs) 0 (lsa_copy (queue_of sizeof_pwospf_lsa xs)) p)"
  proof (rule for_loop_safe)
    fix j q assume j: "j < 0 + length xs" and I: "?I j q"
    have "lsa_at (put_lsa (66 + 12 * j) (xs ! j) q) (66 + 12 * g) = xs ! g" if "g < Suc j" for g
    proof (cases "g = j")
      case True
      then show ?thesis using j I len by (simp add: lsa_at_put_lsa_same)
    next
      case False
      then have "g < j" using that by simp
      then show ?thesis using I by (simp add: lsa_at_put_lsa_other)
    qed
    then show "safe {} (?I (Suc j)) (lsa_copy (queue_of sizeof_pwospf_lsa xs) j q)"
      using j I len by (simp add: lsa_copy_def queue_getidunsafe_of)
  qed simp
  then obtain q where "for_loop (length xs) 0 (lsa_copy (queue_of sizeof_pwospf_lsa xs)) p = Inr q"
      "?I (length xs) q" by (auto simp: safe_empty_iff)
  moreover then have "payload (length xs) q = xs"
    by (auto simp: payload_def intro!: nth_equalityI)
  ultimately show ?thesis by blast
qed

text \<open>
  \<open>compare_lsus\<close> looks for each entry of the first block in the second: it holds of equal
  blocks, and it means that the second block contains every entry of the first.
\<close>

lemma compare_lsus_iff:
  assumes "length a = n" and "length b = n"
  shows "compare_lsus a b n \<longleftrightarrow> set a \<subseteq> set b"
proof -
  have "compare_lsus a b n \<longleftrightarrow> (\<forall>i<n. \<exists>j<n. a ! i = b ! j)"
    by (simp add: compare_lsus_def list_all_iff list_ex_iff Ball_def Bex_def)
  also have "\<dots> \<longleftrightarrow> (\<forall>x\<in>set a. \<exists>y\<in>set b. x = y)"
    using assms by (simp add: all_set_conv_all_nth Bex_def in_set_conv_nth) metis
  finally show ?thesis by auto
qed

section \<open>A negative advertisement count\<close>

text \<open>
  A count of 0xFFFFFFFF is -1 as an \<open>int\<close>.  The length test is done with 64-bit unsigned
  arithmetic, where 66 + (-1) * 12 is 54, and the checksum covers 20 bytes; the copy of
  the advertisements then goes to the null pointer that \<open>malloc\<close> returns.
\<close>

lemma negative_count_crash:
  assumes ok: "wok {} n w" and ii: "pi_interface pi = Some ii" "ii < n"
    and len: "54 \<le> unat (pi_len pi)" and cnt: "u32_at (pi_packet pi) 62 = 0xFFFFFFFF"
    and sum: "generatechecksum (drop 34 (pi_packet pi)) 20 = Inr 0"
    and rid: "u32_at (pi_packet pi) 38 \<noteq> router_id (pw_router w)"
    and new: "\<And>e. e \<in> set (packet (neighbours (interface w ! ii))) \<Longrightarrow>
                neighbour_id e \<noteq> u32_at (pi_packet pi) 38"
  shows "pwospf_onreceive_link E pi w = Inl NullDeref"
proof -
  let ?q = "neighbours (interface w ! ii)" and ?rid = "u32_at (pi_packet pi) 38"
  let ?q' = "?q\<lparr>locker := True\<rparr>"
  have a: "ntohl (0xFFFFFFFF :: u32) = 0xFFFFFFFF" by (simp add: ntohl_def)
  have s: "sint (0xFFFFFFFF :: u32) = -1" "sint (32 + (0xFFFFFFFF :: u32) * 12) = 20"
    "(66 :: u64) + scast (0xFFFFFFFF :: u32) * 12 = 54"
    by simp_all
  have l: "\<not> (ucast (pi_len pi) :: u64) < 54" using len by (simp add: word_less_nat_alt)
  have lock: "queue_lockall ?q = Inr ?q'" using wokD(6) [OF ok ii(2)] by (simp add: queue_lockall_def)
  have "getneighbour_from ?q' ?rid m k = Inr None" for m k
  proof (induction m arbitrary: k)
    case (Suc m)
    then show ?case
      using wokD(4) [OF ok ii(2)] new by (simp add: queue_getidunsafe_def queue_inv_def nat_less_iff)
  qed simp
  then show ?thesis
    unfolding pwospf_onreceive_link_def ii(1) wok_intf [OF ok ii(2)] bindr.simps Let_def cnt a s
    using l sum rid
    by (simp add: lock getneighbourfromidunsafe_def link_new_def lsu_alloc_def)
qed

section \<open>Neighbours with equal router ids\<close>

text \<open>
  Two entries with one router id, the first alive and the second timed out.  The block
  of the second is freed; the sweep then removes the first and skips the second, which
  stays in the table with its dangling pointer, and the recomputation that follows reads
  through it.
\<close>

definition dangling :: "pwospf_list_entry \<Rightarrow> pwospf_list_entry" where
  "dangling e = e\<lparr>lsu_lastcontents := LsuFreed\<rparr>"

lemma reap_dangling:
  assumes n: "num_interfaces w = 1" "0 < length (interface w)"
    and q: "neighbours (interface w ! 0) = queue_of sizeof_pwospf_list_entry [e1, e2]"
    and id: "neighbour_id e1 = neighbour_id e2"
    and dead: "\<not> neighbour_dead now e1" "neighbour_dead now e2" "lsu_lastcontents e2 = LsuData xs"
  shows "\<exists>w'. reap_interface now 0 (c, w) = Inr (True, w') \<and> num_interfaces w' = 1
           \<and> 0 < length (interface w')
           \<and> neighbours (interface w' ! 0) = queue_of sizeof_pwospf_list_entry [dangling e2]"
proof -
  let ?s = sizeof_pwospf_list_entry
  have same: "set_neighbours 0 (queue_of ?s [e1, e2]) w = w"
    using n(2) by (simp add: set_neighbours_def flip: q)
  have first: "reap_neighbour now 0 0 (c, w) = Inr (c, w)"
    using n dead(1) by (simp add: reap_neighbour_def interface_at_def q queue_simps same)
  let ?w1 = "set_neighbours 0 (queue_of ?s [e1, dangling e2]) w"
  have w1: "num_interfaces ?w1 = 1" "0 < length (interface ?w1)"
    "neighbours (interface ?w1 ! 0) = queue_of ?s [e1, dangling e2]"
    using n by (simp_all add: set_neighbours_def)
  have upd: "(queue_of ?s [e1, e2])\<lparr>packet := [e1, dangling e2]\<rparr> = queue_of ?s [e1, dangling e2]"
    by (simp add: queue_of_def)
  let ?w2 = "set_neighbours 0 (queue_of ?s [dangling e2]) ?w1"
  have "skip_filter (\<lambda>e. neighbour_id e = neighbour_id e2) [e1, dangling e2] = [dangling e2]"
    using id by simp
  then have "removeallneighbourswithrouterid (neighbour_id e2) ?w1 = Inr ?w2"
    using w1 by (simp add: removeallneighbourswithrouterid_def interface_at_def queue_simps
        sweep_list_stateless)
  then have second: "reap_neighbour now 0 (Suc 0) (c, w) = Inr (True, ?w2)"
    using n dead(2,3)
    by (simp add: reap_neighbour_def interface_at_def q queue_simps free_lsu_def upd
        flip: dangling_def) (simp add: dangling_def)
  have "reap_interface now 0 (c, w) = Inr (True, ?w2)"
    using n first second by (simp add: reap_interface_def interface_at_def q numeral_2_eq_2)
  moreover have "num_interfaces ?w2 = 1" "0 < length (interface ?w2)"
    "neighbours (interface ?w2 ! 0) = queue_of ?s [dangling e2]"
    using n by (simp_all add: set_neighbours_def)
  ultimately show ?thesis by blast
qed

lemma queue_add_new_init: "queue_add_new sz queue_init x = Inr (queue_of sz [x])"
  by (simp add: queue_add_new_def queue_init_of [of sz] queue_simps)

lemma gather_dangling:
  assumes "num_interfaces w = 1" and "0 < length (interface w)"
    and q: "neighbours (interface w ! 0) = queue_of sizeof_pwospf_list_entry [dangling e]"
    and "0 < lsu_lastcontents_count e"
  shows "djikstra_gather w = Inl UseAfterFree"
proof -
  have c: "nat (lsu_lastcontents_count e) = Suc (nat (lsu_lastcontents_count e - 1))" using assms(4) by simp
  show ?thesis
    using assms(1,2)
    by (simp add: queue_add_new_init djikstra_gather_def gather_interface_def interface_at_def q gather_neighbour_def
        queue_simps dangling_def c gather_lsa_def lsu_at_def)
qed

end
