(* ===== verification/WorkQueue.thy ===== *)
theory WorkQueue
  imports Prelude
begin

text \<open>
  The work queue between the driver and the worker threads (\<open>sr_work_queue.c\<close>): a
  singly linked list with head and tail pointers.  The nodes live in an explicit
  heap, because \<open>wq_enqueue\<close> appends through the tail pointer.  The mutex makes the
  critical sections atomic, so a state change is one step: an enqueue, a worker
  taking the first item, a worker that terminates, and the destruction.

  The refinement lemmas relate the linked list with a plain list; the last section
  shows that any interleaving of the steps hands the items out in the order in which
  they were enqueued.
\<close>

section \<open>Model\<close>

record 'a work =
  work_type :: int
  work_data :: 'a
  work_next :: "nat option"

record 'a work_queue =
  wq_heap :: "nat \<Rightarrow> 'a work option"
  wq_fresh :: nat
  wq_head :: "nat option"
  wq_tail :: "nat option"
  wq_done :: bool
  wq_workers :: u32

definition wq_init :: "u32 \<Rightarrow> 'a work_queue result" where
  "wq_init num_workers =
     need (num_workers \<noteq> 0) Die
      (Inr \<lparr>wq_heap = (\<lambda>_. None), wq_fresh = 0, wq_head = None, wq_tail = None,
            wq_done = False, wq_workers = num_workers\<rparr>)"

definition wq_enqueue :: "int \<Rightarrow> 'a \<Rightarrow> 'a work_queue \<Rightarrow> 'a work_queue result" where
  "wq_enqueue type work wq =
     (let w = wq_fresh wq;
          heap = (wq_heap wq)(w := Some \<lparr>work_type = type, work_data = work, work_next = None\<rparr>);
          wq = wq\<lparr>wq_heap := heap, wq_fresh := Suc w\<rparr>
      in case wq_tail wq of
           Some t \<Rightarrow>
             (case heap t of
                None \<Rightarrow> Inl UseAfterFree
              | Some node \<Rightarrow>
                  Inr (wq\<lparr>wq_heap := heap(t := Some (node\<lparr>work_next := Some w\<rparr>)),
                          wq_tail := Some w\<rparr>))
         | None \<Rightarrow> Inr (wq\<lparr>wq_head := Some w, wq_tail := Some w\<rparr>))"

text \<open>
  The part of \<open>wq_wait_for_work\<close> after the wait: \<open>WorkDone\<close> when the queue is shut
  down, \<open>WorkItem\<close> with the item, or \<open>WorkWait\<close> when the condition of the wait loop
  holds.  The node is freed when the work is finished; no other thread can reach it.
\<close>

datatype 'a taken_work = WorkWait | WorkDone | WorkItem int 'a

definition wq_take :: "'a work_queue \<Rightarrow> ('a taken_work \<times> 'a work_queue) result" where
  "wq_take wq =
     (if \<not> wq_done wq \<and> wq_head wq = None then Inr (WorkWait, wq)
      else if wq_done wq then Inr (WorkDone, wq\<lparr>wq_workers := wq_workers wq - 1\<rparr>)
      else case wq_head wq of
             None \<Rightarrow> Inl Die
           | Some a \<Rightarrow>
               (case wq_heap wq a of
                  None \<Rightarrow> Inl UseAfterFree
                | Some node \<Rightarrow>
                    let hd' = work_next node
                    in Inr (WorkItem (work_type node) (work_data node),
                            wq\<lparr>wq_head := hd',
                               wq_tail := (if hd' = None then None else wq_tail wq),
                               wq_heap := (wq_heap wq)(a := None)\<rparr>)))"

text \<open>
  \<open>wq_destroy\<close>: \<open>n\<close> bounds the loop that frees the nodes.  The tail pointer is not
  reset.
\<close>

fun free_nodes :: "nat \<Rightarrow> nat option \<Rightarrow> (nat \<Rightarrow> 'a work option) \<Rightarrow> (nat \<Rightarrow> 'a work option) result"
  where
  "free_nodes n None heap = Inr heap"
| "free_nodes 0 (Some a) heap = Inl OutOfFuel"
| "free_nodes (Suc n) (Some a) heap =
     (case heap a of
        None \<Rightarrow> Inl UseAfterFree
      | Some node \<Rightarrow> free_nodes n (work_next node) (heap(a := None)))"

definition wq_destroy :: "'a work_queue \<Rightarrow> 'a work_queue result" where
  "wq_destroy wq =
     bindr (free_nodes (wq_fresh wq) (wq_head wq) (wq_heap wq)) (\<lambda>heap.
       Inr (wq\<lparr>wq_done := True, wq_head := None, wq_heap := heap\<rparr>))"

section \<open>The list the queue represents\<close>

fun chain :: "(nat \<Rightarrow> 'a work option) \<Rightarrow> nat option \<Rightarrow> nat list \<Rightarrow> bool" where
  "chain h p [] = (p = None)"
| "chain h p (a # as) =
     (p = Some a \<and> (case h a of None \<Rightarrow> False | Some node \<Rightarrow> chain h (work_next node) as))"

definition item :: "(nat \<Rightarrow> 'a work option) \<Rightarrow> nat \<Rightarrow> int \<times> 'a" where
  "item h a = (work_type (the (h a)), work_data (the (h a)))"

definition wq_repr :: "'a work_queue \<Rightarrow> nat list \<Rightarrow> bool" where
  "wq_repr wq as \<longleftrightarrow>
     chain (wq_heap wq) (wq_head wq) as \<and> distinct as \<and> (\<forall>a\<in>set as. a < wq_fresh wq)
     \<and> wq_tail wq = (if as = [] then None else Some (last as))"

definition wq_list :: "'a work_queue \<Rightarrow> nat list \<Rightarrow> (int \<times> 'a) list" where
  "wq_list wq as = map (item (wq_heap wq)) as"

lemma chain_upd_other: "a \<notin> set as \<Longrightarrow> chain (h(a := x)) p as = chain h p as"
  by (induction h p as rule: chain.induct) (auto split: option.splits)

lemma chain_mem: "chain h p as \<Longrightarrow> a \<in> set as \<Longrightarrow> h a \<noteq> None"
  by (induction h p as rule: chain.induct) (auto split: option.splits)

lemma chain_append_node:
  assumes "chain h p as" and "as \<noteq> []" and "distinct as" and "w \<notin> set as"
    and "h (last as) = Some node" and "h w = Some new" and "work_next new = None"
  shows "chain (h(last as := Some (node\<lparr>work_next := Some w\<rparr>))) p (as @ [w])"
  using assms
proof (induction h p as rule: chain.induct)
  case (2 h p a as)
  show ?case
  proof (cases "as = []")
    case True
    with 2 show ?thesis by auto
  next
    case False
    have "a \<noteq> last as" using 2 False by auto
    then show ?thesis
      using 2 False by (auto split: option.splits)
  qed
qed simp

lemma wq_init_repr: "wq_init n = Inr wq \<Longrightarrow> wq_repr wq []"
  by (auto simp: wq_init_def wq_repr_def need_Inr_iff)

lemma wq_enqueue_refines:
  assumes "wq_repr wq as"
  shows "\<exists>wq'. wq_enqueue ty x wq = Inr wq' \<and> wq_repr wq' (as @ [wq_fresh wq])
           \<and> wq_list wq' (as @ [wq_fresh wq]) = wq_list wq as @ [(ty, x)]
           \<and> wq_done wq' = wq_done wq \<and> wq_workers wq' = wq_workers wq"
proof -
  let ?w = "wq_fresh wq"
  let ?new = "\<lparr>work_type = ty, work_data = x, work_next = None\<rparr>"
  let ?h = "(wq_heap wq)(?w := Some ?new)"
  have fresh: "?w \<notin> set as" using assms by (auto simp: wq_repr_def)
  have ch: "chain ?h (wq_head wq) as" using assms fresh by (simp add: wq_repr_def chain_upd_other)
  show ?thesis
  proof (cases "as = []")
    case True
    with assms show ?thesis
      by (auto simp: wq_enqueue_def wq_repr_def wq_list_def item_def Let_def)
  next
    case False
    then obtain node where node: "?h (last as) = Some node"
      using chain_mem [OF ch] by (metis last_in_set not_None_eq)
    have lastw: "last as \<noteq> ?w" using False fresh by (metis last_in_set)
    have "chain (?h(last as := Some (node\<lparr>work_next := Some ?w\<rparr>))) (wq_head wq) (as @ [?w])"
      using assms by (intro chain_append_node [OF ch False _ fresh node]) (auto simp: wq_repr_def)
    moreover have "map (item (?h(last as := Some (node\<lparr>work_next := Some ?w\<rparr>)))) as
        = map (item (wq_heap wq)) as"
      using node fresh lastw by (intro map_cong) (auto simp: item_def)
    ultimately show ?thesis
      using assms False node fresh lastw
      by (auto simp: wq_enqueue_def wq_repr_def wq_list_def item_def Let_def)
  qed
qed

lemma wq_take_refines:
  assumes "wq_repr wq (a # as)" and "\<not> wq_done wq"
  shows "\<exists>wq'. wq_take wq = Inr (case_prod WorkItem (item (wq_heap wq) a), wq')
           \<and> wq_repr wq' as \<and> wq_list wq' as = wq_list wq as
           \<and> wq_done wq' = wq_done wq \<and> wq_workers wq' = wq_workers wq"
proof -
  obtain node where node: "wq_heap wq a = Some node" "chain (wq_heap wq) (work_next node) as"
    using assms by (auto simp: wq_repr_def split: option.splits)
  have na: "a \<notin> set as" using assms by (simp add: wq_repr_def)
  have "work_next node = None \<longleftrightarrow> as = []"
    using node(2) by (cases as) auto
  moreover have "map (item ((wq_heap wq)(a := None))) as = map (item (wq_heap wq)) as"
    using na by (intro map_cong) (auto simp: item_def)
  ultimately show ?thesis
    using assms node na
    by (auto simp: wq_take_def wq_repr_def wq_list_def item_def Let_def chain_upd_other)
qed

lemma free_nodes_all:
  assumes "chain h p as" and "distinct as" and "length as \<le> n"
  shows "\<exists>h'. free_nodes n p h = Inr h' \<and> (\<forall>a\<in>set as. h' a = None)
           \<and> (\<forall>a. a \<notin> set as \<longrightarrow> h' a = h a)"
  using assms
proof (induction as arbitrary: n p h)
  case Nil
  then show ?case by auto
next
  case (Cons a as)
  then obtain node where node: "p = Some a" "h a = Some node" "chain h (work_next node) as"
    by (auto split: option.splits)
  obtain m where n: "n = Suc m" using Cons.prems(3) by (cases n) auto
  have "chain (h(a := None)) (work_next node) as"
    using node Cons.prems by (simp add: chain_upd_other)
  then obtain h' where "free_nodes m (work_next node) (h(a := None)) = Inr h'"
      "\<forall>a\<in>set as. h' a = None" "\<forall>b. b \<notin> set as \<longrightarrow> h' b = (h(a := None)) b"
    using Cons.IH Cons.prems n by (metis distinct.simps(2) length_Cons not_less_eq_eq)
  with node n Cons.prems show ?case by (intro exI [of _ h']) auto
qed

lemma distinct_below_length: "distinct as \<Longrightarrow> (\<forall>a\<in>set as. a < n) \<Longrightarrow> length as \<le> n"
proof -
  assume d: "distinct as" and "\<forall>a\<in>set as. a < n"
  then have "set as \<subseteq> {..<n}" by auto
  then have "card (set as) \<le> n" by (metis card_lessThan card_mono finite_lessThan)
  with d show "length as \<le> n" by (simp add: distinct_card)
qed

section \<open>Interleavings\<close>

datatype 'a wq_event = Enq int 'a | Deq int 'a | Exit | Idle

inductive wq_step :: "'a work_queue \<Rightarrow> 'a wq_event \<Rightarrow> 'a work_queue \<Rightarrow> bool" where
  enq: "wq_enqueue ty x wq = Inr wq' \<Longrightarrow> wq_step wq (Enq ty x) wq'"
| deq: "wq_take wq = Inr (WorkItem ty x, wq') \<Longrightarrow> wq_step wq (Deq ty x) wq'"
| exit: "wq_take wq = Inr (WorkDone, wq') \<Longrightarrow> wq_step wq Exit wq'"
| idle: "wq_take wq = Inr (WorkWait, wq') \<Longrightarrow> wq_step wq Idle wq'"

inductive_cases wq_step_EnqE: "wq_step wq (Enq ty x) wq'"
inductive_cases wq_step_DeqE: "wq_step wq (Deq ty x) wq'"
inductive_cases wq_step_ExitE: "wq_step wq Exit wq'"
inductive_cases wq_step_IdleE: "wq_step wq Idle wq'"

inductive wq_run :: "'a work_queue \<Rightarrow> 'a wq_event list \<Rightarrow> 'a work_queue \<Rightarrow> bool" for wq0 where
  start: "wq_run wq0 [] wq0"
| more: "wq_run wq0 es wq \<Longrightarrow> wq_step wq e wq' \<Longrightarrow> wq_run wq0 (es @ [e]) wq'"

fun enqueued :: "'a wq_event list \<Rightarrow> (int \<times> 'a) list" where
  "enqueued [] = []"
| "enqueued (Enq ty x # es) = (ty, x) # enqueued es"
| "enqueued (_ # es) = enqueued es"

fun dequeued :: "'a wq_event list \<Rightarrow> (int \<times> 'a) list" where
  "dequeued [] = []"
| "dequeued (Deq ty x # es) = (ty, x) # dequeued es"
| "dequeued (_ # es) = dequeued es"

lemma enqueued_append: "enqueued (es @ fs) = enqueued es @ enqueued fs"
  by (induction es rule: enqueued.induct) auto

lemma dequeued_append: "dequeued (es @ fs) = dequeued es @ dequeued fs"
  by (induction es rule: dequeued.induct) auto

lemma wq_step_fifo:
  assumes "wq_step wq e wq'" and "wq_repr wq as" and "\<not> wq_done wq"
  shows "\<exists>as'. wq_repr wq' as' \<and> \<not> wq_done wq'
           \<and> wq_list wq as @ enqueued [e] = dequeued [e] @ wq_list wq' as'"
proof (cases e)
  case (Enq ty x)
  then have "wq_enqueue ty x wq = Inr wq'" using assms(1) by (auto elim: wq_step_EnqE)
  with wq_enqueue_refines [OF assms(2), of ty x] assms(3) Enq show ?thesis by auto
next
  case (Deq ty x)
  then have t: "wq_take wq = Inr (WorkItem ty x, wq')" using assms(1) by (auto elim: wq_step_DeqE)
  show ?thesis
  proof (cases as)
    case Nil
    with assms t show ?thesis by (auto simp: wq_repr_def wq_take_def)
  next
    case (Cons a bs)
    with assms obtain wq'' where w: "wq_take wq = Inr (case_prod WorkItem (item (wq_heap wq) a), wq'')"
        "wq_repr wq'' bs" "wq_list wq'' bs = wq_list wq bs" "wq_done wq'' = wq_done wq"
      using wq_take_refines [of wq a bs] by auto
    with t have "wq' = wq''" "item (wq_heap wq) a = (ty, x)"
      by (auto split: prod.splits)
    with w Cons Deq assms(3) show ?thesis
      by (intro exI [of _ bs]) (auto simp: wq_list_def)
  qed
next
  case Exit
  with assms show ?thesis
    by (auto elim!: wq_step_ExitE simp: wq_take_def Let_def split: option.splits if_splits)
next
  case Idle
  then have "wq_take wq = Inr (WorkWait, wq')" using assms(1) by (auto elim: wq_step_IdleE)
  then have "wq' = wq" by (auto simp: wq_take_def Let_def split: option.splits if_splits)
  with Idle assms show ?thesis by auto
qed

lemma wq_run_fifo:
  assumes "wq_run wq0 es wq" and "wq_init n = Inr wq0"
  shows "\<exists>as. wq_repr wq as \<and> \<not> wq_done wq \<and> enqueued es = dequeued es @ wq_list wq as"
  using assms
proof (induction rule: wq_run.induct)
  case start
  then show ?case
    by (intro exI [of _ "[]"]) (auto simp: wq_init_repr wq_list_def wq_init_def need_Inr_iff)
next
  case (more es wq e wq')
  then obtain as where as: "wq_repr wq as" "\<not> wq_done wq"
      "enqueued es = dequeued es @ wq_list wq as" by blast
  with wq_step_fifo [OF more.hyps(2)] obtain as' where "wq_repr wq' as'" "\<not> wq_done wq'"
      "wq_list wq as @ enqueued [e] = dequeued [e] @ wq_list wq' as'" by blast
  with as show ?case
    by (intro exI [of _ as']) (simp add: enqueued_append dequeued_append)
qed

end
