(* ===== verification/SrCommon.thy ===== *)
theory SrCommon
  imports RouterState
begin

text \<open>
  The helpers of \<open>sr_common.c\<close>: arithmetic on \<open>struct timeval\<close>, MAC addresses as
  register values, and the printable forms of addresses.  Allocation wrappers,
  \<open>make_ip_addr\<close> (a call of \<open>inet_aton\<close>), \<open>time_to_string\<close> (a call of \<open>ctime\<close>) and
  \<open>my_snprintf\<close> are not modelled.
\<close>

section \<open>Time\<close>

text \<open>
  \<open>unsigned\<close> arithmetic: the sum of \<open>usec\<close> and \<open>tv_usec\<close> is reduced to 32 bits.
\<close>

definition time_add_usec :: "timeval \<Rightarrow> u32 \<Rightarrow> timeval" where
  "time_add_usec start usec =
     (let tot_usec = usec + word_of_int (tv_usec start);
          carry_sec = tot_usec div 1000000
      in \<lparr>tv_sec = tv_sec start + uint carry_sec,
          tv_usec = uint (tot_usec - 1000000 * carry_sec)\<rparr>)"

definition is_later :: "timeval \<Rightarrow> timeval \<Rightarrow> bool" where
  "is_later t1 t2 \<longleftrightarrow>
     tv_sec t1 > tv_sec t2 \<or> (tv_sec t1 = tv_sec t2 \<and> tv_usec t1 > tv_usec t2)"

text \<open>The result is a \<open>uint64_t\<close>: it wraps around when \<open>end\<close> is before \<open>start\<close>.\<close>

definition time_passed :: "timeval \<Rightarrow> timeval \<Rightarrow> u64" where
  "time_passed start finish =
     word_of_int (tv_sec finish * 1000000 + tv_usec finish)
     - word_of_int (tv_sec start * 1000000 + tv_usec start)"

definition has_time_passed :: "timeval \<Rightarrow> timeval \<Rightarrow> u64 \<Rightarrow> bool" where
  "has_time_passed start finish microsec_threshold \<longleftrightarrow> time_passed start finish > microsec_threshold"

text \<open>A normalised time and its value in microseconds.\<close>

definition tv_norm :: "timeval \<Rightarrow> bool" where
  "tv_norm t \<longleftrightarrow> 0 \<le> tv_usec t \<and> tv_usec t < 1000000"

definition usecs :: "timeval \<Rightarrow> int" where
  "usecs t = tv_sec t * 1000000 + tv_usec t"

lemma time_add_usec_eq:
  assumes "tv_norm t" and "uint usec + tv_usec t < 2 ^ 32"
  shows "time_add_usec t usec =
    \<lparr>tv_sec = tv_sec t + (uint usec + tv_usec t) div 1000000,
     tv_usec = (uint usec + tv_usec t) mod 1000000\<rparr>"
proof -
  let ?s = "uint usec + tv_usec t"
  let ?w = "usec + word_of_int (tv_usec t)"
  have nn: "0 \<le> tv_usec t" "tv_usec t < 2 ^ 32" using assms(1) by (auto simp: tv_norm_def)
  have w: "uint ?w = ?s"
    using assms nn by (simp add: uint_word_ariths uint_word_of_int)
  have d: "uint (?w div 1000000) = ?s div 1000000"
    by (simp add: uint_div_distrib w)
  have "?w = 1000000 * (?w div 1000000) + ?w mod 1000000"
    by (rule mult_div_mod_eq [symmetric])
  then have "?w - 1000000 * (?w div 1000000) = ?w mod 1000000"
    by (metis add_diff_cancel_left')
  then have m: "uint (?w - 1000000 * (?w div 1000000)) = ?s mod 1000000"
    by (simp add: uint_mod_distrib w)
  show ?thesis by (simp add: time_add_usec_def Let_def d m)
qed

lemma is_later_iff:
  assumes "tv_norm t1" and "tv_norm t2"
  shows "is_later t1 t2 \<longleftrightarrow> usecs t1 > usecs t2"
proof -
  have "0 \<le> tv_usec t1" "tv_usec t1 < 1000000" "0 \<le> tv_usec t2" "tv_usec t2 < 1000000"
    using assms by (auto simp: tv_norm_def)
  then show ?thesis by (simp add: is_later_def usecs_def) linarith
qed

lemma time_passed_exact:
  assumes "usecs s \<le> usecs f" and "usecs f - usecs s < 2 ^ 64"
  shows "uint (time_passed s f) = usecs f - usecs s"
proof -
  have "time_passed s f = word_of_int (usecs f - usecs s)"
    by (simp add: time_passed_def usecs_def)
  then have "uint (time_passed s f) = take_bit 64 (usecs f - usecs s)"
    by (simp only: uint_word_of_int take_bit_eq_mod) simp
  with assms show ?thesis by (simp add: take_bit_int_eq_self)
qed

section \<open>MAC addresses\<close>

definition is_valid_mac :: "addr_mac \<Rightarrow> bool" where
  "is_valid_mac mac \<longleftrightarrow>
     octet0 mac \<noteq> 0 \<or> octet1 mac \<noteq> 0 \<or> octet2 mac \<noteq> 0
     \<or> octet3 mac \<noteq> 0 \<or> octet4 mac \<noteq> 0 \<or> octet5 mac \<noteq> 0"

definition make_mac_addr :: "byte \<Rightarrow> byte \<Rightarrow> byte \<Rightarrow> byte \<Rightarrow> byte \<Rightarrow> byte \<Rightarrow> addr_mac" where
  "make_mac_addr byte5 byte4 byte3 byte2 byte1 byte0 = MAC byte0 byte1 byte2 byte3 byte4 byte5"

definition mac_hi :: "addr_mac \<Rightarrow> u16" where
  "mac_hi mac = push_bit 8 (ucast (octet0 mac)) + ucast (octet1 mac)"

definition mac_lo :: "addr_mac \<Rightarrow> u32" where
  "mac_lo mac = push_bit 24 (ucast (octet2 mac)) + push_bit 16 (ucast (octet3 mac))
                + push_bit 8 (ucast (octet4 mac)) + ucast (octet5 mac)"

definition mac_set_hi :: "u16 \<Rightarrow> addr_mac \<Rightarrow> addr_mac" where
  "mac_set_hi hi mac =
     MAC (ucast (drop_bit 8 hi)) (ucast (hi AND 0x00FF))
       (octet2 mac) (octet3 mac) (octet4 mac) (octet5 mac)"

definition mac_set_lo :: "u32 \<Rightarrow> addr_mac \<Rightarrow> addr_mac" where
  "mac_set_lo lo mac =
     MAC (octet0 mac) (octet1 mac) (ucast (drop_bit 24 lo))
       (ucast (drop_bit 16 (lo AND 0x00FF0000))) (ucast (drop_bit 8 (lo AND 0x0000FF00)))
       (ucast (lo AND 0x000000FF))"

lemma byte_bit_bound: "bit (b :: byte) n \<Longrightarrow> n < 8"
  using bit_imp_le_length [of b n] by simp

lemma mac_hi_or: "mac_hi mac = push_bit 8 (ucast (octet0 mac)) OR ucast (octet1 mac)"
  unfolding mac_hi_def
  by (rule disjunctive_add [symmetric, THEN sym]) (auto simp: bit_simps dest: byte_bit_bound)

lemma mac_lo_or:
  "mac_lo mac = push_bit 24 (ucast (octet2 mac)) OR push_bit 16 (ucast (octet3 mac))
     OR push_bit 8 (ucast (octet4 mac)) OR ucast (octet5 mac)"
proof -
  have 1: "(push_bit 24 (ucast (octet2 mac)) :: u32) + push_bit 16 (ucast (octet3 mac))
      = push_bit 24 (ucast (octet2 mac)) OR push_bit 16 (ucast (octet3 mac))"
    by (rule disjunctive_add) (auto simp: bit_simps dest: byte_bit_bound)
  have 2: "(push_bit 24 (ucast (octet2 mac)) OR push_bit 16 (ucast (octet3 mac)) :: u32)
      + push_bit 8 (ucast (octet4 mac))
      = push_bit 24 (ucast (octet2 mac)) OR push_bit 16 (ucast (octet3 mac))
      OR push_bit 8 (ucast (octet4 mac))"
    by (subst disjunctive_add) (auto simp: bit_simps or.assoc dest: byte_bit_bound)
  have 3: "(push_bit 24 (ucast (octet2 mac)) OR push_bit 16 (ucast (octet3 mac))
      OR push_bit 8 (ucast (octet4 mac)) :: u32) + ucast (octet5 mac)
      = push_bit 24 (ucast (octet2 mac)) OR push_bit 16 (ucast (octet3 mac))
      OR push_bit 8 (ucast (octet4 mac)) OR ucast (octet5 mac)"
    by (subst disjunctive_add) (auto simp: bit_simps or.assoc dest: byte_bit_bound)
  show ?thesis unfolding mac_lo_def 1 2 3 ..
qed

lemma mac_hi_lo_octets:
  "ucast (drop_bit 8 (mac_hi mac)) = octet0 mac" "ucast (mac_hi mac AND 0x00FF) = octet1 mac"
  "ucast (drop_bit 24 (mac_lo mac)) = octet2 mac"
  "ucast (drop_bit 16 (mac_lo mac AND 0x00FF0000)) = octet3 mac"
  "ucast (drop_bit 8 (mac_lo mac AND 0x0000FF00)) = octet4 mac"
  "ucast (mac_lo mac AND 0x000000FF) = octet5 mac"
proof -
  have m8: "(0x00FF :: u16) = mask 8" "(0x000000FF :: u32) = mask 8"
    "(0x0000FF00 :: u32) = push_bit 8 (mask 8)" "(0x00FF0000 :: u32) = push_bit 16 (mask 8)"
    by (simp_all add: mask_eq_exp_minus_1)
  show "ucast (drop_bit 8 (mac_hi mac)) = octet0 mac" "ucast (mac_hi mac AND 0x00FF) = octet1 mac"
    unfolding mac_hi_or m8
    by (rule bit_word_eqI; auto simp: bit_simps dest: byte_bit_bound)+
  show "ucast (drop_bit 24 (mac_lo mac)) = octet2 mac"
    "ucast (drop_bit 16 (mac_lo mac AND 0x00FF0000)) = octet3 mac"
    "ucast (drop_bit 8 (mac_lo mac AND 0x0000FF00)) = octet4 mac"
    "ucast (mac_lo mac AND 0x000000FF) = octet5 mac"
    unfolding mac_lo_or m8
    by (rule bit_word_eqI; auto simp: bit_simps dest: byte_bit_bound)+
qed

lemma mac_set_hi_lo: "mac_set_hi (mac_hi mac) (mac_set_lo (mac_lo mac) mac0) = mac"
  unfolding mac_set_hi_def mac_set_lo_def mac_hi_lo_octets by (cases mac) simp

section \<open>Printable forms\<close>

text \<open>\<open>%u\<close> and \<open>%X\<close> of a small number.\<close>

definition digit_char :: "nat \<Rightarrow> char" where
  "digit_char d = ''0123456789ABCDEF'' ! d"

fun print_u :: "nat \<Rightarrow> string" where
  "print_u n = (if n < 10 then [digit_char n] else print_u (n div 10) @ [digit_char (n mod 10)])"

declare print_u.simps [simp del]

definition byte_of_ip :: "addr_ip \<Rightarrow> nat \<Rightarrow> byte" where
  "byte_of_ip ip i = ucast (drop_bit (8 * i) ip)"

definition STRLEN_IP :: nat where "STRLEN_IP = 16"
definition STRLEN_MAC :: nat where "STRLEN_MAC = 18"

text \<open>\<open>snprintf (buf, n, ...)\<close> stores at most \<open>n - 1\<close> characters.\<close>

definition ip_to_string :: "addr_ip \<Rightarrow> string" where
  "ip_to_string ip =
     take (STRLEN_IP - 1)
       (print_u (unat (byte_of_ip ip 0)) @ ''.'' @ print_u (unat (byte_of_ip ip 1)) @ ''.''
        @ print_u (unat (byte_of_ip ip 2)) @ ''.'' @ print_u (unat (byte_of_ip ip 3)))"

definition print_octet :: "byte \<Rightarrow> string" where
  "print_octet b = [digit_char (unat (drop_bit 4 b)), digit_char (unat (0x0F AND b))]"

definition mac_to_string :: "addr_mac \<Rightarrow> string" where
  "mac_to_string mac =
     take (STRLEN_MAC - 1)
       (print_octet (octet0 mac) @ '':'' @ print_octet (octet1 mac) @ '':''
        @ print_octet (octet2 mac) @ '':'' @ print_octet (octet3 mac) @ '':''
        @ print_octet (octet4 mac) @ '':'' @ print_octet (octet5 mac))"

text \<open>The population count of Hacker's Delight.\<close>

definition ones :: "u32 \<Rightarrow> u32" where
  "ones x =
     (let x = x - (drop_bit 1 x AND 0x55555555);
          x = (drop_bit 2 x AND 0x33333333) + (x AND 0x33333333);
          x = (drop_bit 4 x + x) AND 0x0f0f0f0f;
          x = x + drop_bit 8 x;
          x = x + drop_bit 16 x
      in x AND 0x0000003f)"

definition subnet_to_string :: "addr_ip \<Rightarrow> addr_ip \<Rightarrow> string" where
  "subnet_to_string sub msk =
     (let num_ones = unat (ones msk);
          b = (\<lambda>i. print_u (unat (byte_of_ip sub i)));
          s = (if num_ones = 0 \<and> sub = 0 then ''<catch-all>''
               else if num_ones \<le> 8 then b 0 @ ''/'' @ print_u num_ones
               else if num_ones \<le> 16 then b 0 @ ''.'' @ b 1 @ ''/'' @ print_u num_ones
               else if num_ones \<le> 24 then b 0 @ ''.'' @ b 1 @ ''.'' @ b 2 @ ''/'' @ print_u num_ones
               else b 0 @ ''.'' @ b 1 @ ''.'' @ b 2 @ ''.'' @ b 3 @ ''/'' @ print_u num_ones)
      in take (STRLEN_IP + 3 - 1) s)"

section \<open>The printable forms are faithful\<close>

lemma digit_char_inj: "d < 16 \<Longrightarrow> e < 16 \<Longrightarrow> digit_char d = digit_char e \<Longrightarrow> d = e"
proof -
  have "distinct ''0123456789ABCDEF''" by code_simp
  then show "d < 16 \<Longrightarrow> e < 16 \<Longrightarrow> digit_char d = digit_char e \<Longrightarrow> d = e"
    by (simp add: digit_char_def nth_eq_iff_index_eq del: nth_Cons_numeral)
qed

lemma digit_char_not: "d < 16 \<Longrightarrow> digit_char d \<noteq> CHR ''.'' \<and> digit_char d \<noteq> CHR '':''"
proof -
  have "list_all (\<lambda>d. digit_char d \<noteq> CHR ''.'' \<and> digit_char d \<noteq> CHR '':'') [0..<16]" by code_simp
  then show "d < 16 \<Longrightarrow> digit_char d \<noteq> CHR ''.'' \<and> digit_char d \<noteq> CHR '':''"
    by (simp add: list_all_iff)
qed

lemma print_u_not_dot: "CHR ''.'' \<notin> set (print_u n)"
proof (induction n rule: print_u.induct)
  case (1 n)
  then show ?case
    using digit_char_not [of n] digit_char_not [of "n mod 10"] mod_less_divisor [of 10 n]
    by (subst print_u.simps) (auto simp del: mod_less_divisor)
qed

lemma print_u_not_Nil: "print_u n \<noteq> []" "[] \<noteq> print_u n"
  by (subst print_u.simps, simp)+

lemma print_u_inj: "print_u m = print_u n \<Longrightarrow> m = n"
proof (induction m arbitrary: n rule: print_u.induct)
  case (1 m)
  have m: "print_u m = (if m < 10 then [digit_char m] else print_u (m div 10) @ [digit_char (m mod 10)])"
    and n: "print_u n = (if n < 10 then [digit_char n] else print_u (n div 10) @ [digit_char (n mod 10)])"
    by (rule print_u.simps)+
  show ?case
  proof (cases "m < 10")
    case True
    with 1 m n show ?thesis
      using digit_char_inj [of m n] by (auto simp: print_u_not_Nil split: if_splits)
  next
    case False
    with 1(2) m n have big: "\<not> n < 10" by (auto simp: print_u_not_Nil split: if_splits)
    with False 1(2) m n have "print_u (m div 10) = print_u (n div 10)"
        "digit_char (m mod 10) = digit_char (n mod 10)" by simp_all
    then have "m div 10 = n div 10" "m mod 10 = n mod 10"
      using 1(1) False digit_char_inj [of "m mod 10" "n mod 10"] by simp_all
    then show ?thesis by (metis mult_div_mod_eq)
  qed
qed

lemma print_u_length: "n < 1000 \<Longrightarrow> length (print_u n) \<le> 3"
proof -
  have one: "length (print_u k) \<le> 1" if "k < 10" for k
    using that by (subst print_u.simps) simp
  have two: "length (print_u k) \<le> 2" if "k < 100" for k
    using that one [of "k div 10"] by (subst print_u.simps) auto
  show "n < 1000 \<Longrightarrow> length (print_u n) \<le> 3"
    using two [of "n div 10"] by (subst print_u.simps) auto
qed

lemma dot_split:
  assumes "CHR ''.'' \<notin> set a" and "CHR ''.'' \<notin> set b" and "a @ CHR ''.'' # x = b @ CHR ''.'' # y"
  shows "a = b \<and> x = y"
  using assms
proof (induction a arbitrary: b)
  case Nil
  then show ?case by (cases b) auto
next
  case (Cons c a)
  then show ?case by (cases b) auto
qed

lemma ip_to_string_full:
  "ip_to_string ip = print_u (unat (byte_of_ip ip 0)) @ CHR ''.'' # print_u (unat (byte_of_ip ip 1))
     @ CHR ''.'' # print_u (unat (byte_of_ip ip 2)) @ CHR ''.'' # print_u (unat (byte_of_ip ip 3))"
proof -
  have "length (print_u (unat (byte_of_ip ip i))) \<le> 3" for i
    using unat_u8_less [of "byte_of_ip ip i"] by (intro print_u_length) simp
  from this [of 0] this [of 1] this [of 2] this [of 3] show ?thesis
    by (simp add: ip_to_string_def STRLEN_IP_def)
qed

lemma bytes_of_ip_eq:
  assumes "\<And>i. i < 4 \<Longrightarrow> byte_of_ip a i = byte_of_ip b i"
  shows "a = b"
proof (rule bit_word_eqI)
  fix n assume "n < LENGTH(32)"
  then have n: "n div 8 < 4" "n = 8 * (n div 8) + n mod 8" "n mod 8 < 8" by auto
  have "bit (byte_of_ip x (n div 8)) (n mod 8) = bit x n" for x :: addr_ip
    using n(3) by (simp add: byte_of_ip_def bit_simps flip: n(2))
  then show "bit a n = bit b n" using assms n(1) by metis
qed

lemma ip_to_string_inj: "ip_to_string a = ip_to_string b \<Longrightarrow> a = b"
proof (rule bytes_of_ip_eq)
  fix i :: nat
  assume eq: "ip_to_string a = ip_to_string b" and i: "i < 4"
  let ?p = "\<lambda>x i. print_u (unat (byte_of_ip x i))"
  have "?p a 0 = ?p b 0 \<and> ?p a 1 @ CHR ''.'' # ?p a 2 @ CHR ''.'' # ?p a 3
      = ?p b 1 @ CHR ''.'' # ?p b 2 @ CHR ''.'' # ?p b 3"
    using eq unfolding ip_to_string_full by (intro dot_split print_u_not_dot) simp
  moreover from this have "?p a 1 = ?p b 1 \<and> ?p a 2 @ CHR ''.'' # ?p a 3
      = ?p b 2 @ CHR ''.'' # ?p b 3"
    by (intro dot_split print_u_not_dot) simp
  moreover from this have "?p a 2 = ?p b 2 \<and> ?p a 3 = ?p b 3"
    by (intro dot_split print_u_not_dot) simp
  ultimately have "\<forall>j\<in>{0, 1, 2, 3}. unat (byte_of_ip a j) = unat (byte_of_ip b j)"
    using print_u_inj by blast
  then show "byte_of_ip a i = byte_of_ip b i"
    using i by (auto simp: word_unat_eq_iff less_Suc_eq numeral_eq_Suc)
qed

lemma print_octet_inj: "print_octet a = print_octet b \<Longrightarrow> a = b"
proof -
  assume eq: "print_octet a = print_octet b"
  have hi: "unat (drop_bit 4 x) < 16" and lo: "unat (0x0F AND x) < 16" for x :: byte
  proof -
    have "unat x < 256" by (rule unat_u8_less)
    then show "unat (drop_bit 4 x) < 16"
      by (simp only: unsigned_drop_bit_eq) (simp add: drop_bit_eq_div take_bit_eq_mod)
    have low: "0x0F AND x = take_bit 4 x"
      by (simp add: take_bit_eq_mask mask_eq_exp_minus_1 and.commute)
    show "unat (0x0F AND x) < 16"
      unfolding low unsigned_take_bit_eq by (simp add: take_bit_eq_mod)
  qed
  have "drop_bit 4 a = drop_bit 4 b" "0x0F AND a = 0x0F AND b"
    using eq digit_char_inj [OF hi hi] digit_char_inj [OF lo lo]
    by (auto simp: print_octet_def word_unat_eq_iff)
  moreover have "x = push_bit 4 (drop_bit 4 x) + (0x0F AND x)" for x :: byte
    using bits_ident [of 4 x] by (simp add: take_bit_eq_mask mask_eq_exp_minus_1 and.commute)
  ultimately show ?thesis by metis
qed

lemma mac_to_string_inj: "mac_to_string a = mac_to_string b \<Longrightarrow> a = b"
proof -
  assume eq: "mac_to_string a = mac_to_string b"
  have "print_octet (octet0 a) = print_octet (octet0 b)"
    "print_octet (octet1 a) = print_octet (octet1 b)"
    "print_octet (octet2 a) = print_octet (octet2 b)"
    "print_octet (octet3 a) = print_octet (octet3 b)"
    "print_octet (octet4 a) = print_octet (octet4 b)"
    "print_octet (octet5 a) = print_octet (octet5 b)"
    using eq by (simp_all add: mac_to_string_def STRLEN_MAC_def print_octet_def)
  then show "a = b" using print_octet_inj by (cases a; cases b) auto
qed

end
