(* ===== verification/LwMem.thy ===== *)
theory LwMem
  imports Prelude
begin

text \<open>
  The memory manager of the TCP stack, \<open>lwtcp/mem.c\<close>: one array \<open>ram\<close> in which every
  block begins with a \<open>struct mem\<close> that links it to its neighbours.  The state holds
  the block headers by their offset in \<open>ram\<close>, the pointer \<open>lfree\<close> (as an offset) and
  the semaphore; the bytes of the blocks belong to the callers.  \<open>mem_size_t\<close> is 32 bits
  wide because \<open>MEM_SIZE\<close> exceeds 64000, \<open>sizeof\<close> is 64 bits wide, and the arithmetic
  is done at these widths.  The assertions (\<open>ASSERT\<close>) are compiled out and the statistics
  are not kept.

  The theorems show that the blocks tile the array in every state that callers can
  reach, that no two allocations overlap, that neighbouring free blocks are always
  merged, and that all memory comes back once every allocation is freed.
\<close>

section \<open>Blocks\<close>

definition MEM_ALIGNMENT :: u32 where "MEM_ALIGNMENT = 4"
definition MEM_SIZE :: u32 where "MEM_SIZE = 5120000"
definition MIN_SIZE :: u64 where "MIN_SIZE = 12"

definition MEM_ALIGN_SIZE :: "u64 \<Rightarrow> u64" where
  "MEM_ALIGN_SIZE sz =
     sz + (if sz mod ucast MEM_ALIGNMENT = 0 then 0
           else ucast MEM_ALIGNMENT - sz mod ucast MEM_ALIGNMENT)"

definition SIZEOF_STRUCT_MEM :: u64 where "SIZEOF_STRUCT_MEM = MEM_ALIGN_SIZE 12"

record mem =
  mem_next :: u32
  mem_prev :: u32
  mem_used :: bool

record mem_heap =
  ram :: "u32 \<Rightarrow> mem option"
  lfree :: u32
  mem_sem :: bool

text \<open>
  A header is read and written through its offset.  Offsets beyond \<open>ram_end\<close> are outside
  the array; where no header was written the bytes are somebody's data.
\<close>

definition hdr :: "mem_heap \<Rightarrow> u32 \<Rightarrow> mem result" where
  "hdr h a = need (a \<le> MEM_SIZE) OutOfBounds
     (case ram h a of None \<Rightarrow> Inl Uninit | Some m \<Rightarrow> Inr m)"

definition set_hdr :: "u32 \<Rightarrow> (mem \<Rightarrow> mem) \<Rightarrow> mem_heap \<Rightarrow> mem_heap result" where
  "set_hdr a f h = bindr (hdr h a) (\<lambda>m. Inr (h\<lparr>ram := (ram h)(a \<mapsto> f m)\<rparr>))"

definition new_hdr :: "u32 \<Rightarrow> mem \<Rightarrow> mem_heap \<Rightarrow> mem_heap result" where
  "new_hdr a m h = need (a \<le> MEM_SIZE) OutOfBounds (Inr (h\<lparr>ram := (ram h)(a \<mapsto> m)\<rparr>))"

definition mem_wait :: "mem_heap \<Rightarrow> mem_heap result" where
  "mem_wait h = need (mem_sem h) Deadlock (Inr (h\<lparr>mem_sem := False\<rparr>))"

definition mem_signal :: "mem_heap \<Rightarrow> mem_heap" where
  "mem_signal h = h\<lparr>mem_sem := True\<rparr>"

section \<open>Operations\<close>

definition plug_holes_forward :: "u32 \<Rightarrow> mem_heap \<Rightarrow> mem_heap result" where
  "plug_holes_forward a h =
     bindr (hdr h a) (\<lambda>m.
     bindr (hdr h (mem_next m)) (\<lambda>nm.
       if a \<noteq> mem_next m \<and> \<not> mem_used nm \<and> mem_next m \<noteq> MEM_SIZE then
         let h = (if lfree h = mem_next m then h\<lparr>lfree := a\<rparr> else h) in
         bindr (set_hdr a (mem_next_update (\<lambda>_. mem_next nm)) h)
               (set_hdr (mem_next nm) (mem_prev_update (\<lambda>_. a)))
       else Inr h))"

definition plug_holes_backward :: "u32 \<Rightarrow> mem_heap \<Rightarrow> mem_heap result" where
  "plug_holes_backward a h =
     bindr (hdr h a) (\<lambda>m.
     bindr (hdr h (mem_prev m)) (\<lambda>pm.
       if mem_prev m \<noteq> a \<and> \<not> mem_used pm then
         let h = (if lfree h = a then h\<lparr>lfree := mem_prev m\<rparr> else h) in
         bindr (set_hdr (mem_prev m) (mem_next_update (\<lambda>_. mem_next m)) h)
               (set_hdr (mem_next m) (mem_prev_update (\<lambda>_. mem_prev m)))
       else Inr h))"

definition plug_holes :: "u32 \<Rightarrow> mem_heap \<Rightarrow> mem_heap result" where
  "plug_holes a h = bindr (plug_holes_forward a h) (plug_holes_backward a)"

definition mem_init :: mem_heap where
  "mem_init =
     \<lparr>ram = (\<lambda>_. None)
        (0 \<mapsto> \<lparr>mem_next = MEM_SIZE, mem_prev = 0, mem_used = False\<rparr>,
         MEM_SIZE \<mapsto> \<lparr>mem_next = MEM_SIZE, mem_prev = MEM_SIZE, mem_used = True\<rparr>),
      lfree = 0, mem_sem = True\<rparr>"

definition adjust_size :: "u32 \<Rightarrow> u32" where
  "adjust_size sz =
     (if sz mod MEM_ALIGNMENT \<noteq> 0
      then ucast (ucast sz + (ucast MEM_ALIGNMENT
             - (ucast sz + SIZEOF_STRUCT_MEM) mod ucast MEM_ALIGNMENT) :: u64)
      else sz)"

definition mem_fits :: "u32 \<Rightarrow> u32 \<Rightarrow> mem \<Rightarrow> bool" where
  "mem_fits sz a m \<longleftrightarrow>
     \<not> mem_used m \<and> ucast (mem_next m) - (ucast a + SIZEOF_STRUCT_MEM) \<ge> ucast sz + SIZEOF_STRUCT_MEM"

lemma above_less: "(a :: u32) < b \<Longrightarrow> 4294967296 - unat b < 4294967296 - unat a"
  using unat_u32_less [of b] by (simp add: word_less_nat_alt)

text \<open>
  The search of \<open>mem_malloc\<close> for a block that fits.  Each block must link to a higher
  offset, which is what bounds the loop; \<open>mem_search_ends\<close> below shows that it always
  does.
\<close>

function mem_search :: "mem_heap \<Rightarrow> u32 \<Rightarrow> u32 \<Rightarrow> u32 option result" where
  "mem_search h sz a =
     (if a < MEM_SIZE then
        (case hdr h a of
           Inl e \<Rightarrow> Inl e
         | Inr m \<Rightarrow>
             if mem_fits sz a m then Inr (Some a)
             else if a < mem_next m then mem_search h sz (mem_next m)
             else Inl OutOfFuel)
      else Inr None)"
  by pat_completeness auto
termination
  by (relation "measure (\<lambda>(h, sz, a). 4294967296 - unat a)") (auto intro: above_less)

declare mem_search.simps [simp del]

function next_free :: "mem_heap \<Rightarrow> u32 \<Rightarrow> u32 result" where
  "next_free h a =
     (case hdr h a of
        Inl e \<Rightarrow> Inl e
      | Inr m \<Rightarrow>
          if mem_used m \<and> a \<noteq> MEM_SIZE then
            if a < mem_next m then next_free h (mem_next m) else Inl OutOfFuel
          else Inr a)"
  by pat_completeness auto
termination
  by (relation "measure (\<lambda>(h, a). 4294967296 - unat a)") (auto intro: above_less)

declare next_free.simps [simp del]

definition split_block :: "u32 \<Rightarrow> u32 \<Rightarrow> bool \<Rightarrow> mem_heap \<Rightarrow> mem_heap result" where
  "split_block a b u h =
     bindr (hdr h a) (\<lambda>m.
     bindr (new_hdr b \<lparr>mem_next = mem_next m, mem_prev = a, mem_used = False\<rparr> h) (\<lambda>h.
     bindr (set_hdr a (\<lambda>m. m\<lparr>mem_next := b, mem_used := u\<rparr>) h) (\<lambda>h.
       if mem_next m \<noteq> MEM_SIZE then set_hdr (mem_next m) (mem_prev_update (\<lambda>_. b)) h
       else Inr h)))"

definition mem_malloc :: "u32 \<Rightarrow> mem_heap \<Rightarrow> (u32 option \<times> mem_heap) result" where
  "mem_malloc sz h =
     (if sz = 0 then Inr (None, h)
      else let sz = adjust_size sz in
        if sz > MEM_SIZE then Inr (None, h)
        else
          bindr (mem_wait h) (\<lambda>h.
          bindr (mem_search h sz (lfree h)) (\<lambda>r.
            case r of
              None \<Rightarrow> Inr (None, mem_signal h)
            | Some a \<Rightarrow>
                bindr (split_block a (ucast (ucast a + SIZEOF_STRUCT_MEM + ucast sz :: u64)) True h) (\<lambda>h.
                bindr (if a = lfree h then bindr (next_free h (lfree h)) (\<lambda>f. Inr (h\<lparr>lfree := f\<rparr>))
                       else Inr h) (\<lambda>h.
                  Inr (Some (ucast (ucast a + SIZEOF_STRUCT_MEM :: u64)), mem_signal h))))))"

text \<open>
  A pointer that is given back is its distance from \<open>ram\<close>, \<open>None\<close> the null pointer.  On a
  pointer outside the array \<open>mem_free\<close> returns without signalling the semaphore.
\<close>

definition mem_free :: "int option \<Rightarrow> mem_heap \<Rightarrow> mem_heap result" where
  "mem_free rmem h =
     (case rmem of
        None \<Rightarrow> Inr h
      | Some p \<Rightarrow>
          bindr (mem_wait h) (\<lambda>h.
            if p < 0 \<or> p \<ge> uint MEM_SIZE then Inr h
            else
              need (p \<ge> 12) OutOfBounds (
              let a = word_of_int (p - uint SIZEOF_STRUCT_MEM) in
              bindr (set_hdr a (mem_used_update (\<lambda>_. False)) h) (\<lambda>h.
              bindr (plug_holes a (if a < lfree h then h\<lparr>lfree := a\<rparr> else h)) (\<lambda>h.
                Inr (mem_signal h))))))"

definition mem_realloc :: "int \<Rightarrow> u32 \<Rightarrow> mem_heap \<Rightarrow> mem_heap result" where
  "mem_realloc p newsize h =
     bindr (mem_wait h) (\<lambda>h.
       if p < 0 \<or> p \<ge> uint MEM_SIZE then Inr h
       else
         need (p \<ge> 12) OutOfBounds (
         let a = word_of_int (p - uint SIZEOF_STRUCT_MEM) in
         bindr (hdr h a) (\<lambda>m.
         let sz = ucast (ucast (mem_next m - a) - SIZEOF_STRUCT_MEM :: u64) :: u32 in
         bindr (if ucast newsize + SIZEOF_STRUCT_MEM + MIN_SIZE < ucast sz then
                  let b = ucast (ucast a + SIZEOF_STRUCT_MEM + ucast newsize :: u64) in
                  bindr (split_block a b (mem_used m) h) (plug_holes b)
                else Inr h) (\<lambda>h.
           Inr (mem_signal h)))))"

section \<open>The blocks tile the array\<close>

text \<open>
  \<open>seg r p a bs q b\<close>: from offset \<open>a\<close>, whose predecessor is \<open>p\<close>, the headers in \<open>r\<close> lead
  through the blocks \<open>bs\<close> (offset and used flag) to the offset \<open>b\<close>, whose predecessor is \<open>q\<close>.
\<close>

fun seg :: "(u32 \<Rightarrow> mem option) \<Rightarrow> u32 \<Rightarrow> u32 \<Rightarrow> (u32 \<times> bool) list \<Rightarrow> u32 \<Rightarrow> u32 \<Rightarrow> bool" where
  "seg r p a [] q b = (p = q \<and> a = b)"
| "seg r p a ((c, u) # bs) q b =
     (a = c \<and> (\<exists>n. r a = Some \<lparr>mem_next = n, mem_prev = p, mem_used = u\<rparr>
        \<and> unat a + 12 \<le> unat n \<and> n \<le> MEM_SIZE \<and> seg r a n bs q b))"

fun coalesced :: "(u32 \<times> bool) list \<Rightarrow> bool" where
  "coalesced ((a, u) # (b, v) # bs) = ((u \<or> v) \<and> coalesced ((b, v) # bs))"
| "coalesced bs = True"

definition tiled :: "mem_heap \<Rightarrow> (u32 \<times> bool) list \<Rightarrow> bool" where
  "tiled h bs \<longleftrightarrow>
     (\<exists>q m. seg (ram h) 0 0 bs q MEM_SIZE \<and> ram h MEM_SIZE = Some m \<and> mem_used m)"

text \<open>The last of the blocks is free: \<open>mem_malloc\<close> always leaves a free block behind the one it takes.\<close>

definition hole_before :: "(u32 \<times> bool) list \<Rightarrow> bool" where
  "hole_before xs \<longleftrightarrow> xs \<noteq> [] \<and> \<not> snd (last xs)"

definition heap_inv :: "mem_heap \<Rightarrow> (u32 \<times> bool) list \<Rightarrow> bool" where
  "heap_inv h bs \<longleftrightarrow>
     tiled h bs \<and> coalesced bs \<and> (lfree h = MEM_SIZE \<or> (lfree h, False) \<in> set bs)
     \<and> ((\<forall>u\<in>snd ` set bs. \<not> u) \<longrightarrow> lfree h = 0) \<and> hole_before bs \<and> mem_sem h"

lemma seg_append: "seg r p a (xs @ ys) q b \<longleftrightarrow> (\<exists>q' b'. seg r p a xs q' b' \<and> seg r q' b' ys q b)"
  by (induction r p a xs q b rule: seg.induct) auto

lemma seg_le: "seg r p a bs q b \<Longrightarrow> a \<le> b \<and> (\<forall>c\<in>fst ` set bs. a \<le> c \<and> unat c + 12 \<le> unat b)"
proof (induction r p a bs q b rule: seg.induct)
  case (2 r p a c u bs q b)
  then obtain n where "unat a + 12 \<le> unat n" "n \<le> b" "a = c"
      "\<forall>c\<in>fst ` set bs. n \<le> c \<and> unat c + 12 \<le> unat b" by auto
  then show ?case by (fastforce simp: word_le_nat_alt)
qed simp

lemma seg_distinct: "seg r p a bs q b \<Longrightarrow> distinct (map fst bs)"
proof (induction r p a bs q b rule: seg.induct)
  case (2 r p a c u bs q b)
  then obtain n where n: "unat a + 12 \<le> unat n" "a = c" "seg r a n bs q b" by auto
  with seg_le [OF n(3)] have "c \<notin> fst ` set bs" by (fastforce simp: word_le_nat_alt)
  with 2 n show ?case by auto
qed simp

lemma seg_upd_other: "c \<notin> fst ` set bs \<Longrightarrow> seg (r(c := x)) p a bs q b = seg r p a bs q b"
  by (induction r p a bs q b rule: seg.induct) auto

lemma seg_cong: "(\<And>c. c \<in> fst ` set bs \<Longrightarrow> r' c = r c) \<Longrightarrow> seg r' p a bs q b = seg r p a bs q b"
  by (induction r p a bs q b rule: seg.induct) auto

definition nxt :: "(u32 \<times> bool) list \<Rightarrow> u32" where
  "nxt bs = (case bs of [] \<Rightarrow> MEM_SIZE | (c, u) # _ \<Rightarrow> c)"

lemma nxt_simps [simp]: "nxt [] = MEM_SIZE" "nxt ((c, u) # bs) = c"
  by (simp_all add: nxt_def)

lemma seg_nxt: "seg r p a bs q MEM_SIZE \<Longrightarrow> a = nxt bs"
  by (cases bs) auto

lemma seg_nxt_end: "seg r p a bs q MEM_SIZE \<Longrightarrow> a = MEM_SIZE \<longleftrightarrow> bs = []"
  by (cases bs) (auto simp: word_le_nat_alt)

lemma seg_set_prev:
  assumes "seg r p a ((c, u) # bs) q b" and "r a = Some m"
  shows "seg (r(a \<mapsto> m\<lparr>mem_prev := p'\<rparr>)) p' a ((c, u) # bs) q b"
proof -
  from assms obtain n where n: "m = \<lparr>mem_next = n, mem_prev = p, mem_used = u\<rparr>" "a = c"
    "unat a + 12 \<le> unat n" "n \<le> MEM_SIZE" "seg r a n bs q b" by auto
  have "a \<notin> fst ` set bs" using seg_le [OF n(5)] n(3) by (fastforce simp: word_le_nat_alt)
  then show ?thesis using n by (simp add: seg_upd_other)
qed

text \<open>The header of a block in the middle, and where it lies.\<close>

lemma tiled_block:
  assumes "tiled h (xs @ (a, u) # ys)"
  obtains p q m where "seg (ram h) 0 0 xs p a"
    "ram h a = Some \<lparr>mem_next = nxt ys, mem_prev = p, mem_used = u\<rparr>"
    "unat a + 12 \<le> unat (nxt ys)" "nxt ys \<le> MEM_SIZE" "seg (ram h) a (nxt ys) ys q MEM_SIZE"
    "ram h MEM_SIZE = Some m" "mem_used m" "a < MEM_SIZE" "a \<notin> fst ` set xs" "a \<notin> fst ` set ys"
proof -
  from assms obtain q m where q: "seg (ram h) 0 0 (xs @ (a, u) # ys) q MEM_SIZE"
    "ram h MEM_SIZE = Some m" "mem_used m" by (auto simp: tiled_def)
  then obtain p b where p: "seg (ram h) 0 0 xs p b" "seg (ram h) p b ((a, u) # ys) q MEM_SIZE"
    by (auto simp: seg_append)
  then obtain n where n: "b = a" "ram h a = Some \<lparr>mem_next = n, mem_prev = p, mem_used = u\<rparr>"
    "unat a + 12 \<le> unat n" "n \<le> MEM_SIZE" "seg (ram h) a n ys q MEM_SIZE" by auto
  have eq: "n = nxt ys" by (rule seg_nxt [OF n(5)])
  have lt: "a < MEM_SIZE" using n(3,4) by (auto simp: word_less_nat_alt word_le_nat_alt)
  have d: "distinct (map fst (xs @ (a, u) # ys))" by (rule seg_distinct [OF q(1)])
  show thesis
    by (rule that [of p q m]) (use p n q eq lt d in \<open>auto simp: image_iff\<close>)
qed

lemma seg_last: "seg r p0 a0 (xs @ [(c, u)]) p a \<Longrightarrow> p = c"
  by (auto simp: seg_append)

lemma tiled_hdr: "tiled h (xs @ (a, u) # ys) \<Longrightarrow>
    \<exists>p. hdr h a = Inr \<lparr>mem_next = nxt ys, mem_prev = p, mem_used = u\<rparr>
      \<and> p = (if xs = [] then a else fst (last xs)) \<and> (xs = [] \<longrightarrow> a = 0)"
proof -
  assume "tiled h (xs @ (a, u) # ys)"
  then obtain p q m where p: "seg (ram h) 0 0 xs p a"
    "ram h a = Some \<lparr>mem_next = nxt ys, mem_prev = p, mem_used = u\<rparr>" "a < MEM_SIZE"
    by (rule tiled_block)
  have "p = (if xs = [] then a else fst (last xs))"
    using p(1) by (cases xs rule: rev_cases) (auto simp: seg_append)
  moreover have "xs = [] \<longrightarrow> a = 0" using p(1) by auto
  ultimately show ?thesis using p(2,3) by (simp add: hdr_def order.strict_implies_order)
qed

lemma tiled_end: "tiled h bs \<Longrightarrow> \<exists>m. hdr h MEM_SIZE = Inr m \<and> mem_used m"
  by (auto simp: tiled_def hdr_def)

lemma tiled_simps [simp]: "tiled (h\<lparr>lfree := f\<rparr>) bs = tiled h bs" "tiled (h\<lparr>mem_sem := z\<rparr>) bs = tiled h bs"
  by (simp_all add: tiled_def)

lemma hdr_ram: "hdr (h\<lparr>ram := r\<rparr>) a = need (a \<le> MEM_SIZE) OutOfBounds
    (case r a of None \<Rightarrow> Inl Uninit | Some m \<Rightarrow> Inr m)"
  by (simp add: hdr_def)

text \<open>Setting the back link of whatever follows: a block, or the end marker.\<close>

lemma seg_relink:
  assumes "seg r p n ys q MEM_SIZE" and "r MEM_SIZE = Some m" and "mem_used m"
  obtains m' q' where "r n = Some m'" "seg (r(n \<mapsto> m'\<lparr>mem_prev := p'\<rparr>)) p' n ys q' MEM_SIZE"
    "\<exists>m. (r(n \<mapsto> m'\<lparr>mem_prev := p'\<rparr>)) MEM_SIZE = Some m \<and> mem_used m"
proof (cases ys)
  case Nil
  with assms show thesis by (intro that [of m p']) auto
next
  case (Cons c zs)
  obtain b u where c: "c = (b, u)" by (cases c)
  with Cons assms(1) obtain m' where m': "r n = Some m'" by auto
  have "n \<noteq> MEM_SIZE" using seg_nxt_end [OF assms(1)] Cons by simp
  moreover have "seg (r(n \<mapsto> m'\<lparr>mem_prev := p'\<rparr>)) p' n ys q MEM_SIZE"
    using assms(1) m' unfolding Cons c by (rule seg_set_prev)
  ultimately show thesis using m' assms by (intro that [of m' q]) auto
qed

lemma merge_tiled:
  assumes t: "tiled h (xs @ (a, u) # (c, v) # zs)"
  shows "\<exists>r. bindr (set_hdr a (mem_next_update (\<lambda>_. nxt zs)) h) (set_hdr (nxt zs) (mem_prev_update (\<lambda>_. a)))
       = Inr (h\<lparr>ram := r\<rparr>) \<and> tiled (h\<lparr>ram := r\<rparr>) (xs @ (a, u) # zs)"
proof -
  obtain p q m where a: "seg (ram h) 0 0 xs p a"
    "ram h a = Some \<lparr>mem_next = c, mem_prev = p, mem_used = u\<rparr>"
    "unat a + 12 \<le> unat c" "seg (ram h) a c ((c, v) # zs) q MEM_SIZE"
    "ram h MEM_SIZE = Some m" "mem_used m" "a < MEM_SIZE" "a \<notin> fst ` set xs" "a \<notin> fst ` set zs"
    using tiled_block [OF t] by simp metis
  have n: "unat c + 12 \<le> unat (nxt zs)" "nxt zs \<le> MEM_SIZE" "seg (ram h) c (nxt zs) zs q MEM_SIZE"
    using a(4) seg_nxt by fastforce+
  let ?r1 = "(ram h)(a \<mapsto> \<lparr>mem_next = nxt zs, mem_prev = p, mem_used = u\<rparr>)"
  have "seg ?r1 c (nxt zs) zs q MEM_SIZE" "?r1 MEM_SIZE = Some m"
    using n(3) a(5,7,9) by (auto simp: seg_upd_other)
  then obtain m' q' where r: "?r1 (nxt zs) = Some m'"
      "seg (?r1(nxt zs \<mapsto> m'\<lparr>mem_prev := a\<rparr>)) a (nxt zs) zs q' MEM_SIZE"
      "\<exists>m. (?r1(nxt zs \<mapsto> m'\<lparr>mem_prev := a\<rparr>)) MEM_SIZE = Some m \<and> mem_used m"
    using seg_relink [OF _ _ a(6)] by metis
  let ?r2 = "?r1(nxt zs \<mapsto> m'\<lparr>mem_prev := a\<rparr>)"
  have neq: "nxt zs \<noteq> a" using a(3) n(1) by auto
  have "nxt zs \<notin> fst ` set xs" using seg_le [OF a(1)] a(3) n(1) by fastforce
  then have "seg ?r2 0 0 xs p a" using a(1,8) by (simp add: seg_upd_other)
  moreover have "seg ?r2 p a ((a, u) # zs) q' MEM_SIZE"
    using r(2) neq a(3) n(1,2) by auto
  ultimately have "tiled (h\<lparr>ram := ?r2\<rparr>) (xs @ (a, u) # zs)"
    using r(3) by (auto simp: tiled_def seg_append)
  moreover have "bindr (set_hdr a (mem_next_update (\<lambda>_. nxt zs)) h) (set_hdr (nxt zs) (mem_prev_update (\<lambda>_. a)))
       = Inr (h\<lparr>ram := ?r2\<rparr>)"
    using a(2,7) r(1) n(2) neq by (simp add: set_hdr_def hdr_def order.strict_implies_order)
  ultimately show ?thesis by blast
qed

lemma split_tiled:
  assumes t: "tiled h (xs @ (a, u) # ys)" and b: "unat a + 12 \<le> unat b" "unat b + 12 \<le> unat (nxt ys)"
  shows "\<exists>r. split_block a b v h = Inr (h\<lparr>ram := r\<rparr>)
           \<and> tiled (h\<lparr>ram := r\<rparr>) (xs @ (a, v) # (b, False) # ys)"
proof -
  obtain p q m where a: "seg (ram h) 0 0 xs p a"
    "ram h a = Some \<lparr>mem_next = nxt ys, mem_prev = p, mem_used = u\<rparr>" "nxt ys \<le> MEM_SIZE"
    "seg (ram h) a (nxt ys) ys q MEM_SIZE" "ram h MEM_SIZE = Some m" "mem_used m" "a < MEM_SIZE"
    "a \<notin> fst ` set xs" "a \<notin> fst ` set ys"
    using tiled_block [OF t] by metis
  have lt: "b < MEM_SIZE" "b \<noteq> a" "b \<notin> fst ` set xs" "b \<notin> fst ` set ys" "nxt ys \<noteq> b" "nxt ys \<noteq> a"
    "nxt ys \<notin> fst ` set xs"
    using a(3) b seg_le [OF a(1)] seg_le [OF a(4)]
    by (fastforce simp: word_less_nat_alt word_le_nat_alt)+
  let ?r1 = "(ram h)(b \<mapsto> \<lparr>mem_next = nxt ys, mem_prev = a, mem_used = False\<rparr>,
    a \<mapsto> \<lparr>mem_next = b, mem_prev = p, mem_used = v\<rparr>)"
  obtain r2 q' where r2: "seg r2 b (nxt ys) ys q' MEM_SIZE" "\<exists>m. r2 MEM_SIZE = Some m \<and> mem_used m"
      "\<forall>c. c \<noteq> nxt ys \<longrightarrow> r2 c = ?r1 c" "split_block a b v h = Inr (h\<lparr>ram := r2\<rparr>)"
  proof (cases ys)
    case Nil
    show thesis
      by (rule that [of ?r1 b])
         (use Nil a lt in \<open>auto simp: split_block_def set_hdr_def hdr_def new_hdr_def need_def\<close>)
  next
    case (Cons c zs)
    have s: "seg ?r1 a (nxt ys) ys q MEM_SIZE" "?r1 MEM_SIZE = Some m"
      using a lt by (auto simp: seg_upd_other)
    then obtain m' q' where r: "?r1 (nxt ys) = Some m'"
        "seg (?r1(nxt ys \<mapsto> m'\<lparr>mem_prev := b\<rparr>)) b (nxt ys) ys q' MEM_SIZE"
        "\<exists>m. (?r1(nxt ys \<mapsto> m'\<lparr>mem_prev := b\<rparr>)) MEM_SIZE = Some m \<and> mem_used m"
      using seg_relink [OF s(1,2) a(6)] by metis
    have "nxt ys \<noteq> MEM_SIZE" using seg_nxt_end [OF a(4)] Cons by simp
    then show thesis
      by (intro that [of "?r1(nxt ys \<mapsto> m'\<lparr>mem_prev := b\<rparr>)" q'])
         (use r a lt in \<open>auto simp: split_block_def set_hdr_def hdr_def new_hdr_def need_def\<close>)
  qed
  have "r2 c = ram h c" if "c \<in> fst ` set xs" for c
    using that a(8) lt(3,7) r2(3) by (metis fun_upd_other)
  then have "seg r2 0 0 xs p a" using a(1) seg_cong [of xs r2 "ram h"] by blast
  moreover have "seg r2 p a ((a, v) # (b, False) # ys) q' MEM_SIZE"
    using r2(1,3) lt a(3) b by (auto simp: word_less_nat_alt word_le_nat_alt)
  ultimately have "tiled (h\<lparr>ram := r2\<rparr>) (xs @ (a, v) # (b, False) # ys)"
    using r2(2) by (auto simp: tiled_def seg_append)
  with r2(4) show ?thesis by blast
qed

section \<open>Merging\<close>

text \<open>What \<open>plug_holes\<close> does to the list of blocks around the free block at \<open>a\<close>.\<close>

definition hole_after :: "(u32 \<times> bool) list \<Rightarrow> bool" where
  "hole_after ys \<longleftrightarrow> ys \<noteq> [] \<and> \<not> snd (hd ys)"

definition absorb :: "(u32 \<times> bool) list \<Rightarrow> (u32 \<times> bool) list" where
  "absorb ys = (if hole_after ys then tl ys else ys)"

definition join :: "(u32 \<times> bool) list \<Rightarrow> u32 \<Rightarrow> (u32 \<times> bool) list" where
  "join xs a = (if hole_before xs then xs else xs @ [(a, False)])"

lemma plug_holes_forward_tiled:
  assumes t: "tiled h (xs @ (a, False) # ys)"
  shows "\<exists>r. plug_holes_forward a h
        = Inr (h\<lparr>ram := r, lfree := (if hole_after ys \<and> lfree h = nxt ys then a else lfree h)\<rparr>)
      \<and> tiled (h\<lparr>ram := r\<rparr>) (xs @ (a, False) # absorb ys)"
proof -
  obtain p where p: "hdr h a = Inr \<lparr>mem_next = nxt ys, mem_prev = p, mem_used = False\<rparr>"
    using tiled_hdr [OF t] by blast
  have lt: "a < nxt ys" using t by (rule tiled_block) (simp add: word_less_nat_alt)
  show ?thesis
  proof (cases ys)
    case Nil
    obtain m where "hdr h MEM_SIZE = Inr m" "mem_used m" using tiled_end [OF t] by blast
    then have "plug_holes_forward a h = Inr (h\<lparr>ram := ram h, lfree := lfree h\<rparr>)"
      using p Nil by (simp add: plug_holes_forward_def)
    then show ?thesis using t Nil by (intro exI [of _ "ram h"]) (simp add: absorb_def hole_after_def)
  next
    case (Cons y zs)
    obtain c v where y: "y = (c, v)" by (cases y)
    have t': "tiled h ((xs @ [(a, False)]) @ (c, v) # zs)" using t Cons y by simp
    obtain q where q: "hdr h c = Inr \<lparr>mem_next = nxt zs, mem_prev = q, mem_used = v\<rparr>"
      using tiled_hdr [OF t'] by blast
    have c: "c \<noteq> MEM_SIZE" using t' by (rule tiled_block) auto
    show ?thesis
    proof (cases v)
      case True
      then have "plug_holes_forward a h = Inr (h\<lparr>ram := ram h, lfree := lfree h\<rparr>)"
        using p q Cons y by (simp add: plug_holes_forward_def)
      then show ?thesis
        using t Cons y True by (intro exI [of _ "ram h"]) (simp add: absorb_def hole_after_def)
    next
      case False
      let ?h = "if lfree h = c then h\<lparr>lfree := a\<rparr> else h"
      have "tiled ?h (xs @ (a, False) # (c, v) # zs)" using t Cons y by simp
      from merge_tiled [OF this] obtain r where r:
        "bindr (set_hdr a (mem_next_update (\<lambda>_. nxt zs)) ?h) (set_hdr (nxt zs) (mem_prev_update (\<lambda>_. a)))
           = Inr (?h\<lparr>ram := r\<rparr>)" "tiled (?h\<lparr>ram := r\<rparr>) (xs @ (a, False) # zs)" by blast
      have "plug_holes_forward a h = Inr (?h\<lparr>ram := r\<rparr>)"
        unfolding plug_holes_forward_def p q Let_def bindr.simps mem.simps Cons y nxt_simps
        using lt Cons y False c r(1) by simp
      then show ?thesis
        using r(2) Cons y False
        by (intro exI [of _ r]) (auto simp: absorb_def hole_after_def tiled_def)
    qed
  qed
qed

lemma plug_holes_backward_tiled:
  assumes t: "tiled h (xs @ (a, False) # ys)"
  shows "\<exists>r. plug_holes_backward a h
        = Inr (h\<lparr>ram := r, lfree := (if hole_before xs \<and> lfree h = a then fst (last xs) else lfree h)\<rparr>)
      \<and> tiled (h\<lparr>ram := r\<rparr>) (join xs a @ ys)"
proof -
  obtain p where p: "hdr h a = Inr \<lparr>mem_next = nxt ys, mem_prev = p, mem_used = False\<rparr>"
      "p = (if xs = [] then a else fst (last xs))"
    using tiled_hdr [OF t] by blast
  show ?thesis
  proof (cases xs rule: rev_cases)
    case Nil
    then have "plug_holes_backward a h = Inr (h\<lparr>ram := ram h, lfree := lfree h\<rparr>)"
      using p by (simp add: plug_holes_backward_def)
    then show ?thesis using t Nil by (intro exI [of _ "ram h"]) (simp add: join_def hole_before_def)
  next
    case (snoc ws x)
    obtain c v where x: "x = (c, v)" by (cases x)
    have t': "tiled h (ws @ (c, v) # (a, False) # ys)" using t snoc x by simp
    obtain q where q: "hdr h c = Inr \<lparr>mem_next = a, mem_prev = q, mem_used = v\<rparr>"
      using tiled_hdr [OF t'] by auto
    have c: "c \<noteq> a" using t' by (rule tiled_block) auto
    show ?thesis
    proof (cases v)
      case True
      then have "plug_holes_backward a h = Inr (h\<lparr>ram := ram h, lfree := lfree h\<rparr>)"
        using p q snoc x by (simp add: plug_holes_backward_def)
      then show ?thesis
        using t snoc x True by (intro exI [of _ "ram h"]) (simp add: join_def hole_before_def)
    next
      case False
      let ?h = "if lfree h = a then h\<lparr>lfree := c\<rparr> else h"
      have "tiled ?h (ws @ (c, v) # (a, False) # ys)" using t' by simp
      from merge_tiled [OF this] obtain r where r:
        "bindr (set_hdr c (mem_next_update (\<lambda>_. nxt ys)) ?h) (set_hdr (nxt ys) (mem_prev_update (\<lambda>_. c)))
           = Inr (?h\<lparr>ram := r\<rparr>)" "tiled (?h\<lparr>ram := r\<rparr>) (ws @ (c, v) # ys)" by blast
      have "p = c" using p(2) snoc x by simp
      then have "plug_holes_backward a h = Inr (?h\<lparr>ram := r\<rparr>)"
        unfolding plug_holes_backward_def p(1) Let_def bindr.simps mem.simps
        using q c False r(1) by (cases "lfree h = a") simp_all
      then show ?thesis
        using r(2) snoc x False
        by (intro exI [of _ r]) (auto simp: join_def hole_before_def tiled_def)
    qed
  qed
qed

lemma plug_holes_tiled:
  assumes "tiled h (xs @ (a, False) # ys)"
  shows "\<exists>r. plug_holes a h
        = Inr (h\<lparr>ram := r, lfree := (let f = if hole_after ys \<and> lfree h = nxt ys then a else lfree h
                                    in if hole_before xs \<and> f = a then fst (last xs) else f)\<rparr>)
      \<and> tiled (h\<lparr>ram := r\<rparr>) (join xs a @ absorb ys)"
proof -
  let ?f = "if hole_after ys \<and> lfree h = nxt ys then a else lfree h"
  obtain r where r: "plug_holes_forward a h = Inr (h\<lparr>ram := r, lfree := ?f\<rparr>)"
      "tiled (h\<lparr>ram := r\<rparr>) (xs @ (a, False) # absorb ys)"
    using plug_holes_forward_tiled [OF assms] by blast
  then have "tiled (h\<lparr>ram := r, lfree := ?f\<rparr>) (xs @ (a, False) # absorb ys)" by (simp only: tiled_simps)
  from plug_holes_backward_tiled [OF this] r show ?thesis
    by (auto simp: plug_holes_def Let_def tiled_def)
qed

lemma plug_holes_after_used:
  assumes "tiled h (xs @ (a, False) # ys)" and "\<not> hole_before xs"
    and "f = (if hole_after ys \<and> lfree h = nxt ys then a else lfree h)"
  obtains r where "plug_holes a h = Inr (h\<lparr>ram := r, lfree := f\<rparr>)"
    "tiled (h\<lparr>ram := r\<rparr>) (xs @ (a, False) # absorb ys)"
  using plug_holes_tiled [OF assms(1)] assms(2,3) by (auto simp: Let_def join_def)

lemma coalesced_Cons: "coalesced (x # ys) \<longleftrightarrow> coalesced ys \<and> (ys \<noteq> [] \<longrightarrow> snd x \<or> snd (hd ys))"
  by (cases x; cases ys) (auto split: prod.splits)

lemma coalesced_append:
  "coalesced (xs @ ys) \<longleftrightarrow>
     coalesced xs \<and> coalesced ys \<and> (xs \<noteq> [] \<longrightarrow> ys \<noteq> [] \<longrightarrow> snd (last xs) \<or> snd (hd ys))"
  by (induction xs) (auto simp: coalesced_Cons)

lemma coalesced_absorb: "coalesced ys \<Longrightarrow> coalesced (absorb ys) \<and> \<not> hole_after (absorb ys)"
  by (cases ys) (auto simp: absorb_def hole_after_def coalesced_Cons)

lemma coalesced_join:
  "coalesced xs \<Longrightarrow> coalesced ys \<Longrightarrow> \<not> hole_after ys \<Longrightarrow> coalesced (join xs a @ ys)"
  by (auto simp: join_def hole_before_def hole_after_def coalesced_append coalesced_Cons)

lemma coalesced_all_free: "coalesced bs \<Longrightarrow> \<forall>u\<in>snd ` set bs. \<not> u \<Longrightarrow> length bs \<le> 1"
  by (cases bs rule: coalesced.cases) auto

section \<open>Arithmetic of the sizes\<close>

lemma MEM_SIZE_unat: "unat MEM_SIZE = 5120000"
  by (simp add: MEM_SIZE_def)

lemma SIZEOF_STRUCT_MEM_eq: "SIZEOF_STRUCT_MEM = 12"
  by (simp add: SIZEOF_STRUCT_MEM_def MEM_ALIGN_SIZE_def MEM_ALIGNMENT_def)

lemma unat_le_MEM_SIZE: "a \<le> MEM_SIZE \<Longrightarrow> unat a \<le> 5120000"
  using MEM_SIZE_unat by (simp add: word_le_nat_alt)

lemma unat_ucast_u32: "unat (ucast (a :: u64) :: u32) = unat a mod 4294967296"
  by (simp add: unsigned_ucast_eq take_bit_eq_mod)

lemma block_offset:
  assumes "unat a + k + unat sz < 4294967296" and "k < 4294967296"
  shows "unat (ucast (ucast (a :: u32) + of_nat k + ucast (sz :: u32) :: u64) :: u32) = unat a + k + unat sz"
proof -
  have "unat (ucast a + of_nat k + ucast sz :: u64) = unat a + k + unat sz"
    using assms by (simp add: unat_word_ariths unat_of_nat)
  then show ?thesis using assms by (simp add: unat_ucast_u32)
qed

lemma adjust_size_unat:
  assumes "sz \<le> 0xFFFFFFFC"
  shows "unat (adjust_size sz) = (unat sz + 3) div 4 * 4"
proof -
  have le: "unat sz \<le> 4294967292" using assms by (simp add: word_le_nat_alt)
  have m: "unat (sz mod 4) = unat sz mod 4" by (simp add: unat_mod)
  show ?thesis
  proof (cases "unat sz mod 4 = 0")
    case True
    then have "sz mod 4 = 0" using m by (metis unat_eq_zero)
    then show ?thesis using True by (simp add: adjust_size_def MEM_ALIGNMENT_def) presburger
  next
    case False
    then have "sz mod 4 \<noteq> 0" using m by (metis unat_0)
    have "unat ((ucast sz + 12) mod 4 :: u64) = (unat sz + 12) mod 4"
      using le by (simp add: unat_mod unat_word_ariths)
    moreover have "(unat sz + 12) mod 4 = unat sz mod 4" by presburger
    ultimately have "unat (4 - (ucast sz + 12) mod 4 :: u64) = 4 - unat sz mod 4"
      by (subst unat_sub) (auto simp: word_le_nat_alt)
    then have "unat (ucast sz + (4 - (ucast sz + 12) mod 4) :: u64) = unat sz + (4 - unat sz mod 4)"
      using le by (simp add: unat_word_ariths)
    moreover have "unat sz + (4 - unat sz mod 4) < 4294967296" "(unat sz + 3) div 4 * 4 = unat sz + (4 - unat sz mod 4)"
      using le False by presburger+
    ultimately show ?thesis
      using \<open>sz mod 4 \<noteq> 0\<close>
      by (simp add: adjust_size_def MEM_ALIGNMENT_def SIZEOF_STRUCT_MEM_eq unat_ucast_u32)
  qed
qed

lemma mem_fits_iff:
  assumes "unat a + 12 \<le> unat (mem_next m)"
  shows "mem_fits sz a m \<longleftrightarrow> \<not> mem_used m \<and> unat a + 24 + unat sz \<le> unat (mem_next m)"
proof -
  have b: "unat sz < 4294967296" "unat a < 4294967296" "unat (mem_next m) < 4294967296"
    using unat_u32_less by simp_all
  then have "unat (ucast a + 12 :: u64) = unat a + 12" "unat (ucast sz + 12 :: u64) = unat sz + 12"
    by (simp_all add: unat_word_ariths)
  moreover from this assms have "unat (ucast (mem_next m) - (ucast a + 12) :: u64) = unat (mem_next m) - (unat a + 12)"
    by (subst unat_sub) (simp_all add: word_le_nat_alt)
  ultimately show ?thesis using assms
    by (auto simp: mem_fits_def SIZEOF_STRUCT_MEM_eq word_le_nat_alt)
qed

section \<open>The operations keep the invariant\<close>

lemma heap_invD:
  assumes "heap_inv h bs"
  shows "tiled h bs" "coalesced bs" "lfree h = MEM_SIZE \<or> (lfree h, False) \<in> set bs"
    "(\<forall>u\<in>snd ` set bs. \<not> u) \<Longrightarrow> lfree h = 0" "mem_sem h" "hole_before bs"
  using assms by (auto simp: heap_inv_def)

lemma mem_init_inv: "heap_inv mem_init [(0, False)]"
  by (simp add: heap_inv_def tiled_def mem_init_def MEM_SIZE_def hole_before_def)

lemma tiled_next:
  assumes "tiled h (xs @ (a, u) # ys)"
  shows "unat a + 12 \<le> unat (nxt ys)" "nxt ys \<le> MEM_SIZE" "a < MEM_SIZE"
  using assms by (rule tiled_block, simp)+

text \<open>The search returns the first free block that is large enough.\<close>

lemma mem_search_ends:
  assumes "tiled h (xs @ ys)"
  shows "\<exists>r. mem_search h sz (nxt ys) = Inr r
     \<and> (case r of
          None \<Rightarrow> \<forall>us a vs. ys = us @ (a, False) # vs \<longrightarrow> unat (nxt vs) < unat a + 24 + unat sz
        | Some a \<Rightarrow> \<exists>us vs. ys = us @ (a, False) # vs \<and> unat a + 24 + unat sz \<le> unat (nxt vs))"
  using assms
proof (induction ys arbitrary: xs)
  case Nil
  then show ?case by (simp add: mem_search.simps)
next
  case (Cons y ys)
  obtain a u where y: "y = (a, u)" by (cases y)
  with Cons.prems have t: "tiled h (xs @ (a, u) # ys)" by simp
  obtain p where p: "hdr h a = Inr \<lparr>mem_next = nxt ys, mem_prev = p, mem_used = u\<rparr>"
    using tiled_hdr [OF t] by blast
  note n = tiled_next [OF t]
  have fits: "mem_fits sz a \<lparr>mem_next = nxt ys, mem_prev = p, mem_used = u\<rparr>
      \<longleftrightarrow> \<not> u \<and> unat a + 24 + unat sz \<le> unat (nxt ys)"
    using n(1) by (subst mem_fits_iff) simp_all
  have lt: "a < nxt ys" using n(1) by (simp add: word_less_nat_alt)
  show ?case
  proof (cases "\<not> u \<and> unat a + 24 + unat sz \<le> unat (nxt ys)")
    case True
    then have "mem_search h sz (nxt (y # ys)) = Inr (Some a)"
      using y p fits n(3) by (simp add: mem_search.simps)
    then show ?thesis using y True by (intro exI [of _ "Some a"]) (auto intro: exI [of _ "[]"])
  next
    case False
    have eq: "mem_search h sz (nxt (y # ys)) = mem_search h sz (nxt ys)"
      using y p fits n(3) lt False by (subst mem_search.simps) auto
    have "tiled h ((xs @ [(a, u)]) @ ys)" using t by simp
    from Cons.IH [OF this] obtain r where r: "mem_search h sz (nxt ys) = Inr r"
      "case r of
          None \<Rightarrow> \<forall>us a vs. ys = us @ (a, False) # vs \<longrightarrow> unat (nxt vs) < unat a + 24 + unat sz
        | Some a \<Rightarrow> \<exists>us vs. ys = us @ (a, False) # vs \<and> unat a + 24 + unat sz \<le> unat (nxt vs)" by blast
    show ?thesis
    proof (cases r)
      case None
      then show ?thesis using r eq y False by (auto simp: Cons_eq_append_conv)
    next
      case (Some c)
      then obtain us vs where "ys = us @ (c, False) # vs" "unat c + 24 + unat sz \<le> unat (nxt vs)"
        using r(2) by auto
      then show ?thesis using r(1) eq Some by (auto intro: exI [of _ "y # us"])
    qed
  qed
qed

lemma lfree_nxt:
  assumes "heap_inv h bs"
  obtains xs ys where "bs = xs @ ys" "lfree h = nxt ys" "\<forall>b u. (b, u) \<in> set ys \<longrightarrow> lfree h \<le> b"
proof (cases "lfree h = MEM_SIZE")
  case True
  then show thesis using that [of bs "[]"] by simp
next
  case False
  then have "(lfree h, False) \<in> set bs" using heap_invD(3) [OF assms] by blast
  then obtain xs zs where bs: "bs = xs @ (lfree h, False) # zs" by (meson split_list)
  have "tiled h (xs @ (lfree h, False) # zs)" using heap_invD(1) [OF assms] bs by simp
  then obtain q where "seg (ram h) (lfree h) (nxt zs) zs q MEM_SIZE" "unat (lfree h) + 12 \<le> unat (nxt zs)"
    by (rule tiled_block)
  then have "\<forall>b u. (b, u) \<in> set zs \<longrightarrow> lfree h \<le> b" using seg_le by (fastforce simp: word_le_nat_alt)
  then show thesis using that [of xs "(lfree h, False) # zs"] bs by simp
qed

lemma next_free_split:
  assumes "tiled h (xs @ (a, True) # (b, False) # ys)"
  shows "next_free h a = Inr b"
proof -
  have t': "tiled h ((xs @ [(a, True)]) @ (b, False) # ys)" using assms by simp
  obtain p q where "hdr h a = Inr \<lparr>mem_next = b, mem_prev = p, mem_used = True\<rparr>"
    "hdr h b = Inr \<lparr>mem_next = nxt ys, mem_prev = q, mem_used = False\<rparr>"
    using tiled_hdr [OF assms] tiled_hdr [OF t'] by auto
  moreover have "a < b" "a < MEM_SIZE"
    using tiled_next [OF assms] by (auto simp: word_less_nat_alt)
  moreover have "next_free h b = Inr b"
    using calculation(2) by (subst next_free.simps) simp
  ultimately show ?thesis by (subst next_free.simps) auto
qed

lemma tiled_before:
  assumes "tiled h (ws @ zs)" and "c \<in> fst ` set ws"
  shows "unat c + 12 \<le> unat (nxt zs)"
proof -
  obtain p q b where "seg (ram h) 0 0 ws p b" "seg (ram h) p b zs q MEM_SIZE"
    using assms(1) by (auto simp: tiled_def seg_append)
  with seg_le [OF this(1)] seg_nxt [OF this(2)] assms(2) show ?thesis by auto
qed

lemma tiled_suffix:
  assumes "tiled h (ws @ zs)" and "ws @ zs = xs @ (a, u) # ys" and "nxt zs \<le> a"
  obtains us where "xs = ws @ us" "zs = us @ (a, u) # ys"
proof -
  have "a \<notin> fst ` set ws" using tiled_before [OF assms(1), of a] assms(3) by (auto simp: word_le_nat_alt)
  then show thesis using assms(2) that
    by (fastforce simp: append_eq_append_conv2 Cons_eq_append_conv append_eq_Cons_conv)
qed

lemma block_pointer:
  assumes "unat (a :: u32) + 12 < 4294967296"
  shows "ucast (ucast a + 12 :: u64) = a + 12" "unat (a + 12) = unat a + 12"
proof -
  show u: "unat (a + 12) = unat a + 12" using assms by (simp add: unat_word_ariths)
  have "unat (ucast (ucast a + 12 :: u64) :: u32) = unat a + 12"
    using block_offset [of a 12 0] assms by simp
  with u show "ucast (ucast a + 12 :: u64) = a + 12" by (simp add: word_unat_eq_iff)
qed

lemma coalesced_split:
  "coalesced (xs @ (a, False) # ys) \<Longrightarrow> coalesced (xs @ (a, True) # (b, False) # ys)"
  by (auto simp: coalesced_append coalesced_Cons)

lemma mem_take:
  assumes inv: "heap_inv h (xs @ (a, False) # ys)" and sz: "unat a + 24 + unat (sz :: u32) \<le> unat (nxt ys)"
    and b: "b = ucast (ucast a + SIZEOF_STRUCT_MEM + ucast sz :: u64)"
  shows "\<exists>r. split_block a b True (h\<lparr>mem_sem := False\<rparr>) = Inr (h\<lparr>mem_sem := False, ram := r\<rparr>)
     \<and> next_free (h\<lparr>mem_sem := False, ram := r\<rparr>) a = Inr b
     \<and> heap_inv (h\<lparr>ram := r, lfree := (if a = lfree h then b else lfree h)\<rparr>)
          (xs @ (a, True) # (b, False) # ys)
     \<and> unat b = unat a + 12 + unat sz"
proof -
  let ?h = "h\<lparr>mem_sem := False\<rparr>"
  have t: "tiled ?h (xs @ (a, False) # ys)" using heap_invD(1) [OF inv] by simp
  have "unat (nxt ys) \<le> 5120000" using tiled_next(2) [OF t] unat_le_MEM_SIZE by blast
  then have ub: "unat b = unat a + 12 + unat sz"
    using block_offset [of a 12 sz] sz by (simp add: b SIZEOF_STRUCT_MEM_eq)
  obtain r where r: "split_block a b True ?h = Inr (?h\<lparr>ram := r\<rparr>)"
      "tiled (?h\<lparr>ram := r\<rparr>) (xs @ (a, True) # (b, False) # ys)"
    using split_tiled [OF t, of b True] ub sz by auto
  have t2: "tiled (h\<lparr>ram := r, lfree := f\<rparr>) (xs @ (a, True) # (b, False) # ys)" for f
    using r(2) by (simp add: tiled_def)
  have c: "coalesced (xs @ (a, True) # (b, False) # ys)"
    using coalesced_split heap_invD(2) [OF inv] by blast
  let ?f = "if a = lfree h then b else lfree h"
  have "heap_inv (h\<lparr>ram := r, lfree := ?f\<rparr>) (xs @ (a, True) # (b, False) # ys)"
    using t2 c heap_invD(3,5,6) [OF inv] by (auto simp: heap_inv_def hole_before_def)
  moreover have "next_free (?h\<lparr>ram := r\<rparr>) a = Inr b" by (rule next_free_split [OF r(2)])
  ultimately show ?thesis using r(1) ub by blast
qed

lemma mem_malloc_cases:
  assumes inv: "heap_inv h bs" and sz: "sz \<le> 0xFFFFFFFC"
  shows "(mem_malloc sz h = Inr (None, h)
            \<and> (\<forall>xs a ys. bs = xs @ (a, False) # ys \<longrightarrow> lfree h \<le> a \<longrightarrow> sz \<noteq> 0 \<longrightarrow>
                 unat (nxt ys) < unat a + 24 + (unat sz + 3) div 4 * 4))
       \<or> (\<exists>xs a ys b h'. bs = xs @ (a, False) # ys \<and> mem_malloc sz h = Inr (Some (a + 12), h')
            \<and> heap_inv h' (xs @ (a, True) # (b, False) # ys)
            \<and> unat b = unat a + 12 + (unat sz + 3) div 4 * 4)"
proof (cases "sz = 0 \<or> adjust_size sz > MEM_SIZE")
  case True
  then have "mem_malloc sz h = Inr (None, h)" by (auto simp: mem_malloc_def Let_def)
  moreover have "unat (nxt ys) < unat a + 24 + (unat sz + 3) div 4 * 4"
    if "bs = xs @ (a, False) # ys" "sz \<noteq> 0" for xs a ys
  proof -
    have "unat (nxt ys) \<le> 5120000"
      using tiled_next(2) [of h xs a False ys] heap_invD(1) [OF inv] that unat_le_MEM_SIZE by auto
    moreover have "(unat sz + 3) div 4 * 4 > 5120000"
      using True that adjust_size_unat [OF sz] MEM_SIZE_unat by (simp add: word_less_nat_alt)
    ultimately show ?thesis by simp
  qed
  ultimately show ?thesis by blast
next
  case False
  let ?sz = "adjust_size sz" and ?h = "h\<lparr>mem_sem := False\<rparr>"
  have bk: "mem_signal ?h = h" using heap_invD(5) [OF inv] by (simp add: mem_signal_def)
  obtain ws zs where bs: "bs = ws @ zs" "lfree h = nxt zs" "\<forall>b u. (b, u) \<in> set zs \<longrightarrow> lfree h \<le> b"
    by (rule lfree_nxt [OF inv])
  have t: "tiled ?h (ws @ zs)" using heap_invD(1) [OF inv] bs(1) by simp
  obtain r where r: "mem_search ?h ?sz (nxt zs) = Inr r"
      "case r of
          None \<Rightarrow> \<forall>us a vs. zs = us @ (a, False) # vs \<longrightarrow> unat (nxt vs) < unat a + 24 + unat ?sz
        | Some a \<Rightarrow> \<exists>us vs. zs = us @ (a, False) # vs \<and> unat a + 24 + unat ?sz \<le> unat (nxt vs)"
    using mem_search_ends [OF t] by blast
  have m: "mem_malloc sz h = (case r of
              None \<Rightarrow> Inr (None, mem_signal ?h)
            | Some a \<Rightarrow>
                bindr (split_block a (ucast (ucast a + SIZEOF_STRUCT_MEM + ucast ?sz :: u64)) True ?h) (\<lambda>h.
                bindr (if a = lfree h then bindr (next_free h (lfree h)) (\<lambda>f. Inr (h\<lparr>lfree := f\<rparr>))
                       else Inr h) (\<lambda>h.
                  Inr (Some (ucast (ucast a + SIZEOF_STRUCT_MEM :: u64)), mem_signal h))))"
    using False r(1) bs(2) heap_invD(5) [OF inv]
    by (simp add: mem_malloc_def mem_wait_def Let_def)
  show ?thesis
  proof (cases r)
    case None
    have "unat (nxt ys) < unat a + 24 + (unat sz + 3) div 4 * 4"
      if "bs = xs @ (a, False) # ys" "lfree h \<le> a" for xs a ys
    proof -
      have "ws @ zs = xs @ (a, False) # ys" "nxt zs \<le> a" using that bs(1,2) by simp_all
      from tiled_suffix [OF t this] obtain us where "zs = us @ (a, False) # ys" .
      then show ?thesis using r(2) None adjust_size_unat [OF sz] by simp
    qed
    then show ?thesis using m None bk by auto
  next
    case (Some a)
    then obtain us vs where vs: "zs = us @ (a, False) # vs" "unat a + 24 + unat ?sz \<le> unat (nxt vs)"
      using r(2) by auto
    let ?b = "ucast (ucast a + SIZEOF_STRUCT_MEM + ucast ?sz :: u64) :: u32"
    have bs': "bs = (ws @ us) @ (a, False) # vs" using bs(1) vs(1) by simp
    obtain r' where h': "split_block a ?b True ?h = Inr (?h\<lparr>ram := r'\<rparr>)"
      "next_free (?h\<lparr>ram := r'\<rparr>) a = Inr ?b"
      "heap_inv (h\<lparr>ram := r', lfree := (if a = lfree h then ?b else lfree h)\<rparr>)
         ((ws @ us) @ (a, True) # (?b, False) # vs)"
      "unat ?b = unat a + 12 + unat ?sz"
      using mem_take [OF inv [unfolded bs'] vs(2) refl] by blast
    have "unat a + 12 < 4294967296"
      using vs(2) unat_u32_less [of "nxt vs"] by linarith
    then have "ucast (ucast a + SIZEOF_STRUCT_MEM :: u64) = a + 12"
      by (simp add: SIZEOF_STRUCT_MEM_eq block_pointer)
    then have "mem_malloc sz h =
        Inr (Some (a + 12), h\<lparr>ram := r', lfree := (if a = lfree h then ?b else lfree h)\<rparr>)"
      using m Some h'(1,2) heap_invD(5) [OF inv]
      by (cases "a = lfree h") (auto simp: mem_signal_def intro!: mem_heap.equality)
    then show ?thesis using h'(3,4) bs' adjust_size_unat [OF sz] by metis
  qed
qed

lemma mark_free:
  assumes "tiled h (xs @ (a, u) # ys)"
  shows "\<exists>r. set_hdr a (mem_used_update (\<lambda>_. v)) h = Inr (h\<lparr>ram := r\<rparr>)
           \<and> tiled (h\<lparr>ram := r\<rparr>) (xs @ (a, v) # ys)"
proof -
  obtain p q m where a: "seg (ram h) 0 0 xs p a"
    "ram h a = Some \<lparr>mem_next = nxt ys, mem_prev = p, mem_used = u\<rparr>" "unat a + 12 \<le> unat (nxt ys)"
    "nxt ys \<le> MEM_SIZE" "seg (ram h) a (nxt ys) ys q MEM_SIZE" "ram h MEM_SIZE = Some m" "mem_used m"
    "a < MEM_SIZE" "a \<notin> fst ` set xs" "a \<notin> fst ` set ys"
    using tiled_block [OF assms] by metis
  let ?r = "(ram h)(a \<mapsto> \<lparr>mem_next = nxt ys, mem_prev = p, mem_used = v\<rparr>)"
  have "seg ?r 0 0 xs p a" "seg ?r p a ((a, v) # ys) q MEM_SIZE" "?r MEM_SIZE = Some m"
    using a by (auto simp: seg_upd_other)
  then have "tiled (h\<lparr>ram := ?r\<rparr>) (xs @ (a, v) # ys)"
    using a(7) by (auto simp: tiled_def seg_append)
  moreover have "set_hdr a (mem_used_update (\<lambda>_. v)) h = Inr (h\<lparr>ram := ?r\<rparr>)"
    using a(2,8) by (simp add: set_hdr_def hdr_def order.strict_implies_order)
  ultimately show ?thesis by blast
qed



lemma used_pointer:
  assumes "heap_inv h (xs @ (a, True) # ys)"
  shows "uint a + 12 < uint MEM_SIZE" "word_of_int (uint a + 12 - uint SIZEOF_STRUCT_MEM) = a"
    "uint a + 12 = uint (a + 12)" "\<not> uint a + 12 < 0"
proof -
  have t: "tiled h (xs @ (a, True) # ys)" and l: "hole_before (xs @ (a, True) # ys)"
    using heap_invD [OF assms] by simp_all
  then obtain zs c where ys: "ys = zs @ [(c, False)]"
    by (cases ys rule: rev_cases) (auto simp: hole_before_def)
  have c: "tiled h ((xs @ (a, True) # zs) @ (c, False) # [])" using t ys by simp
  have "unat a + 12 \<le> unat c" using tiled_before [OF c, of a] by simp
  then have "unat a + 12 < unat MEM_SIZE" using tiled_next(3) [OF c] by (simp add: word_less_nat_alt)
  then have "int (unat a + 12) < int (unat MEM_SIZE)" by (simp only: of_nat_less_iff)
  then show "uint a + 12 < uint MEM_SIZE" by (simp only: uint_nat of_nat_add of_nat_numeral)
  have "unat (a + 12) = unat a + 12"
    using \<open>unat a + 12 < unat MEM_SIZE\<close> MEM_SIZE_unat by (intro block_pointer(2)) simp
  then show "uint a + 12 = uint (a + 12)" by (simp only: uint_nat of_nat_add of_nat_numeral)
  show "\<not> uint a + 12 < 0" using uint_ge_0 [of a] by linarith
qed (simp add: SIZEOF_STRUCT_MEM_eq)

lemma set_join: "set (join xs a) = set xs \<union> (if hole_before xs then {} else {(a, False)})"
  by (simp add: join_def)

lemma tiled_distinct: "tiled h bs \<Longrightarrow> distinct (map fst bs)"
  by (auto simp: tiled_def dest: seg_distinct)

lemma freed_lfree:
  assumes inv: "heap_inv h (xs @ (a, True) # ys)"
    and f: "f = (let f = if hole_after ys \<and> (if a < lfree h then a else lfree h) = nxt ys then a
                         else if a < lfree h then a else lfree h
                 in if hole_before xs \<and> f = a then fst (last xs) else f)"
  shows "(f, False) \<in> set (join xs a @ absorb ys)"
proof -
  have t: "tiled h (xs @ (a, True) # ys)" using heap_invD(1) [OF inv] .
  have a: "a < nxt ys" "a < MEM_SIZE" "distinct (map fst (xs @ (a, True) # ys))"
    using tiled_next [OF t] tiled_distinct [OF t] by (simp_all add: word_less_nat_alt)
  show ?thesis
  proof (cases "a < lfree h")
    case True
    then have "f = (if hole_before xs then fst (last xs) else a)" using f a(1) by (simp add: Let_def)
    then show ?thesis by (cases xs rule: rev_cases) (auto simp: join_def hole_before_def)
  next
    case False
    then have "lfree h \<noteq> MEM_SIZE" "lfree h \<noteq> nxt ys" using a(1,2) by auto
    moreover from this have "(lfree h, False) \<in> set xs \<union> set ys"
      using heap_invD(3) [OF inv] by auto
    moreover have "lfree h \<notin> fst ` set ys"
    proof -
      obtain q where "seg (ram h) a (nxt ys) ys q MEM_SIZE" using t by (rule tiled_block)
      then show ?thesis using seg_le a(1) False by fastforce
    qed
    ultimately have l: "(lfree h, False) \<in> set xs" "lfree h \<noteq> a" using a(3) by force+
    then have "f = lfree h" using f False \<open>lfree h \<noteq> nxt ys\<close> by (simp add: Let_def)
    then show ?thesis using l(1) by (simp add: set_join)
  qed
qed

lemma freed_inv:
  assumes inv: "heap_inv h (xs @ (a, True) # ys)"
    and t: "tiled (h\<lparr>ram := r, lfree := f\<rparr>) (join xs a @ absorb ys)"
    and f: "f = (let f = if hole_after ys \<and> (if a < lfree h then a else lfree h) = nxt ys then a
                         else if a < lfree h then a else lfree h
                 in if hole_before xs \<and> f = a then fst (last xs) else f)"
  shows "heap_inv (h\<lparr>ram := r, lfree := f\<rparr>) (join xs a @ absorb ys)"
proof -
  let ?bs = "join xs a @ absorb ys"
  have c: "coalesced xs" "coalesced ys"
    using heap_invD(2) [OF inv] by (auto simp: coalesced_append coalesced_Cons)
  then have co: "coalesced ?bs" using coalesced_join coalesced_absorb by blast
  have mem: "(f, False) \<in> set ?bs" by (rule freed_lfree [OF inv f])
  have "f = 0" if "\<forall>u\<in>snd ` set ?bs. \<not> u"
  proof -
    have "length ?bs \<le> 1" by (rule coalesced_all_free [OF co that])
    with mem have "?bs = [(f, False)]" by (cases ?bs) auto
    with t show ?thesis by (simp add: tiled_def)
  qed
  moreover have "hole_before ?bs"
    using heap_invD(6) [OF inv]
    by (cases ys rule: rev_cases; cases "hole_before xs")
       (auto simp: join_def hole_before_def absorb_def hole_after_def hd_append tl_append split: list.splits)
  ultimately show ?thesis using t co mem heap_invD(5) [OF inv] by (simp add: heap_inv_def)
qed

lemma mem_free_inv:
  assumes inv: "heap_inv h (xs @ (a, True) # ys)"
  shows "\<exists>h'. mem_free (Some (uint (a + 12))) h = Inr h' \<and> heap_inv h' (join xs a @ absorb ys)"
proof -
  let ?h = "h\<lparr>mem_sem := False\<rparr>"
  note p = used_pointer [OF inv]
  obtain r1 where r1: "set_hdr a (mem_used_update (\<lambda>_. False)) ?h = Inr (?h\<lparr>ram := r1\<rparr>)"
      "tiled (?h\<lparr>ram := r1\<rparr>) (xs @ (a, False) # ys)"
    using mark_free [of ?h xs a True ys False] heap_invD(1) [OF inv] by auto
  let ?h1 = "if a < lfree h then ?h\<lparr>ram := r1, lfree := a\<rparr> else ?h\<lparr>ram := r1\<rparr>"
  have t1: "tiled ?h1 (xs @ (a, False) # ys)" using r1(2) by simp
  obtain r2 f where r2: "plug_holes a ?h1 = Inr (?h1\<lparr>ram := r2, lfree := f\<rparr>)"
      "tiled (?h1\<lparr>ram := r2\<rparr>) (join xs a @ absorb ys)"
      "f = (let f = if hole_after ys \<and> lfree ?h1 = nxt ys then a else lfree ?h1
            in if hole_before xs \<and> f = a then fst (last xs) else f)"
    using plug_holes_tiled [OF t1] by blast
  have eq: "?h1\<lparr>ram := r2, lfree := f, mem_sem := True\<rparr> = h\<lparr>ram := r2, lfree := f\<rparr>"
    using heap_invD(5) [OF inv] by (auto intro!: mem_heap.equality)
  have "mem_free (Some (uint (a + 12))) h = Inr (h\<lparr>ram := r2, lfree := f\<rparr>)"
    unfolding p(3) [symmetric]
    using p(1,2) p(4) r1(1) r2(1) eq heap_invD(5) [OF inv]
    by (simp add: mem_free_def mem_wait_def mem_signal_def Let_def)
  moreover have "heap_inv (h\<lparr>ram := r2, lfree := f\<rparr>) (join xs a @ absorb ys)"
    by (rule freed_inv [OF inv]) (use r2 in \<open>auto simp: tiled_def Let_def\<close>)
  ultimately show ?thesis by blast
qed

lemma shrunk_inv:
  assumes inv: "heap_inv h (xs @ (a, True) # ys)"
    and t: "tiled (h\<lparr>ram := r, lfree := f\<rparr>) (xs @ (a, True) # (b, False) # absorb ys)"
    and f: "f = (if hole_after ys \<and> lfree h = nxt ys then b else lfree h)"
  shows "heap_inv (h\<lparr>ram := r, lfree := f\<rparr>) (xs @ (a, True) # (b, False) # absorb ys)"
proof -
  have c: "coalesced (xs @ [(a, True)])" "coalesced ys"
    using heap_invD(2) [OF inv] by (auto simp: coalesced_append coalesced_Cons)
  then have "coalesced (xs @ (a, True) # (b, False) # absorb ys)"
    using coalesced_absorb [OF c(2)] by (auto simp: coalesced_append coalesced_Cons hole_after_def)
  moreover have "f = MEM_SIZE \<or> (f, False) \<in> set (xs @ (a, True) # (b, False) # absorb ys)"
    using heap_invD(3) [OF inv] f
    by (cases ys) (auto simp: absorb_def hole_after_def)
  moreover have "hole_before (xs @ (a, True) # (b, False) # absorb ys)"
    using heap_invD(6) [OF inv] by (cases ys) (auto simp: hole_before_def absorb_def hole_after_def)
  ultimately show ?thesis using t heap_invD(5) [OF inv] by (auto simp: heap_inv_def)
qed

lemma block_size:
  assumes "unat (a :: u32) + 12 \<le> unat n"
  shows "unat (ucast (ucast (n - a) - SIZEOF_STRUCT_MEM :: u64) :: u32) = unat n - unat a - 12"
proof -
  have 1: "unat (n - a) = unat n - unat a" using assms by (subst unat_sub) (simp_all add: word_le_nat_alt)
  have "unat (ucast (n - a) - 12 :: u64) = unat n - unat a - 12"
    using assms 1 by (subst unat_sub) (simp_all add: word_le_nat_alt)
  then show ?thesis using unat_u32_less [of n] by (simp add: SIZEOF_STRUCT_MEM_eq unat_ucast_u32)
qed

lemma shrink_iff:
  "ucast (n :: u32) + SIZEOF_STRUCT_MEM + MIN_SIZE < (ucast (sz :: u32) :: u64) \<longleftrightarrow> unat n + 24 < unat sz"
proof -
  have "unat (ucast n + 12 + 12 :: u64) = unat n + 24"
    using unat_u32_less [of n] by (simp add: unat_word_ariths)
  then show ?thesis by (simp only: SIZEOF_STRUCT_MEM_eq MIN_SIZE_def word_less_nat_alt unat_ucast_u32_u64)
qed

lemma mem_realloc_inv:
  assumes inv: "heap_inv h (xs @ (a, True) # ys)"
  shows "\<exists>h' bs. mem_realloc (uint (a + 12)) n h = Inr h' \<and> heap_inv h' (xs @ (a, True) # bs)
     \<and> (if unat n + 24 < unat (nxt ys) - unat a - 12
        then \<exists>b. bs = (b, False) # absorb ys \<and> unat b = unat a + 12 + unat n else bs = ys)"
proof -
  let ?h = "h\<lparr>mem_sem := False\<rparr>"
  note p = used_pointer [OF inv]
  have t: "tiled ?h (xs @ (a, True) # ys)" using heap_invD(1) [OF inv] by simp
  note n = tiled_next [OF t]
  obtain m where m: "hdr ?h a = Inr m" "mem_next m = nxt ys" "mem_used m"
    using tiled_hdr [OF t] by force
  have bk: "mem_signal ?h = h" using heap_invD(5) [OF inv] by (simp add: mem_signal_def)
  let ?sz = "ucast (ucast (nxt ys - a) - SIZEOF_STRUCT_MEM :: u64) :: u32"
  let ?b = "ucast (ucast a + SIZEOF_STRUCT_MEM + ucast n :: u64) :: u32"
  have eq: "mem_realloc (uint (a + 12)) n h =
      bindr (if unat n + 24 < unat (nxt ys) - unat a - 12 then bindr (split_block a ?b True ?h) (plug_holes ?b)
             else Inr ?h) (\<lambda>h. Inr (mem_signal h))"
    unfolding p(3) [symmetric]
    using p(1,2,4) m heap_invD(5) [OF inv] block_size [OF n(1)]
    by (simp add: mem_realloc_def mem_wait_def Let_def shrink_iff)
  show ?thesis
  proof (cases "unat n + 24 < unat (nxt ys) - unat a - 12")
    case False
    then show ?thesis using eq bk inv by auto
  next
    case True
    have b: "unat ?b = unat a + 12 + unat n"
      using block_offset [of a 12 n] True unat_u32_less [of "nxt ys"] by (simp add: SIZEOF_STRUCT_MEM_eq)
    have "unat a + 12 \<le> unat ?b" "unat ?b + 12 \<le> unat (nxt ys)" using b True by linarith+
    then obtain r1 where r1: "split_block a ?b True ?h = Inr (?h\<lparr>ram := r1\<rparr>)"
        "tiled (?h\<lparr>ram := r1\<rparr>) ((xs @ [(a, True)]) @ (?b, False) # ys)"
      using split_tiled [OF t] by fastforce
    have nb: "\<not> hole_before (xs @ [(a, True)])" by (simp add: hole_before_def)
    let ?f = "if hole_after ys \<and> lfree h = nxt ys then ?b else lfree h"
    obtain r2 where r2: "plug_holes ?b (?h\<lparr>ram := r1\<rparr>) = Inr (?h\<lparr>ram := r1, ram := r2, lfree := ?f\<rparr>)"
        "tiled (?h\<lparr>ram := r1, ram := r2\<rparr>) ((xs @ [(a, True)]) @ (?b, False) # absorb ys)"
      by (rule plug_holes_after_used [OF r1(2) nb, of ?f]) simp
    have re: "mem_realloc (uint (a + 12)) n h = Inr (h\<lparr>ram := r2, lfree := ?f\<rparr>)"
      using eq True r1(1) r2(1) heap_invD(5) [OF inv]
      by (auto simp: mem_signal_def intro!: mem_heap.equality)
    have "heap_inv (h\<lparr>ram := r2, lfree := ?f\<rparr>) (xs @ (a, True) # (?b, False) # absorb ys)"
      by (rule shrunk_inv [OF inv]) (use r2(2) in \<open>auto simp: tiled_def\<close>)
    then show ?thesis using re b True by auto
  qed
qed

section \<open>Runs of the allocator\<close>

text \<open>
  What the callers do: they hold the pointers in \<open>own\<close> with the size they asked for, take,
  shrink and give back blocks, and write to the bytes of their own blocks.  A write may
  destroy whatever header bytes lie there; it does not reach the headers in use.
\<close>

type_synonym holdings = "u32 \<Rightarrow> u32 option"

definition own_byte :: "holdings \<Rightarrow> nat \<Rightarrow> bool" where
  "own_byte own i \<longleftrightarrow> (\<exists>p s. own p = Some s \<and> unat p \<le> i \<and> i < unat p + unat s)"

inductive mem_step :: "mem_heap \<times> holdings \<Rightarrow> mem_heap \<times> holdings \<Rightarrow> bool" where
  malloc: "sz \<le> 0xFFFFFFFC \<Longrightarrow> mem_malloc sz h = Inr (Some p, h')
    \<Longrightarrow> mem_step (h, own) (h', own(p \<mapsto> sz))"
| malloc_fails: "sz \<le> 0xFFFFFFFC \<Longrightarrow> mem_malloc sz h = Inr (None, h') \<Longrightarrow> mem_step (h, own) (h', own)"
| free: "own p = Some s \<Longrightarrow> mem_free (Some (uint p)) h = Inr h' \<Longrightarrow> mem_step (h, own) (h', own(p := None))"
| shrink: "own p = Some s \<Longrightarrow> n \<le> s \<Longrightarrow> mem_realloc (uint p) n h = Inr h'
    \<Longrightarrow> mem_step (h, own) (h', own(p \<mapsto> n))"
| store: "(\<And>a. \<not> (\<exists>i<12. own_byte own (unat a + i)) \<Longrightarrow> r a = ram h a)
    \<Longrightarrow> mem_step (h, own) (h\<lparr>ram := r\<rparr>, own)"

text \<open>
  The used blocks with where they end, and what it means that these are the holdings,
  each as long as was asked for.
\<close>

fun spans :: "u32 \<Rightarrow> (u32 \<times> bool) list \<Rightarrow> (u32 \<times> u32) list" where
  "spans e [] = []"
| "spans e ((a, u) # bs) =
     (if u then [(a, case bs of [] \<Rightarrow> e | (c, v) # _ \<Rightarrow> c)] else []) @ spans e bs"

definition holds :: "holdings \<Rightarrow> (u32 \<times> bool) list \<Rightarrow> bool" where
  "holds own bs \<longleftrightarrow>
     (\<forall>p. own p \<noteq> None \<longleftrightarrow> p - 12 \<in> fst ` set (spans MEM_SIZE bs))
     \<and> (\<forall>(a, n)\<in>set (spans MEM_SIZE bs). \<forall>s. own (a + 12) = Some s \<longrightarrow> unat a + 12 + unat s \<le> unat n)"

lemma spans_append:
  "spans e (xs @ ys) = spans (case ys of [] \<Rightarrow> e | (c, v) # _ \<Rightarrow> c) xs @ spans e ys"
  by (induction e xs rule: spans.induct) (auto split: list.splits)

lemma spans_mid: "spans MEM_SIZE (xs @ (a, u) # ys) =
    spans a xs @ (if u then [(a, nxt ys)] else []) @ spans MEM_SIZE ys"
  by (simp add: spans_append nxt_def)

lemma spans_hole: "hole_before xs \<Longrightarrow> spans e xs = spans e' xs"
proof (cases xs rule: rev_cases)
  case (snoc ws x)
  assume "hole_before xs"
  then obtain c where "xs = ws @ [(c, False)]" using snoc by (cases x) (auto simp: hole_before_def)
  then show ?thesis by (simp add: spans_append)
qed simp

lemma spans_absorb: "spans e (absorb ys) = spans e ys"
  by (cases ys) (auto simp: absorb_def hole_after_def)

lemma spans_join: "set (spans MEM_SIZE (join xs a @ ys)) = set (spans a xs) \<union> set (spans MEM_SIZE ys)"
proof (cases "hole_before xs")
  case True
  then have "join xs a = xs" by (simp add: join_def)
  then show ?thesis using spans_hole [OF True, of "case ys of [] \<Rightarrow> MEM_SIZE | (c, v) # _ \<Rightarrow> c" a]
    by (simp add: spans_append)
next
  case False
  then show ?thesis by (simp add: join_def spans_append)
qed

lemma fst_spans: "fst ` set (spans e bs) = {a. (a, True) \<in> set bs}"
  by (induction e bs rule: spans.induct) auto

lemma spans_split: "(a, n) \<in> set (spans MEM_SIZE bs) \<Longrightarrow> \<exists>xs ys. bs = xs @ (a, True) # ys \<and> n = nxt ys"
proof (induction bs)
  case (Cons b bs)
  then show ?case
    by (cases b) (fastforce simp: nxt_def split: if_splits intro: exI [of _ "[]"] exI [of _ "b # _"])
qed simp

lemma holds_put:
  assumes "holds own bs" and "set (spans MEM_SIZE bs') = insert (a, n) {x \<in> set (spans MEM_SIZE bs). fst x \<noteq> a}"
    and "unat a + 12 + unat s \<le> unat n"
  shows "holds (own(a + 12 \<mapsto> s)) bs'"
proof -
  have "c \<in> fst ` set (spans MEM_SIZE bs') \<longleftrightarrow> c = a \<or> c \<in> fst ` set (spans MEM_SIZE bs)" for c
    unfolding assms(2) by force
  moreover have "own p \<noteq> None \<longleftrightarrow> p - 12 \<in> fst ` set (spans MEM_SIZE bs)" for p
    using assms(1) unfolding holds_def by blast
  ultimately have "(own(a + 12 \<mapsto> s)) p \<noteq> None \<longleftrightarrow> p - 12 \<in> fst ` set (spans MEM_SIZE bs')" for p
    by (simp add: diff_eq_eq)
  moreover have "unat c + 12 + unat t \<le> unat m"
    if "(c, m) \<in> set (spans MEM_SIZE bs')" "(own(a + 12 \<mapsto> s)) (c + 12) = Some t" for c m t
    using that assms by (cases "c = a") (auto simp: holds_def)
  ultimately show ?thesis by (auto simp: holds_def)
qed

lemma holds_drop:
  assumes "holds own bs" and "set (spans MEM_SIZE bs') = {x \<in> set (spans MEM_SIZE bs). fst x \<noteq> a}"
  shows "holds (own(a + 12 := None)) bs'"
proof -
  have "c \<in> fst ` set (spans MEM_SIZE bs') \<longleftrightarrow> c \<noteq> a \<and> c \<in> fst ` set (spans MEM_SIZE bs)" for c
    unfolding assms(2) by force
  moreover have "own p \<noteq> None \<longleftrightarrow> p - 12 \<in> fst ` set (spans MEM_SIZE bs)" for p
    using assms(1) unfolding holds_def by blast
  ultimately have "(own(a + 12 := None)) p \<noteq> None \<longleftrightarrow> p - 12 \<in> fst ` set (spans MEM_SIZE bs')" for p
    by (simp add: diff_eq_eq)
  moreover have "unat c + 12 + unat t \<le> unat m"
    if "(c, m) \<in> set (spans MEM_SIZE bs')" "(own(a + 12 := None)) (c + 12) = Some t" for c m t
    using that assms by (cases "c = a") (auto simp: holds_def)
  ultimately show ?thesis by (auto simp: holds_def)
qed

lemma spans_others:
  assumes "heap_inv h (xs @ (a, u) # ys)"
  shows "set (spans MEM_SIZE (xs @ (a, u) # ys)) =
       (if u then {(a, nxt ys)} else {}) \<union> set (spans a xs) \<union> set (spans MEM_SIZE ys)"
    "{x \<in> set (spans MEM_SIZE (xs @ (a, u) # ys)). fst x \<noteq> a} = set (spans a xs) \<union> set (spans MEM_SIZE ys)"
proof -
  show 1: "set (spans MEM_SIZE (xs @ (a, u) # ys)) =
       (if u then {(a, nxt ys)} else {}) \<union> set (spans a xs) \<union> set (spans MEM_SIZE ys)"
    by (auto simp: spans_mid)
  have "a \<notin> fst ` set xs" "a \<notin> fst ` set ys"
    using tiled_distinct [OF heap_invD(1) [OF assms]] by auto
  then have "a \<notin> fst ` set (spans a xs)" "a \<notin> fst ` set (spans MEM_SIZE ys)"
    unfolding fst_spans mem_Collect_eq by (metis fst_conv image_eqI)+
  then show "{x \<in> set (spans MEM_SIZE (xs @ (a, u) # ys)). fst x \<noteq> a} = set (spans a xs) \<union> set (spans MEM_SIZE ys)"
    unfolding 1 by (force split: if_splits)
qed

definition run_ok :: "mem_heap \<times> holdings \<Rightarrow> bool" where
  "run_ok s \<longleftrightarrow> (\<exists>bs. heap_inv (fst s) bs \<and> holds (snd s) bs)"

lemma holds_block:
  assumes "holds own bs" and "own p = Some s"
  obtains xs a ys where "bs = xs @ (a, True) # ys" "p = a + 12" "unat a + 12 + unat s \<le> unat (nxt ys)"
    "(a, nxt ys) \<in> set (spans MEM_SIZE bs)"
proof -
  obtain n where n: "(p - 12, n) \<in> set (spans MEM_SIZE bs)" using assms by (force simp: holds_def)
  then obtain xs ys where "bs = xs @ (p - 12, True) # ys" "n = nxt ys" using spans_split by blast
  moreover have "unat (p - 12) + 12 + unat s \<le> unat n" using assms n by (fastforce simp: holds_def)
  ultimately show thesis using that [of xs "p - 12" ys] n by simp
qed

lemma round_up: "n \<le> (n + 3) div 4 * (4 :: nat)"
  by presburger

lemma malloc_step:
  assumes inv: "heap_inv h bs" and own: "holds own bs" and sz: "sz \<le> 0xFFFFFFFC"
    and m: "mem_malloc sz h = Inr (r, h')"
  shows "run_ok (h', case r of None \<Rightarrow> own | Some p \<Rightarrow> own(p \<mapsto> sz))"
  using mem_malloc_cases [OF inv sz]
proof (elim disjE exE conjE)
  assume "mem_malloc sz h = Inr (None, h)"
  then show ?thesis using m inv own by (auto simp: run_ok_def)
next
  fix xs a ys b h1
  assume b: "bs = xs @ (a, False) # ys" "mem_malloc sz h = Inr (Some (a + 12), h1)"
    "heap_inv h1 (xs @ (a, True) # (b, False) # ys)" "unat b = unat a + 12 + (unat sz + 3) div 4 * 4"
  have "set (spans MEM_SIZE (xs @ (a, True) # (b, False) # ys))
      = insert (a, b) {x \<in> set (spans MEM_SIZE bs). fst x \<noteq> a}"
    using spans_others(1) [OF b(3)] spans_others(2) [of h xs a False ys] inv b(1) by auto
  then have "holds (own(a + 12 \<mapsto> sz)) (xs @ (a, True) # (b, False) # ys)"
    by (rule holds_put [OF own]) (use b(4) round_up [of "unat sz"] in simp)
  then show ?thesis using b(2,3) m by (auto simp: run_ok_def)
qed

lemma free_step:
  assumes inv: "heap_inv h bs" and own: "holds own bs" and p: "own p = Some s"
  shows "\<exists>h'. mem_free (Some (uint p)) h = Inr h' \<and> run_ok (h', own(p := None))"
proof -
  obtain xs a ys where b: "bs = xs @ (a, True) # ys" "p = a + 12" by (rule holds_block [OF own p])
  obtain h' where h': "mem_free (Some (uint p)) h = Inr h'" "heap_inv h' (join xs a @ absorb ys)"
    using mem_free_inv inv b by blast
  have "set (spans MEM_SIZE (join xs a @ absorb ys)) = {x \<in> set (spans MEM_SIZE bs). fst x \<noteq> a}"
    using spans_others(2) [of h xs a True ys] inv b(1) by (simp add: spans_join spans_absorb)
  then have "holds (own(p := None)) (join xs a @ absorb ys)"
    unfolding b(2) by (rule holds_drop [OF own])
  with h' show ?thesis by (auto simp: run_ok_def)
qed

lemma shrink_step:
  assumes inv: "heap_inv h bs" and own: "holds own bs" and p: "own p = Some s" and n: "n \<le> s"
  shows "\<exists>h'. mem_realloc (uint p) n h = Inr h' \<and> run_ok (h', own(p \<mapsto> n))"
proof -
  obtain xs a ys where b: "bs = xs @ (a, True) # ys" "p = a + 12" "unat a + 12 + unat s \<le> unat (nxt ys)"
    by (rule holds_block [OF own p])
  obtain h' zs where h': "mem_realloc (uint p) n h = Inr h'" "heap_inv h' (xs @ (a, True) # zs)"
    "if unat n + 24 < unat (nxt ys) - unat a - 12
     then \<exists>c. zs = (c, False) # absorb ys \<and> unat c = unat a + 12 + unat n else zs = ys"
    using mem_realloc_inv [of h xs a ys n] inv b(1,2) by blast
  have "unat n \<le> unat s" using n by (simp add: word_le_nat_alt)
  then have len: "unat a + 12 + unat n \<le> unat (nxt zs)" using h'(3) b(3) by (auto split: if_splits)
  have "set (spans MEM_SIZE zs) = set (spans MEM_SIZE ys)"
    using h'(3) by (auto simp: spans_absorb split: if_splits)
  then have "set (spans MEM_SIZE (xs @ (a, True) # zs)) = insert (a, nxt zs) {x \<in> set (spans MEM_SIZE bs). fst x \<noteq> a}"
    using spans_others(1) [OF h'(2)] spans_others(2) [of h xs a True ys] inv b(1) by auto
  then have "holds (own(p \<mapsto> n)) (xs @ (a, True) # zs)"
    unfolding b(2) by (rule holds_put [OF own _ len])
  with h'(1,2) show ?thesis by (auto simp: run_ok_def)
qed

text \<open>The bytes of an allocation lie between two headers.\<close>

lemma own_byte_apart:
  assumes inv: "heap_inv h bs" and own: "holds own bs" and c: "c \<in> fst ` set bs \<or> c = MEM_SIZE"
  shows "\<not> (\<exists>i<12. own_byte own (unat c + i))"
proof
  assume "\<exists>i<12. own_byte own (unat c + i)"
  then obtain i p s where i: "i < 12" "own p = Some s" "unat p \<le> unat c + i" "unat c + i < unat p + unat s"
    by (auto simp: own_byte_def)
  obtain xs a ys where b: "bs = xs @ (a, True) # ys" "p = a + 12" "unat a + 12 + unat s \<le> unat (nxt ys)"
    by (rule holds_block [OF own i(2)])
  have t: "tiled h (xs @ (a, True) # ys)" using heap_invD(1) [OF inv] b(1) by simp
  note n = tiled_next [OF t]
  have p: "unat p = unat a + 12"
    using n(1) unat_u32_less [of "nxt ys"] unfolding b(2) by (intro block_pointer(2)) linarith
  obtain q where "seg (ram h) a (nxt ys) ys q MEM_SIZE" using t by (rule tiled_block)
  then have "\<forall>d\<in>fst ` set ys. nxt ys \<le> d" using seg_le by blast
  then have ys: "unat (nxt ys) \<le> unat d" if "d \<in> fst ` set ys" for d
    using that unfolding word_le_nat_alt by blast
  have xs: "unat d + 12 \<le> unat a" if "d \<in> fst ` set xs" for d
    using tiled_before [OF t that] by simp
  have "c \<in> fst ` set xs \<or> c = a \<or> c \<in> fst ` set ys \<or> c = MEM_SIZE" using c b(1) by auto
  then show False
  proof (elim disjE)
    assume "c \<in> fst ` set xs"
    from xs [OF this] i p show False by linarith
  next
    assume "c \<in> fst ` set ys"
    from ys [OF this] i p b(3) show False by linarith
  next
    assume "c = MEM_SIZE"
    with n(2) i p b(3) show False by (simp add: word_le_nat_alt)
  next
    assume "c = a"
    with i p show False by simp
  qed
qed

lemma store_step:
  assumes inv: "heap_inv h bs" and own: "holds own bs"
    and r: "\<And>a. \<not> (\<exists>i<12. own_byte own (unat a + i)) \<Longrightarrow> r a = ram h a"
  shows "heap_inv (h\<lparr>ram := r\<rparr>) bs"
proof -
  have "r c = ram h c" if "c \<in> fst ` set bs \<or> c = MEM_SIZE" for c
    using r own_byte_apart [OF inv own that] by blast
  then have "seg r 0 0 bs q MEM_SIZE = seg (ram h) 0 0 bs q MEM_SIZE" "r MEM_SIZE = ram h MEM_SIZE" for q
    by (auto intro!: seg_cong)
  then show ?thesis using inv by (simp add: heap_inv_def tiled_def)
qed

lemma mem_step_ok: "mem_step s s' \<Longrightarrow> run_ok s \<Longrightarrow> run_ok s'"
proof (induction rule: mem_step.induct)
  case (malloc sz h p h' own)
  then show ?case using malloc_step [of h _ own sz "Some p" h'] by (auto simp: run_ok_def)
next
  case (malloc_fails sz h h' own)
  then show ?case using malloc_step [of h _ own sz None h'] by (auto simp: run_ok_def)
next
  case (free own p s h h')
  then show ?case using free_step [of h _ own p s] by (fastforce simp: run_ok_def)
next
  case (shrink own p s n h h')
  then show ?case using shrink_step [of h _ own p s n] by (fastforce simp: run_ok_def)
next
  case (store own r h)
  then show ?case using store_step [of h _ own r] by (auto simp: run_ok_def)
qed

lemma run_init: "run_ok (mem_init, \<lambda>_. None)"
  using mem_init_inv by (auto simp: run_ok_def holds_def)

lemma reachable_run_ok: "mem_step\<^sup>*\<^sup>* (mem_init, \<lambda>_. None) s \<Longrightarrow> run_ok s"
  by (induction rule: rtranclp_induct) (auto intro: run_init mem_step_ok)

lemma allocation_span:
  assumes "heap_inv h bs" and "holds own bs" and "own p = Some s"
  shows "12 \<le> unat p \<and> unat p + unat s \<le> unat MEM_SIZE"
proof -
  obtain xs a ys where b: "bs = xs @ (a, True) # ys" "p = a + 12" "unat a + 12 + unat s \<le> unat (nxt ys)"
    by (rule holds_block [OF assms(2,3)])
  have t: "tiled h (xs @ (a, True) # ys)" using heap_invD(1) [OF assms(1)] b(1) by simp
  have "unat (a + 12) = unat a + 12"
    using tiled_next(1) [OF t] unat_u32_less [of "nxt ys"] by (intro block_pointer(2)) linarith
  then show ?thesis using b tiled_next(2) [OF t] by (simp add: word_le_nat_alt)
qed

lemma allocations_disjoint:
  assumes inv: "heap_inv h bs" and own: "holds own bs" and p: "own p = Some s" and q: "own q = Some t"
    and neq: "p \<noteq> q"
  shows "{unat p..<unat p + unat s} \<inter> {unat q..<unat q + unat t} = {}"
proof -
  obtain xs a ys where b: "bs = xs @ (a, True) # ys" "p = a + 12" by (rule holds_block [OF own p])
  obtain xs' c ys' where b': "bs = xs' @ (c, True) # ys'" "q = c + 12" by (rule holds_block [OF own q])
  have t: "tiled h (xs @ (a, True) # ys)" "tiled h (xs' @ (c, True) # ys')"
    using heap_invD(1) [OF inv] b(1) b'(1) by simp_all
  have "unat (d + 12) = unat d + 12" if "tiled h (us @ (d, True) # vs)" for us d vs
    using tiled_next(1) [OF that] unat_u32_less [of "nxt vs"] by (intro block_pointer(2)) linarith
  then have pq: "unat p = unat a + 12" "unat q = unat c + 12" using t b(2) b'(2) by auto
  have ac: "a \<in> fst ` set bs" unfolding b(1) by simp
  have cc: "c \<in> fst ` set bs" unfolding b'(1) by simp
  have out: "\<not> (unat r \<le> unat d + i \<and> unat d + i < unat r + unat k)"
    if "own r = Some k" "i < 12" "d \<in> fst ` set bs" for r k i d
    using own_byte_apart [OF inv own, of d] that by (auto simp: own_byte_def)
  have "unat a \<noteq> unat c" using neq b(2) b'(2) by (metis word_unat_eq_iff)
  moreover have "\<not> (unat p \<le> unat c \<and> unat c < unat p + unat s)" "\<not> (unat q \<le> unat a \<and> unat a < unat q + unat t)"
    "\<not> (unat p \<le> unat c + 11 \<and> unat c + 11 < unat p + unat s)"
    "\<not> (unat q \<le> unat a + 11 \<and> unat a + 11 < unat q + unat t)"
    using out [OF p, of 0 c] out [OF p, of 11 c] out [OF q, of 0 a] out [OF q, of 11 a] ac cc by simp_all
  ultimately have "unat p + unat s \<le> unat q \<or> unat q + unat t \<le> unat p" using pq by linarith
  then show ?thesis by auto
qed

text \<open>Once everything is given back, the heap is one free block again.\<close>

lemma all_free:
  assumes inv: "heap_inv h bs" and own: "holds (\<lambda>_. None) bs"
  shows "bs = [(0, False)]" "lfree h = 0"
proof -
  have n: "p - 12 \<notin> fst ` set (spans MEM_SIZE bs)" for p
    using own by (simp add: holds_def)
  have "c \<notin> fst ` set (spans MEM_SIZE bs)" for c using n [of "c + 12"] by simp
  then have free: "\<forall>u\<in>snd ` set bs. \<not> u" by (auto simp: fst_spans)
  then show "lfree h = 0" using heap_invD(4) [OF inv] by blast
  have "length bs \<le> 1" using coalesced_all_free heap_invD(2) [OF inv] free by blast
  moreover have "bs \<noteq> []" using heap_invD(6) [OF inv] by (auto simp: hole_before_def)
  ultimately obtain a u where bs: "bs = [(a, u)]" by (cases bs) auto
  then show "bs = [(0, False)]" using heap_invD(1) [OF inv] free by (auto simp: tiled_def)
qed

lemma malloc_after_all_free:
  assumes inv: "heap_inv h bs" and own: "holds (\<lambda>_. None) bs" and sz: "0 < sz" "sz \<le> 5119976"
  shows "\<exists>p h'. mem_malloc sz h = Inr (Some p, h')"
proof (rule ccontr)
  note b = all_free [OF inv own]
  have le: "sz \<le> 0xFFFFFFFC" "unat sz \<le> 5119976" using sz by (simp_all add: word_le_nat_alt)
  assume "\<not> ?thesis"
  with mem_malloc_cases [OF inv le(1)] have
    "\<forall>xs a ys. bs = xs @ (a, False) # ys \<longrightarrow> lfree h \<le> a \<longrightarrow> sz \<noteq> 0 \<longrightarrow>
       unat (nxt ys) < unat a + 24 + (unat sz + 3) div 4 * 4" by blast
  from this [rule_format, of "[]" 0 "[]"] b sz(1) have "5120000 < 24 + (unat sz + 3) div 4 * 4"
    by (simp add: MEM_SIZE_unat)
  with le(2) show False by presburger
qed

text \<open>
  C6: the memory manager is safe.  In every state that callers reach from \<open>mem_init\<close> by
  allocating, shrinking, freeing and writing to what they hold, allocations lie inside
  the array, have at least the size that was asked for, and do not overlap; \<open>mem_malloc\<close>
  and the release of a held pointer return; and once everything has been given back, a
  request for any size up to the whole array less two headers succeeds.
\<close>

theorem mem_allocator_safe:
  assumes "mem_step\<^sup>*\<^sup>* (mem_init, \<lambda>_. None) (h, own)"
  shows "(\<forall>p s. own p = Some s \<longrightarrow> 12 \<le> unat p \<and> unat p + unat s \<le> unat MEM_SIZE)
     \<and> (\<forall>p s q t. own p = Some s \<longrightarrow> own q = Some t \<longrightarrow> p \<noteq> q \<longrightarrow>
          {unat p..<unat p + unat s} \<inter> {unat q..<unat q + unat t} = {})
     \<and> (\<forall>sz\<le>0xFFFFFFFC. \<exists>r h'. mem_malloc sz h = Inr (r, h'))
     \<and> (\<forall>p s. own p = Some s \<longrightarrow> (\<exists>h'. mem_free (Some (uint p)) h = Inr h'))
     \<and> (own = (\<lambda>_. None) \<longrightarrow> (\<forall>sz. 0 < sz \<and> sz \<le> 5119976 \<longrightarrow> (\<exists>p h'. mem_malloc sz h = Inr (Some p, h'))))"
proof -
  obtain bs where bs: "heap_inv h bs" "holds own bs"
    using reachable_run_ok [OF assms] by (auto simp: run_ok_def)
  have "\<exists>r h'. mem_malloc sz h = Inr (r, h')" if "sz \<le> 0xFFFFFFFC" for sz
    using mem_malloc_cases [OF bs(1) that] by blast
  moreover have "\<exists>h'. mem_free (Some (uint p)) h = Inr h'" if "own p = Some s" for p s
    using free_step [OF bs that] by blast
  moreover have "\<exists>p h'. mem_malloc sz h = Inr (Some p, h')"
    if "own = (\<lambda>_. None)" "0 < sz" "sz \<le> 5119976" for sz
    using malloc_after_all_free [OF bs(1)] bs(2) that by blast
  ultimately show ?thesis
    using allocation_span [OF bs] allocations_disjoint [OF bs] by blast
qed

definition ex_heap :: mem_heap where
  "ex_heap =
     \<lparr>ram = (\<lambda>_. None)
        (0 \<mapsto> \<lparr>mem_next = 112, mem_prev = 0, mem_used = True\<rparr>,
         MEM_SIZE \<mapsto> \<lparr>mem_next = MEM_SIZE, mem_prev = MEM_SIZE, mem_used = True\<rparr>,
         112 \<mapsto> \<lparr>mem_next = MEM_SIZE, mem_prev = 0, mem_used = False\<rparr>),
      lfree = 112, mem_sem = True\<rparr>"

lemma ex_heap_malloc: "mem_malloc 99 mem_init = Inr (Some 12, ex_heap)"
  by (simp add: mem_malloc_def mem_init_def ex_heap_def adjust_size_def MEM_ALIGNMENT_def
      SIZEOF_STRUCT_MEM_eq MEM_SIZE_def mem_wait_def mem_signal_def mem_search.simps next_free.simps
      hdr_def set_hdr_def new_hdr_def mem_fits_def split_block_def word_le_nat_alt word_less_nat_alt
      fun_upd_twist fun_eq_iff)

theorem mem_allocator_safe_witness:
  "mem_step\<^sup>*\<^sup>* (mem_init, \<lambda>_. None) (ex_heap, (\<lambda>_. None)(12 \<mapsto> 99))
     \<and> (\<exists>r h'. mem_malloc 4000000 ex_heap = Inr (r, h')) \<and> (\<exists>h'. mem_free (Some 12) ex_heap = Inr h')"
proof -
  have "mem_step (mem_init, \<lambda>_. None) (ex_heap, (\<lambda>_. None)(12 \<mapsto> 99))"
    by (rule mem_step.malloc [OF _ ex_heap_malloc]) (simp add: word_le_nat_alt)
  then have r: "mem_step\<^sup>*\<^sup>* (mem_init, \<lambda>_. None) (ex_heap, (\<lambda>_. None)(12 \<mapsto> 99))" by simp
  note m = mem_allocator_safe [OF this]
  have "\<exists>r h'. mem_malloc 4000000 ex_heap = Inr (r, h')" using m by (simp add: word_le_nat_alt)
  moreover have "\<exists>h'. mem_free (Some (uint (12 :: u32))) ex_heap = Inr h'"
    using m [THEN conjunct2, THEN conjunct2, THEN conjunct2, THEN conjunct1, rule_format, of 12 99] by simp
  ultimately show ?thesis using r by simp
qed

end
