(* ===== verification/LwInet.thy ===== *)
theory LwInet
  imports Checksum
begin

text \<open>
  The checksum functions of the TCP stack (\<open>lwtcp/inet.c\<close>).  A chain of packet buffers is
  the list of the payloads of its buffers.  The results: the checksum of a chain over the
  pseudo header does not depend on how the data is cut into buffers, it is the checksum
  the router itself computes in \<open>globals.c\<close>, and a segment whose checksum was filled in
  is accepted.  \<open>inet_chksum_pbuf\<close>, where an operator precedence is wrong, is correct for
  buffers of even length only.
\<close>

section \<open>Model\<close>

text \<open>The loop over the 16-bit words, and the odd byte at the end.\<close>

fun chksum_from :: "u32 \<Rightarrow> byte list \<Rightarrow> u32" where
  "chksum_from acc (a # b # bs) = chksum_from (acc + (ucast a OR push_bit 8 (ucast b))) bs"
| "chksum_from acc [a] = acc + ucast (htons (ucast (push_bit 8 (ucast a AND 0xff :: u32))))"
| "chksum_from acc [] = acc"

definition chksum :: "byte list \<Rightarrow> u32" where
  "chksum bs = chksum_from 0 bs"

text \<open>\<open>while (acc >> 16) acc = (acc & 0xffff) + (acc >> 16)\<close>.\<close>

lemma fold_decreases:
  assumes "drop_bit 16 (acc :: u32) \<noteq> 0"
  shows "unat ((acc AND 0xffff) + drop_bit 16 acc) < unat acc"
proof -
  have hi: "unat (drop_bit 16 acc) = unat acc div 65536"
    by (simp only: unat_drop_bit_eq) (simp add: drop_bit_eq_div)
  have "acc AND 0xffff = take_bit 16 acc"
    by (simp add: take_bit_eq_mask mask_eq_exp_minus_1)
  then have lo: "unat (acc AND 0xffff) = unat acc mod 65536"
    by (simp add: unsigned_take_bit_eq) (simp add: take_bit_eq_mod)
  have pos: "unat acc div 65536 \<noteq> 0" using assms hi by (metis unat_eq_zero)
  have e: "unat acc = 65536 * (unat acc div 65536) + unat acc mod 65536" by simp
  have "unat (acc AND 0xffff) + unat (drop_bit 16 acc) < 4294967296"
    using e unat_u32_less [of acc] hi lo by linarith
  then have "unat ((acc AND 0xffff) + drop_bit 16 acc) = unat acc mod 65536 + unat acc div 65536"
    by (simp add: unat_add_u32 hi lo)
  then show ?thesis using e pos by linarith
qed

function fold_acc :: "u32 \<Rightarrow> u32" where
  "fold_acc acc =
     (if drop_bit 16 acc \<noteq> 0 then fold_acc ((acc AND 0xffff) + drop_bit 16 acc) else acc)"
  by pat_completeness auto
termination
  by (relation "measure unat") (auto intro: fold_decreases)

declare fold_acc.simps [simp del]

definition swap_bytes :: "u32 \<Rightarrow> u32" where
  "swap_bytes acc = push_bit 8 (acc AND 0xff) OR drop_bit 8 (acc AND 0xff00)"

text \<open>One buffer of a chain: the running sum and the parity of the bytes so far.\<close>

definition pseudo_step :: "byte list \<Rightarrow> u32 \<times> bool \<Rightarrow> u32 \<times> bool" where
  "pseudo_step q = (\<lambda>(acc, swapped).
     let acc = fold_acc (acc + chksum q) in
     if odd (length q) then (swap_bytes acc, \<not> swapped) else (acc, swapped))"

definition inet_chksum_pseudo ::
  "byte list list \<Rightarrow> addr_ip \<Rightarrow> addr_ip \<Rightarrow> byte \<Rightarrow> u16 \<Rightarrow> u16" where
  "inet_chksum_pseudo p src dest proto proto_len =
     (let (acc, swapped) = fold pseudo_step p (0, False);
          acc = (if swapped then swap_bytes acc else acc);
          acc = acc + (src AND 0xffff) + (drop_bit 16 src AND 0xffff)
                    + (dest AND 0xffff) + (drop_bit 16 dest AND 0xffff)
                    + ucast (htons (ucast proto)) + ucast (htons proto_len)
      in ucast (NOT (fold_acc acc AND 0xffff)))"

definition inet_chksum :: "byte list \<Rightarrow> u16" where
  "inet_chksum bs = ucast (NOT (fold_acc (chksum bs) AND 0xffff))"

text \<open>
  In \<open>inet_chksum_pbuf\<close> the shifts bind tighter than the masks, so the swap of the
  bytes in the loop keeps them where they are.
\<close>

definition pbuf_step :: "byte list \<Rightarrow> u32 \<times> bool \<Rightarrow> u32 \<times> bool" where
  "pbuf_step q = (\<lambda>(acc, swapped).
     let acc = fold_acc (acc + chksum q) in
     if odd (length q)
     then ((acc AND push_bit 8 0xff) OR (acc AND drop_bit 8 0xff00), \<not> swapped)
     else (acc, swapped))"

definition inet_chksum_pbuf :: "byte list list \<Rightarrow> u16" where
  "inet_chksum_pbuf p =
     (let (acc, swapped) = fold pbuf_step p (0, False);
          acc = (if swapped then swap_bytes acc else acc)
      in ucast (NOT (acc AND 0xffff)))"

section \<open>Sums of little-endian words\<close>

fun lsum :: "byte list \<Rightarrow> nat" where
  "lsum (a # b # bs) = unat a + 256 * unat b + lsum bs"
| "lsum [a] = unat a"
| "lsum [] = 0"

text \<open>The representative of a sum modulo 65535 that folding computes: 0 only for 0.\<close>

definition osum :: "nat \<Rightarrow> nat" where
  "osum s = (if s = 0 then 0 else Suc ((s - 1) mod 65535))"

lemma osum_mod: "osum s mod 65535 = s mod 65535"
proof (cases s)
  case (Suc n)
  then show ?thesis by (simp add: osum_def mod_Suc_eq)
qed (simp add: osum_def)

lemma osum_le: "osum s \<le> 65535" and osum_0 [simp]: "osum s = 0 \<longleftrightarrow> s = 0"
  by (auto simp: osum_def Suc_le_eq)

lemma osum_id: "s \<le> 65535 \<Longrightarrow> osum s = s"
  by (cases s) (auto simp: osum_def)

lemma osum_eqI:
  assumes "s mod 65535 = t mod 65535" and "s = 0 \<longleftrightarrow> t = 0"
  shows "osum s = osum t"
proof -
  have "(u - 1) mod 65535 = (u mod 65535 + 65534) mod 65535" if "u \<noteq> 0" for u :: nat
  proof -
    have "(u - 1) mod 65535 = (u - 1 + 65535) mod 65535" by (simp only: mod_add_self2)
    also have "u - 1 + 65535 = u + 65534" using that by simp
    finally show ?thesis by (simp only: mod_add_left_eq)
  qed
  from this [of s] this [of t] show ?thesis
    using assms by (cases "s = 0") (simp_all add: osum_def)
qed

lemma unat_and_ffff: "unat ((x :: u32) AND 0xffff) = unat x mod 65536"
proof -
  have "x AND 0xffff = take_bit 16 x" by (simp add: take_bit_eq_mask mask_eq_exp_minus_1)
  then show ?thesis by (simp add: unsigned_take_bit_eq) (simp add: take_bit_eq_mod)
qed

lemma unat_hi16: "unat (drop_bit 16 (x :: u32)) = unat x div 65536"
  by (simp only: unat_drop_bit_eq) (simp add: drop_bit_eq_div)

lemma unat_fold_acc: "unat (fold_acc acc) = osum (unat acc)"
proof (induction acc rule: fold_acc.induct)
  case (1 acc)
  show ?case
  proof (cases "drop_bit 16 acc = 0")
    case True
    then have "unat acc div 65536 = 0" using unat_hi16 [of acc] by simp
    then have "unat acc \<le> 65535" by (simp add: div_eq_0_iff)
    then show ?thesis using True by (subst fold_acc.simps) (simp add: osum_id)
  next
    case False
    let ?n = "(acc AND 0xffff) + drop_bit 16 acc"
    have e: "unat acc = 65535 * (unat acc div 65536) + (unat acc mod 65536 + unat acc div 65536)" by simp
    have n: "unat ?n = unat acc mod 65536 + unat acc div 65536"
      using unat_u32_less [of acc] e by (subst unat_add_u32) (simp_all add: unat_and_ffff unat_hi16)
    have "unat acc mod 65535 = unat ?n mod 65535" using e n by (metis mod_mult_self4)
    moreover have "unat acc = 0 \<longleftrightarrow> unat ?n = 0" using e n by linarith
    ultimately have "osum (unat acc) = osum (unat ?n)" by (rule osum_eqI)
    then show ?thesis using 1 [OF False] False by (subst fold_acc.simps) simp
  qed
qed

lemma unat_word_le: "unat ((ucast (a :: byte) :: u32) OR push_bit 8 (ucast (b :: byte))) = unat a + 256 * unat b"
proof -
  have "(ucast a :: u32) AND push_bit 8 (ucast b) = 0"
    by (rule bit_word_eqI) (auto simp: bit_simps dest: bit_imp_le_length)
  then have "(ucast a :: u32) OR push_bit 8 (ucast b) = ucast a + push_bit 8 (ucast b)"
    by (simp add: disjunctive_add_eq_or)
  then show ?thesis
    using unat_u8_less [of a] unat_u8_less [of b] by (simp add: unat_add_u32 unat_push_byte)
qed

lemma odd_byte: "ucast (htons (ucast (push_bit 8 (ucast (a :: byte) AND 0xff :: u32)))) = (ucast a :: u32)"
proof -
  have "(ucast a AND 0xff :: u32) = take_bit 8 (ucast a)"
    by (simp add: take_bit_eq_mask mask_eq_exp_minus_1)
  also have "\<dots> = ucast a" by (rule bit_word_eqI) (auto simp: bit_simps dest: bit_imp_le_length)
  finally show ?thesis
    unfolding ntohs_def by (simp only:) (rule bit_word_eqI, auto simp: bit_simps dest: bit_imp_le_length)
qed

lemma lsum_le: "lsum bs \<le> 65535 * ((length bs + 1) div 2)"
proof (induction bs rule: lsum.induct)
  case (1 a b bs)
  then show ?case using unat_u8_less [of a] unat_u8_less [of b] by simp
next
  case (2 a)
  then show ?case using unat_u8_less [of a] by simp
qed simp

lemma unat_chksum_from:
  "unat acc + 65535 * ((length bs + 1) div 2) < 2 ^ 32 \<Longrightarrow> unat (chksum_from acc bs) = unat acc + lsum bs"
proof (induction acc bs rule: chksum_from.induct)
  case (1 acc a b bs)
  have w: "unat a + 256 * unat b \<le> 65535" using unat_u8_less [of a] unat_u8_less [of b] by simp
  have s: "unat (acc + (ucast a OR push_bit 8 (ucast b))) = unat acc + (unat a + 256 * unat b)"
    using 1(2) w by (subst unat_add_u32) (simp_all add: unat_word_le)
  have "unat (acc + (ucast a OR push_bit 8 (ucast b))) + 65535 * ((length bs + 1) div 2) < 2 ^ 32"
    using 1(2) w s by simp
  from 1(1) [OF this] s show ?case by simp
next
  case (2 acc a)
  have "unat (acc + ucast a) = unat acc + unat a"
    using 2 unat_u8_less [of a] by (subst unat_add_u32) simp_all
  then show ?case by (simp only: chksum_from.simps odd_byte lsum.simps)
qed simp

lemma unat_chksum: "length bs < 131000 \<Longrightarrow> unat (chksum bs) = lsum bs"
proof -
  assume "length bs < 131000"
  then have "65535 * ((length bs + 1) div 2) \<le> 65535 * (65500 :: nat)"
    by (intro mult_le_mono2) linarith
  then have "unat (0 :: u32) + 65535 * ((length bs + 1) div 2) < 2 ^ 32" by simp
  from unat_chksum_from [OF this] show ?thesis by (simp add: chksum_def)
qed

section \<open>Cutting the data into buffers\<close>

lemma lsum_Cons:
  "lsum (a # ys) mod 65535 = (unat a + 256 * lsum ys) mod 65535 \<and> (lsum (a # ys) = 0 \<longleftrightarrow> unat a = 0 \<and> lsum ys = 0)"
proof (induction ys arbitrary: a rule: lsum.induct)
  case (1 c d zs)
  have "(unat a + 256 * unat c + lsum (d # zs)) mod 65535
      = (unat a + 256 * unat c + (unat d + 256 * lsum zs)) mod 65535"
    by (rule mod_add_cong [OF refl]) (use 1 [of d] in blast)
  also have "\<dots> = (unat a + 256 * unat c + (unat d + 256 * lsum zs) + 65535 * unat d) mod 65535"
    by (simp only: mod_mult_self2)
  also have "unat a + 256 * unat c + (unat d + 256 * lsum zs) + 65535 * unat d
      = unat a + 256 * lsum (c # d # zs)" by simp
  finally show ?case using 1 [of d] by auto
qed simp_all

lemma lsum_append:
  "lsum (xs @ ys) mod 65535 = (lsum xs + (if even (length xs) then lsum ys else 256 * lsum ys)) mod 65535
   \<and> (lsum (xs @ ys) = 0 \<longleftrightarrow> lsum xs = 0 \<and> lsum ys = 0)"
proof (induction xs rule: lsum.induct)
  case (1 a b bs)
  have "(unat a + 256 * unat b + lsum (bs @ ys)) mod 65535
      = (unat a + 256 * unat b + (lsum bs + (if even (length bs) then lsum ys else 256 * lsum ys))) mod 65535"
    by (rule mod_add_cong [OF refl]) (use 1 in blast)
  then show ?case using 1 by (simp add: add.assoc)
next
  case (2 a)
  then show ?case using lsum_Cons [of a ys] by simp
qed simp

lemma lsum_even: "even (length xs) \<Longrightarrow> lsum (xs @ ys) = lsum xs + lsum ys"
  by (induction xs rule: lsum.induct) simp_all

lemma unat_swap_bytes:
  assumes "unat x \<le> 65535"
  shows "unat (swap_bytes x) = osum (256 * unat x)"
proof -
  define a b where "a = (ucast x :: byte)" and "b = (ucast (drop_bit 8 x) :: byte)"
  have lt: "n < 16" if "bit x n" for n
  proof -
    have "x = take_bit 16 x"
      using assms by (simp add: take_bit_eq_mod word_unat_eq_iff unat_mod unsigned_take_bit_eq)
    then show ?thesis using that by (metis bit_take_bit_iff)
  qed
  have x: "x = ucast a OR push_bit 8 (ucast b)" unfolding a_def b_def
    by (rule bit_word_eqI) (auto simp: bit_simps dest: lt)
  have m: "x AND 0xff = take_bit 8 x" "x AND 0xff00 = push_bit 8 (take_bit 8 (drop_bit 8 x))"
  proof -
    show "x AND 0xff = take_bit 8 x" by (simp add: take_bit_eq_mask mask_eq_exp_minus_1)
    have "x AND 0xff00 = x AND push_bit 8 (mask 8)" by (simp add: mask_eq_exp_minus_1 push_bit_eq_mult)
    also have "\<dots> = push_bit 8 (take_bit 8 (drop_bit 8 x))"
      by (rule bit_word_eqI) (auto simp: bit_simps)
    finally show "x AND 0xff00 = push_bit 8 (take_bit 8 (drop_bit 8 x))" .
  qed
  have "swap_bytes x = ucast b OR push_bit 8 (ucast a)"
    unfolding swap_bytes_def m a_def b_def
    by (rule bit_word_eqI) (auto simp: bit_simps)
  then have s: "unat (swap_bytes x) = unat b + 256 * unat a" by (simp only: unat_word_le)
  have ux: "unat x = unat a + 256 * unat b" by (subst x) (simp only: unat_word_le)
  have "256 * unat x = unat b + 256 * unat a + 65535 * unat b" using ux by simp
  then have "(256 * unat x) mod 65535 = (unat b + 256 * unat a) mod 65535" by (simp only: mod_mult_self2)
  then have "osum (256 * unat x) = osum (unat b + 256 * unat a)"
    using ux by (intro osum_eqI) auto
  then show ?thesis
    using s unat_u8_less [of a] unat_u8_less [of b] by (simp add: osum_id)
qed

text \<open>What the loop over a chain has computed after the bytes \<open>t\<close>.\<close>

definition partial :: "byte list \<Rightarrow> u32 \<times> bool \<Rightarrow> bool" where
  "partial t s \<longleftrightarrow> snd s = odd (length t) \<and> unat (fst s) = osum (if odd (length t) then 256 * lsum t else lsum t)"

lemma osum_256_osum: "osum (256 * osum s) = osum (256 * s)"
proof (rule osum_eqI)
  show "(256 * osum s) mod 65535 = (256 * s) mod 65535"
    by (rule mod_mult_cong [OF refl osum_mod])
qed simp

lemma osum_mult_256: "osum (256 * osum (256 * s)) = osum s"
proof (rule osum_eqI)
  have "(256 * osum (256 * s)) mod 65535 = (256 * (256 * s)) mod 65535"
    by (rule mod_mult_cong [OF refl osum_mod])
  also have "\<dots> = (s + 65535 * s) mod 65535" by simp
  also have "\<dots> = s mod 65535" by (simp only: mod_mult_self2)
  finally show "(256 * osum (256 * s)) mod 65535 = s mod 65535" .
qed simp

lemma partial_sum:
  assumes "partial t (acc, sw)" and "length q < 131000"
  shows "unat (fold_acc (acc + chksum q)) = osum (if odd (length t) then 256 * lsum (t @ q) else lsum (t @ q))"
proof -
  have acc: "unat acc = osum (if odd (length t) then 256 * lsum t else lsum t)"
    using assms(1) by (simp add: partial_def)
  have "lsum q \<le> 65535 * 65500" using lsum_le [of q] assms(2) by simp
  moreover have "unat acc \<le> 65535" using osum_le by (simp add: acc)
  ultimately have "unat (acc + chksum q) = unat acc + lsum q"
    using unat_chksum [OF assms(2)] by (subst unat_add_u32) simp_all
  then have 1: "unat (fold_acc (acc + chksum q)) = osum (unat acc + lsum q)"
    by (simp add: unat_fold_acc)
  note ap = lsum_append [of t q]
  show ?thesis
  proof (cases "odd (length t)")
    case False
    have "(osum (lsum t) + lsum q) mod 65535 = (lsum t + lsum q) mod 65535"
      by (rule mod_add_cong [OF osum_mod refl])
    then have "osum (osum (lsum t) + lsum q) = osum (lsum (t @ q))"
      using ap False by (intro osum_eqI) simp_all
    then show ?thesis using 1 acc False by simp
  next
    case True
    have "(256 * lsum (t @ q)) mod 65535 = (256 * (lsum t + 256 * lsum q)) mod 65535"
      by (rule mod_mult_cong [OF refl]) (use ap True in simp)
    also have "256 * (lsum t + 256 * lsum q) = 256 * lsum t + lsum q + 65535 * lsum q" by simp
    also have "\<dots> mod 65535 = (256 * lsum t + lsum q) mod 65535" by (simp only: mod_mult_self2)
    also have "\<dots> = (osum (256 * lsum t) + lsum q) mod 65535"
      by (rule mod_add_cong [OF osum_mod [symmetric] refl])
    finally have "osum (osum (256 * lsum t) + lsum q) = osum (256 * lsum (t @ q))"
      using ap True by (intro osum_eqI) simp_all
    then show ?thesis using 1 acc True by simp
  qed
qed

lemma partial_step:
  assumes "partial t s" and "length q < 131000"
  shows "partial (t @ q) (pseudo_step q s)"
proof -
  obtain acc sw where s: "s = (acc, sw)" by (cases s)
  let ?a = "fold_acc (acc + chksum q)"
  have a: "unat ?a = osum (if odd (length t) then 256 * lsum (t @ q) else lsum (t @ q))"
    using partial_sum assms s by blast
  then have "unat (swap_bytes ?a) = osum (if odd (length t) then lsum (t @ q) else 256 * lsum (t @ q))"
    using osum_le osum_mult_256 [of "lsum (t @ q)"] osum_256_osum [of "lsum (t @ q)"]
    by (subst unat_swap_bytes) auto
  with a show ?thesis
    using assms(1) s by (auto simp: partial_def pseudo_step_def Let_def)
qed

lemma partial_fold:
  assumes "\<forall>q\<in>set qs. length q < 131000" and "partial t s"
  shows "partial (t @ concat qs) (fold pseudo_step qs s)"
  using assms
proof (induction qs arbitrary: t s)
  case (Cons q qs)
  then have "partial (t @ q) (pseudo_step q s)" using partial_step by simp
  from Cons.IH [OF _ this] Cons.prems show ?case by simp
qed simp

lemma chain_sum:
  assumes "\<forall>q\<in>set qs. length q < 131000" and "fold pseudo_step qs (0, False) = (acc, sw)"
  shows "unat (if sw then swap_bytes acc else acc) = osum (lsum (concat qs))"
proof -
  have "partial [] (0, False)" by (simp add: partial_def)
  from partial_fold [OF assms(1) this] assms(2)
  have p: "sw = odd (length (concat qs))"
    "unat acc = osum (if odd (length (concat qs)) then 256 * lsum (concat qs) else lsum (concat qs))"
    by (simp_all add: partial_def)
  then show ?thesis using osum_le osum_mult_256 by (auto simp: unat_swap_bytes)
qed

section \<open>The checksum of a segment\<close>

definition bytes4 :: "u32 \<Rightarrow> byte list" where
  "bytes4 a = [ucast a, ucast (drop_bit 8 a), ucast (drop_bit 16 a), ucast (drop_bit 24 a)]"

text \<open>The pseudo header as it would lie in memory.\<close>

definition pseudo_header :: "addr_ip \<Rightarrow> addr_ip \<Rightarrow> byte \<Rightarrow> u16 \<Rightarrow> byte list" where
  "pseudo_header src dest proto len =
     bytes4 src @ bytes4 dest @ [0, proto, ucast (drop_bit 8 len), ucast len]"

lemma lsum_bytes4: "lsum (bytes4 a) = unat (a AND 0xffff) + unat (drop_bit 16 a AND 0xffff)"
proof -
  have "a AND 0xffff = ucast (ucast a :: byte) OR push_bit 8 (ucast (ucast (drop_bit 8 a) :: byte))"
    "drop_bit 16 a AND 0xffff = ucast (ucast (drop_bit 16 a) :: byte) OR push_bit 8 (ucast (ucast (drop_bit 24 a) :: byte))"
  proof -
    have e: "x AND 0xffff = take_bit 16 x" for x :: u32 by (simp add: take_bit_eq_mask mask_eq_exp_minus_1)
    show "a AND 0xffff = ucast (ucast a :: byte) OR push_bit 8 (ucast (ucast (drop_bit 8 a) :: byte))"
      "drop_bit 16 a AND 0xffff = ucast (ucast (drop_bit 16 a) :: byte) OR push_bit 8 (ucast (ucast (drop_bit 24 a) :: byte))"
      unfolding e by (rule bit_word_eqI; auto simp: bit_simps not_less add.commute)+
  qed
  then show ?thesis by (simp only: unat_word_le bytes4_def lsum.simps)
qed

lemma unat_htons: "unat (htons x) = unat (ucast (drop_bit 8 x) :: byte) + 256 * unat (ucast x :: byte)"
proof -
  have "(ucast (htons x) :: u32) = ucast (ucast (drop_bit 8 x) :: byte) OR push_bit 8 (ucast (ucast x :: byte))"
    unfolding ntohs_def by (rule bit_word_eqI) (auto simp: bit_simps dest: bit_imp_le_length)
  then have "unat (ucast (htons x) :: u32) = unat (ucast (drop_bit 8 x) :: byte) + 256 * unat (ucast x :: byte)"
    by (simp only: unat_word_le)
  then show ?thesis by simp
qed

lemma lsum_pseudo_header:
  "lsum (pseudo_header src dest proto len) =
     unat (src AND 0xffff) + unat (drop_bit 16 src AND 0xffff)
     + unat (dest AND 0xffff) + unat (drop_bit 16 dest AND 0xffff)
     + unat (htons (ucast proto :: u16)) + unat (htons len)"
proof -
  have "(ucast (drop_bit 8 (ucast proto :: u16)) :: byte) = 0" "(ucast (ucast proto :: u16) :: byte) = proto"
    by (rule bit_word_eqI; auto simp: bit_simps dest: bit_imp_le_length)+
  then have "lsum [0, proto, ucast (drop_bit 8 len), ucast len] = unat (htons (ucast proto :: u16)) + unat (htons len)"
    by (simp add: unat_htons)
  moreover have "lsum (bytes4 src @ bytes4 dest @ ys) = lsum (bytes4 src) + (lsum (bytes4 dest) + lsum ys)" for ys
    by (subst lsum_even, simp add: bytes4_def, subst lsum_even, simp_all add: bytes4_def)
  ultimately show ?thesis by (simp add: pseudo_header_def lsum_bytes4)
qed

lemma unat_complement:
  assumes "unat (y :: u32) \<le> 65535"
  shows "unat (ucast (NOT (y AND 0xffff)) :: u16) = 65535 - unat y"
proof -
  have y: "y AND 0xffff = y" using assms by (simp add: word_unat_eq_iff unat_and_ffff)
  have "(ucast (NOT y) :: u16) = NOT (ucast y)" by (rule bit_word_eqI) (auto simp: bit_simps)
  moreover have "NOT x = - 1 - x" for x :: u16 by (simp add: not_eq_complement)
  moreover have "unat (- 1 - x) = unat (- 1 :: u16) - unat x" for x :: u16
    by (rule unat_sub) simp
  moreover have "unat (- 1 :: u16) = 65535"
    by (simp add: unsigned_minus_1_eq_mask mask_eq_exp_minus_1)
  moreover have "unat (ucast y :: u16) = unat y" using assms by (simp add: unat_ucast_u32_u16)
  ultimately show ?thesis by (simp add: y)
qed

lemma unat_inet_chksum:
  assumes "length bs < 131000"
  shows "unat (inet_chksum bs) = 65535 - osum (lsum bs)"
  unfolding inet_chksum_def using osum_le
  by (subst unat_complement) (simp_all add: unat_fold_acc unat_chksum [OF assms])

lemma unat_inet_chksum_pseudo:
  assumes "\<forall>q\<in>set qs. length q < 131000"
  shows "unat (inet_chksum_pseudo qs src dest proto len)
       = 65535 - osum (lsum (concat qs) + lsum (pseudo_header src dest proto len))"
proof -
  obtain acc sw where f: "fold pseudo_step qs (0, False) = (acc, sw)" by fastforce
  define a where "a = (if sw then swap_bytes acc else acc)"
  have a: "unat a = osum (lsum (concat qs))" unfolding a_def by (rule chain_sum [OF assms f])
  define t where "t = a + (src AND 0xffff) + (drop_bit 16 src AND 0xffff)
      + (dest AND 0xffff) + (drop_bit 16 dest AND 0xffff) + ucast (htons (ucast proto :: u16)) + ucast (htons len)"
  have m: "unat (x AND 0xffff) \<le> 65535" for x :: u32 by (simp add: unat_and_ffff)
  have "unat t = osum (lsum (concat qs)) + lsum (pseudo_header src dest proto len)"
    unfolding t_def lsum_pseudo_header
    using m [of src] m [of "drop_bit 16 src"] m [of dest] m [of "drop_bit 16 dest"]
      unat_u16_le [of "htons (ucast proto)"] unat_u16_le [of "htons len"] osum_le [of "lsum (concat qs)"]
    by (simp add: unat_add_u32 a)
  moreover have "osum (osum x + y) = osum (x + y)" for x y
  proof (rule osum_eqI)
    show "(osum x + y) mod 65535 = (x + y) mod 65535" by (rule mod_add_cong [OF osum_mod refl])
  qed simp
  ultimately have "unat (fold_acc t) = osum (lsum (concat qs) + lsum (pseudo_header src dest proto len))"
    by (simp add: unat_fold_acc)
  then have "unat (ucast (NOT (fold_acc t AND 0xffff)) :: u16)
      = 65535 - osum (lsum (concat qs) + lsum (pseudo_header src dest proto len))"
    using osum_le by (subst unat_complement) simp_all
  moreover have "inet_chksum_pseudo qs src dest proto len = ucast (NOT (fold_acc t AND 0xffff))"
    by (simp add: inet_chksum_pseudo_def f t_def a_def Let_def)
  ultimately show ?thesis by simp
qed

lemma inet_chksum_pseudo_eq:
  assumes "length (concat qs) < 130000"
  shows "inet_chksum_pseudo qs src dest proto len = inet_chksum (pseudo_header src dest proto len @ concat qs)"
proof -
  have "length q \<le> length (concat qs)" if "q \<in> set qs" for q
    using that by (induction qs) auto
  then have "\<forall>q\<in>set qs. length q < 131000" using assms by fastforce
  moreover have ph: "length (pseudo_header src dest proto len) = 12" by (simp add: pseudo_header_def bytes4_def)
  moreover from ph have "lsum (pseudo_header src dest proto len @ concat qs)
      = lsum (concat qs) + lsum (pseudo_header src dest proto len)"
    by (subst lsum_even) simp_all
  ultimately have "unat (inet_chksum_pseudo qs src dest proto len)
      = unat (inet_chksum (pseudo_header src dest proto len @ concat qs))"
    using assms by (simp add: unat_inet_chksum unat_inet_chksum_pseudo)
  then show ?thesis by (simp add: word_unat_eq_iff)
qed

section \<open>Agreement with the checksum of the router\<close>

lemma u16_le: "unat (ntohs (u16_at (a # b # bs) 0)) = 256 * unat a + unat b"
proof -
  have "u16_at (a # b # bs) 0 = ucast a OR push_bit 8 (ucast b)" by (simp add: u16_at_def u8_at_def)
  moreover have "(ucast (drop_bit 8 ((ucast a :: u16) OR push_bit 8 (ucast b))) :: byte) = b"
    "(ucast ((ucast a :: u16) OR push_bit 8 (ucast b)) :: byte) = a"
    by (rule bit_word_eqI; auto simp: bit_simps dest: bit_imp_le_length)+
  ultimately show ?thesis by (simp add: unat_htons)
qed

lemma region_sum_lsum:
  "n \<le> length bs \<Longrightarrow> 256 * region_sum bs n mod 65535 = lsum (take n bs) mod 65535
     \<and> (region_sum bs n = 0 \<longleftrightarrow> lsum (take n bs) = 0)"
proof (induction n arbitrary: bs rule: less_induct)
  case (less n)
  consider "n = 0" | "n = 1" | m where "n = Suc (Suc m)" by (metis One_nat_def nat.exhaust)
  then show ?case
  proof cases
    case 1
    then show ?thesis by (simp add: region_sum_def wsum_def)
  next
    case 2
    then obtain a cs where bs: "bs = a # cs" using less.prems by (cases bs) auto
    have "256 * (256 * unat a) = unat a + 65535 * unat a" by simp
    then have "256 * (256 * unat a) mod 65535 = unat a mod 65535" by (simp only: mod_mult_self2)
    then show ?thesis using 2 bs by (simp add: region_sum_def wsum_def u8_at_def)
  next
    case (3 m)
    then obtain a b cs where bs: "bs = a # b # cs" using less.prems
      by (metis Suc_le_length_iff)
    have r: "region_sum bs n = 256 * unat a + unat b + region_sum cs m"
      using 3 bs u16_le [of a b cs] by (cases m) (auto simp: region_sum_def wsum_Suc u8_at_def)
    have ih: "256 * region_sum cs m mod 65535 = lsum (take m cs) mod 65535"
      "region_sum cs m = 0 \<longleftrightarrow> lsum (take m cs) = 0"
      using less.IH [of m cs] less.prems 3 bs by simp_all
    have "256 * region_sum bs n = (unat a + 256 * unat b + 256 * region_sum cs m) + 65535 * unat a"
      using r by simp
    then have "256 * region_sum bs n mod 65535 = (unat a + 256 * unat b + 256 * region_sum cs m) mod 65535"
      by (simp only: mod_mult_self2)
    also have "\<dots> = (unat a + 256 * unat b + lsum (take m cs)) mod 65535"
      by (rule mod_add_cong [OF refl ih(1)])
    finally show ?thesis using r ih(2) 3 bs by simp
  qed
qed

lemma unat_htons_swap: "unat (htons x) = osum (256 * unat x)"
proof -
  let ?lo = "ucast x :: byte" and ?hi = "ucast (drop_bit 8 x) :: byte"
  have "(ucast x :: u32) = ucast ?lo OR push_bit 8 (ucast ?hi)"
    by (rule bit_word_eqI) (auto simp: bit_simps dest: bit_imp_le_length)
  then have "unat (ucast x :: u32) = unat ?lo + 256 * unat ?hi" by (simp only: unat_word_le)
  then have "256 * unat x = (unat ?hi + 256 * unat ?lo) + 65535 * unat ?hi" by simp
  then have "256 * unat x mod 65535 = (unat ?hi + 256 * unat ?lo) mod 65535" "256 * unat x = 0 \<longleftrightarrow> unat ?hi + 256 * unat ?lo = 0"
    by (simp_all only: mod_mult_self2) auto
  then have "osum (256 * unat x) = osum (unat ?hi + 256 * unat ?lo)" by (rule osum_eqI)
  then show ?thesis
    using unat_u8_less [of ?lo] unat_u8_less [of ?hi] by (simp add: unat_htons osum_id)
qed

lemma osum_compl:
  assumes "r \<le> 65535"
  shows "osum (256 * (65535 - r)) = 65535 - osum (256 * r)"
proof -
  let ?x = "osum (256 * (65535 - r))" and ?y = "osum (256 * r)"
  have div: "u mod 65535 = 0" if "osum (256 * u) = 65535" for u :: nat
  proof -
    have "osum u = osum (256 * 65535)" using osum_mult_256 [of u] that by simp
    then show ?thesis using osum_mod [of u] by (simp add: osum_def)
  qed
  have "(?x + ?y) mod 65535 = (256 * (65535 - r) + 256 * r) mod 65535"
    by (rule mod_add_cong [OF osum_mod osum_mod])
  also have "256 * (65535 - r) + 256 * r = 256 * 65535" using assms by simp
  finally have m: "(?x + ?y) mod 65535 = 0" by simp
  have b: "?x \<le> 65535" "?y \<le> 65535" by (rule osum_le)+
  have "?x + ?y \<noteq> 0" using assms by auto
  moreover have "\<not> (?x = 65535 \<and> ?y = 65535)"
  proof
    assume "?x = 65535 \<and> ?y = 65535"
    then have "r mod 65535 = 0" "(65535 - r) mod 65535 = 0" "?x \<noteq> 0" "?y \<noteq> 0" using div by auto
    then have "r mod 65535 = 0" "r \<noteq> 0" "r < 65535" by auto
    then show False by simp
  qed
  moreover obtain k where k: "?x + ?y = 65535 * k" using m by (auto simp: mod_eq_0_iff_dvd dvd_def)
  ultimately have "k \<noteq> 0" "65535 * k < 131070" using b by auto
  then have "k = 1" by simp
  with k show ?thesis by simp
qed

text \<open>The two checksum routines of the program compute the same value.\<close>

lemma generatechecksum_inet_chksum:
  assumes "n \<le> length buf" and "n < 131000"
  shows "generatechecksum buf (int n) = Inr (inet_chksum (take n buf))"
proof -
  let ?R = "region_sum buf n" and ?f = "checksum_fold (of_nat (region_sum buf n))"
  have "?R < 2 ^ 32" using region_sum_le [of buf n] assms(2) by (rule region_bound)
  then have "unat (of_nat ?R :: u32) = ?R" by (simp add: unat_of_nat)
  then have f: "unat ?f = 65535 - osum ?R"
    using unat_checksum_fold [of "of_nat ?R"] by (simp add: osum_def flip: unat_eq_zero)
  have "unat (htons ?f) = osum (256 * (65535 - osum ?R))" by (simp only: unat_htons_swap f)
  also have "\<dots> = 65535 - osum (256 * ?R)" using osum_compl [OF osum_le] osum_256_osum by simp
  also have "osum (256 * ?R) = osum (lsum (take n buf))"
    using region_sum_lsum [OF assms(1)] by (intro osum_eqI) auto
  finally have "unat (htons ?f) = unat (inet_chksum (take n buf))"
    using assms by (simp add: unat_inet_chksum)
  then show ?thesis
    using generatechecksum_eq [OF assms] by (simp add: word_unat_eq_iff)
qed

text \<open>
  A segment whose checksum field, at an even offset, holds the checksum of the segment
  with the field set to 0.
\<close>

lemma inet_fill_verifies:
  assumes "even off" and "off + 2 \<le> length bs" and "length bs < 130000"
  shows "inet_chksum (put16 off (inet_chksum (put16 off 0 bs)) bs) = 0"
proof -
  let ?c = "inet_chksum (put16 off 0 bs)"
  have len: "length (put16 off v bs) = length bs" for v by (simp add: put16_def put8_def)
  have "generatechecksum (put16 off 0 bs) (int (length bs)) = Inr ?c"
    using generatechecksum_inet_chksum [of "length bs" "put16 off 0 bs"] assms(3) len by simp
  then have "generatechecksum (put16 off ?c bs) (int (length bs)) = Inr 0"
    using checksum_field_verifies [OF assms(1,2) order_refl assms(3)] by simp
  then show ?thesis
    using generatechecksum_inet_chksum [of "length bs" "put16 off ?c bs"] assms(3) len by simp
qed

lemma put16_append: "length xs \<le> i \<Longrightarrow> put16 i v (xs @ ys) = xs @ put16 (i - length xs) v ys"
  by (simp add: put16_def put8_def list_update_append Suc_diff_le)

text \<open>
  C19: the checksum of a chain of packet buffers.  However the segment is cut into
  buffers, of odd lengths as well, \<open>inet_chksum_pseudo\<close> is the checksum that
  \<open>generatechecksum\<close> computes over the pseudo header and the bytes of the segment.
\<close>

theorem inet_chksum_pseudo_chunks:
  assumes "length (concat qs) < 130000"
  shows "generatechecksum (pseudo_header src dest proto len @ concat qs) (int (12 + length (concat qs)))
       = Inr (inet_chksum_pseudo qs src dest proto len)"
proof -
  have "length (pseudo_header src dest proto len) = 12" by (simp add: pseudo_header_def bytes4_def)
  then show ?thesis
    using generatechecksum_inet_chksum [of "12 + length (concat qs)" "pseudo_header src dest proto len @ concat qs"] assms
    by (simp add: inet_chksum_pseudo_eq)
qed

theorem inet_chksum_pseudo_chunks_witness:
  "generatechecksum (pseudo_header 1 2 6 5 @ concat [[1], [2, 3, 4], [5 :: byte]]) (int (12 + length (concat [[1], [2, 3, 4], [5 :: byte]])))
     = Inr (inet_chksum_pseudo [[1], [2, 3, 4], [5]] 1 2 6 5)"
  by (rule inet_chksum_pseudo_chunks) simp

lemma pseudo_fill_verifies:
  assumes "18 \<le> length s" and "length s < 100000"
    and "c = inet_chksum_pseudo [put16 16 0 s] src dest proto len" and "concat qs = put16 16 c s"
  shows "inet_chksum_pseudo qs src dest proto len = 0"
proof -
  let ?ph = "pseudo_header src dest proto len"
  have ph: "length ?ph = 12" by (simp add: pseudo_header_def bytes4_def)
  have len: "length (put16 16 v s) = length s" for v by (simp add: put16_def put8_def)
  have app: "put16 28 v (?ph @ s) = ?ph @ put16 16 v s" for v by (simp add: put16_append ph)
  have c: "c = inet_chksum (put16 28 0 (?ph @ s))"
    unfolding app assms(3) using inet_chksum_pseudo_eq [of "[put16 16 0 s]" src dest proto len] assms(2) len by simp
  have "inet_chksum (put16 28 c (?ph @ s)) = 0"
    using inet_fill_verifies [of 28 "?ph @ s"] assms(1,2) ph by (simp add: c)
  then show ?thesis
    using inet_chksum_pseudo_eq [of qs src dest proto len] assms(2,4) len by (simp add: app)
qed

text \<open>
  C23: a segment that \<open>tcp_output\<close> sent passes the test of \<open>tcp_input\<close>: when the checksum
  field of the header holds the checksum that was computed with the field set to 0, the
  checksum over the received segment is 0, in whatever buffers it arrives.
\<close>

theorem tcp_checksum_roundtrip:
  assumes "18 \<le> length s" and "length s < 100000"
    and "c = inet_chksum_pseudo [put16 16 0 s] src dest proto len" and "concat qs = put16 16 c s"
  shows "inet_chksum_pseudo qs src dest proto len = 0"
  using assms by (rule pseudo_fill_verifies)

theorem tcp_checksum_roundtrip_witness:
  "inet_chksum_pseudo [take 7 (put16 16 (inet_chksum_pseudo [put16 16 0 (replicate 21 3)] 1 2 6 21) (replicate 21 3)),
      drop 7 (put16 16 (inet_chksum_pseudo [put16 16 0 (replicate 21 3)] 1 2 6 21) (replicate 21 3))] 1 2 6 21 = 0"
  by (rule tcp_checksum_roundtrip [OF _ _ refl]) simp_all

section \<open>The chain without a pseudo header\<close>

text \<open>
  The swap in the loop of \<open>inet_chksum_pbuf\<close> does nothing, the one at its end does: a chain with a
  buffer of odd length gets a wrong checksum.
\<close>

lemma pbuf_step_even: "even (length q) \<Longrightarrow> pbuf_step q = pseudo_step q"
  by (auto simp: pbuf_step_def pseudo_step_def fun_eq_iff Let_def)

lemma inet_chksum_pbuf_even:
  assumes "\<forall>q\<in>set qs. even (length q)" and "length (concat qs) < 130000"
  shows "inet_chksum_pbuf qs = inet_chksum (concat qs)"
proof -
  have "fold pbuf_step qs s = fold pseudo_step qs s" for s
    using assms(1) by (induction qs arbitrary: s) (auto simp: pbuf_step_even)
  moreover obtain acc sw where f: "fold pseudo_step qs (0, False) = (acc, sw)" by fastforce
  have "length q \<le> length (concat qs)" if "q \<in> set qs" for q
    using that by (induction qs) auto
  then have "\<forall>q\<in>set qs. length q < 131000" using assms(2) by fastforce
  then have u: "unat (if sw then swap_bytes acc else acc) = osum (lsum (concat qs))"
    by (rule chain_sum [OF _ f])
  moreover have "inet_chksum_pbuf qs = ucast (NOT ((if sw then swap_bytes acc else acc) AND 0xffff))"
    using calculation(1) f by (simp add: inet_chksum_pbuf_def Let_def)
  ultimately have "unat (inet_chksum_pbuf qs) = unat (inet_chksum (concat qs))"
    using assms(2) osum_le by (simp only: unat_complement unat_inet_chksum)
  then show ?thesis by (simp add: word_unat_eq_iff)
qed

lemma inet_chksum_pbuf_odd:
  "inet_chksum [0x12, 0x34, 0x22, 0xcb, 0xcb] = 0"
  "inet_chksum_pbuf [[0x12], [0x34, 0x22, 0xcb, 0xcb]] \<noteq> 0"
  by code_simp+

end
