(* ===== verification/LwTcp.thy ===== *)
theory LwTcp
  imports LwInet
begin

text \<open>
  The data of the TCP implementation (\<open>lwtcp/lwip/tcp.h\<close>, \<open>lwtcp/pbuf.c\<close>): protocol control
  blocks (PCBs), segments, the chains of packet buffers they carry, and the global
  variables of \<open>tcp.c\<close>.

  A PCB is named by a number that stands for its address; a PCB that was freed has no
  entry in \<open>t_pcbs\<close>.  The linked lists of PCBs and of segments are lists.  A chain of
  packet buffers is the list of the payloads of its buffers together with the field
  \<open>tot_len\<close> of its first buffer, which the code keeps separately.  On the sending side
  the payloads are those behind the TCP header, whose fields are fields of the segment.
  The pools of \<open>memp.c\<close> are counted; whether the heap has room for a buffer is up to the
  environment.
\<close>

section \<open>Constants\<close>

definition TCP_FIN :: byte where "TCP_FIN = 0x01"
definition TCP_SYN :: byte where "TCP_SYN = 0x02"
definition TCP_RST :: byte where "TCP_RST = 0x04"
definition TCP_PSH :: byte where "TCP_PSH = 0x08"
definition TCP_ACK :: byte where "TCP_ACK = 0x10"

definition TF_ACK_DELAY :: byte where "TF_ACK_DELAY = 0x01"
definition TF_ACK_NOW :: byte where "TF_ACK_NOW = 0x02"
definition TF_INFR :: byte where "TF_INFR = 0x04"
definition TF_RESET :: byte where "TF_RESET = 0x08"
definition TF_CLOSED :: byte where "TF_CLOSED = 0x10"
definition TF_GOT_FIN :: byte where "TF_GOT_FIN = 0x20"

definition TCP_HLEN :: u16 where "TCP_HLEN = 20"
definition TCP_MSS :: u16 where "TCP_MSS = 128"
definition TCP_WND :: u16 where "TCP_WND = 1024"
definition TCP_SND_BUF :: u16 where "TCP_SND_BUF = 256"
definition TCP_SND_QUEUELEN :: byte where "TCP_SND_QUEUELEN = 8"
definition TCP_MAXRTX :: byte where "TCP_MAXRTX = 12"
definition TCP_SYNMAXRTX :: byte where "TCP_SYNMAXRTX = 4"
definition TCP_SLOW_INTERVAL :: nat where "TCP_SLOW_INTERVAL = 500"
definition IP_PROTO_TCP :: byte where "IP_PROTO_TCP = 6"

datatype err =
    ERR_OK | ERR_MEM | ERR_BUF | ERR_ABRT | ERR_RST | ERR_CLSD | ERR_CONN | ERR_VAL | ERR_ARG
  | ERR_RTE | ERR_USE

datatype tcp_state =
    CLOSED | LISTEN | SYN_SENT | SYN_RCVD | ESTABLISHED | FIN_WAIT_1 | FIN_WAIT_2 | CLOSE_WAIT
  | CLOSING | LAST_ACK | TIME_WAIT

primrec state_num :: "tcp_state \<Rightarrow> nat" where
  "state_num CLOSED = 0"
| "state_num LISTEN = 1"
| "state_num SYN_SENT = 2"
| "state_num SYN_RCVD = 3"
| "state_num ESTABLISHED = 4"
| "state_num FIN_WAIT_1 = 5"
| "state_num FIN_WAIT_2 = 6"
| "state_num CLOSE_WAIT = 7"
| "state_num CLOSING = 8"
| "state_num LAST_ACK = 9"
| "state_num TIME_WAIT = 10"

section \<open>Sequence numbers\<close>

definition TCP_SEQ_LT :: "u32 \<Rightarrow> u32 \<Rightarrow> bool" where "TCP_SEQ_LT a b \<longleftrightarrow> sint (a - b) < 0"
definition TCP_SEQ_LEQ :: "u32 \<Rightarrow> u32 \<Rightarrow> bool" where "TCP_SEQ_LEQ a b \<longleftrightarrow> sint (a - b) \<le> 0"
definition TCP_SEQ_GT :: "u32 \<Rightarrow> u32 \<Rightarrow> bool" where "TCP_SEQ_GT a b \<longleftrightarrow> sint (a - b) > 0"
definition TCP_SEQ_GEQ :: "u32 \<Rightarrow> u32 \<Rightarrow> bool" where "TCP_SEQ_GEQ a b \<longleftrightarrow> sint (a - b) \<ge> 0"

section \<open>Packet buffers\<close>

record pchain =
  p_tot :: u16
  p_bufs :: "byte list list"

definition pbuf_clen :: "pchain \<Rightarrow> byte" where
  "pbuf_clen p = of_nat (length (p_bufs p))"

definition pbuf_chain :: "pchain \<Rightarrow> pchain \<Rightarrow> pchain" where
  "pbuf_chain h t = \<lparr>p_tot = p_tot h + p_tot t, p_bufs = p_bufs h @ p_bufs t\<rparr>"

text \<open>\<open>pbuf_header\<close> with a negative size: the payload of the first buffer begins \<open>n\<close> bytes later.\<close>

definition pbuf_drop :: "nat \<Rightarrow> pchain \<Rightarrow> pchain result" where
  "pbuf_drop n p =
     (case p_bufs p of
        [] \<Rightarrow> Inl NullDeref
      | b # bs \<Rightarrow> need (n \<le> length b) OutOfBounds
          (Inr \<lparr>p_tot = p_tot p - of_nat n, p_bufs = drop n b # bs\<rparr>))"

text \<open>\<open>pbuf_realloc\<close>: step over the buffers that stay, cut the next one, free the rest.\<close>

fun cut_bufs :: "nat \<Rightarrow> byte list list \<Rightarrow> byte list list result" where
  "cut_bufs rsize [] = Inl NullDeref"
| "cut_bufs rsize (b # bs) =
     (if rsize > length b then bindr (cut_bufs (rsize - length b) bs) (\<lambda>bs'. Inr (b # bs'))
      else Inr [take rsize b])"

definition pbuf_realloc :: "pchain \<Rightarrow> u16 \<Rightarrow> pchain result" where
  "pbuf_realloc p sz =
     (if p_tot p \<le> sz then Inr p
      else bindr (cut_bufs (unat sz) (p_bufs p)) (\<lambda>bs. Inr \<lparr>p_tot = sz, p_bufs = bs\<rparr>))"

section \<open>Segments and control blocks\<close>

record tcp_seg =
  seg_p :: "pchain option"
  seg_len :: u16
  seg_src :: u16
  seg_dest :: u16
  seg_seqno :: u32
  seg_ackno :: u32
  seg_offset :: byte
  seg_flags :: byte
  seg_wnd :: u16

definition TCP_TCPLEN :: "tcp_seg \<Rightarrow> u32" where
  "TCP_TCPLEN s = ucast (seg_len s)
     + (if seg_flags s AND TCP_FIN \<noteq> 0 \<or> seg_flags s AND TCP_SYN \<noteq> 0 then 1 else 0)"

record tcp_pcb =
  state :: tcp_state
  callback_arg :: nat
  has_accept :: bool
  local_ip :: addr_ip
  local_port :: u16
  remote_ip :: addr_ip
  remote_port :: u16
  rcv_nxt :: u32
  rcv_wnd :: u16
  tmr :: u16
  rtime :: byte
  mss :: u16
  flags :: byte
  rttest :: u16
  rtseq :: u32
  sa :: int
  sv :: int
  rto :: u16
  nrtx :: byte
  lastack :: u32
  dupacks :: byte
  cwnd :: u16
  ssthresh :: u16
  snd_nxt :: u32
  snd_max :: u32
  snd_wnd :: u32
  snd_wl1 :: u32
  snd_wl2 :: u32
  snd_lbb :: u32
  snd_buf :: u16
  snd_queuelen :: byte
  has_sent :: bool
  acked :: u16
  has_recv :: bool
  recv_data :: "pchain option"
  has_connected :: bool
  has_poll :: bool
  has_errf :: bool
  polltmr :: byte
  pollinterval :: byte
  unsent :: "tcp_seg list"
  unacked :: "tcp_seg list"
  ooseq :: "tcp_seg list"


text \<open>
  The global variables: the PCBs by address, the three lists, the clock, the static
  counters of \<open>tcp_next_iss\<close> and \<open>tcp_new_port\<close>, what is left in the pools, the number of
  buffers that were asked for so far, and the datagrams handed to \<open>sr_integ_ip_output\<close>.
\<close>

record tcp =
  t_pcbs :: "nat \<Rightarrow> tcp_pcb option"
  t_fresh :: nat
  tcp_listen_pcbs :: "nat list"
  tcp_active_pcbs :: "nat list"
  tcp_tw_pcbs :: "nat list"
  tcp_ticks :: u32
  tcp_timer :: byte
  t_iss :: u32
  t_port :: u16
  t_pcb_free :: nat
  t_lpcb_free :: nat
  t_seg_free :: nat
  t_allocs :: nat
  t_out :: "(addr_ip \<times> addr_ip \<times> byte list) list"

text \<open>
  What the environment decides: the source address \<open>sr_integ_findsrcip\<close> answers for a
  destination, whether the heap has room for the next buffer, and the contents of the
  network mask in the \<open>struct netif\<close> that \<open>sr_transport_input\<close> means to clear.
\<close>

record tcp_env =
  findsrcip :: "addr_ip \<Rightarrow> addr_ip"
  room :: "nat \<Rightarrow> bool"
  netif_mask :: u32

text \<open>The functions an application registers, by the PCB they are called for.\<close>

record app =
  on_accept :: "nat \<Rightarrow> tcp \<Rightarrow> (err \<times> tcp) result"
  on_connected :: "nat \<Rightarrow> tcp \<Rightarrow> (err \<times> tcp) result"
  on_poll :: "nat \<Rightarrow> tcp \<Rightarrow> (err \<times> tcp) result"
  on_sent :: "nat \<Rightarrow> u16 \<Rightarrow> tcp \<Rightarrow> (err \<times> tcp) result"
  on_recv :: "nat \<Rightarrow> pchain option \<Rightarrow> tcp \<Rightarrow> (err \<times> tcp) result"
  on_errf :: "nat \<Rightarrow> err \<Rightarrow> tcp \<Rightarrow> tcp result"

definition pcb_of :: "nat \<Rightarrow> tcp \<Rightarrow> tcp_pcb result" where
  "pcb_of i t = (case t_pcbs t i of None \<Rightarrow> Inl UseAfterFree | Some p \<Rightarrow> Inr p)"

definition set_pcb :: "nat \<Rightarrow> tcp_pcb \<Rightarrow> tcp \<Rightarrow> tcp" where
  "set_pcb i p t = t\<lparr>t_pcbs := (t_pcbs t)(i \<mapsto> p)\<rparr>"

definition upd_pcb :: "nat \<Rightarrow> (tcp_pcb \<Rightarrow> tcp_pcb) \<Rightarrow> tcp \<Rightarrow> tcp result" where
  "upd_pcb i f t = bindr (pcb_of i t) (\<lambda>p. Inr (set_pcb i (f p) t))"

text \<open>An operation on one PCB, whose other effects are on the global variables.\<close>

definition on_pcb :: "nat \<Rightarrow> (tcp_pcb \<Rightarrow> tcp \<Rightarrow> ('a \<times> tcp_pcb \<times> tcp) result) \<Rightarrow> tcp \<Rightarrow> ('a \<times> tcp) result" where
  "on_pcb i f t = bindr (pcb_of i t) (\<lambda>p. bindr (f p t) (\<lambda>(r, p, t). Inr (r, set_pcb i p t)))"

section \<open>Headers on the wire\<close>

definition be16 :: "u16 \<Rightarrow> byte list" where
  "be16 x = [ucast (drop_bit 8 x), ucast x]"

definition be32 :: "u32 \<Rightarrow> byte list" where
  "be32 x = [ucast (drop_bit 24 x), ucast (drop_bit 16 x), ucast (drop_bit 8 x), ucast x]"

text \<open>\<open>struct tcp_hdr\<close>; the checksum is stored as it was computed, the other fields in network order.\<close>

definition tcp_hdr ::
  "u16 \<Rightarrow> u16 \<Rightarrow> u32 \<Rightarrow> u32 \<Rightarrow> byte \<Rightarrow> byte \<Rightarrow> u16 \<Rightarrow> u16 \<Rightarrow> byte list" where
  "tcp_hdr src dest seqno ackno offset fl wnd cs =
     be16 src @ be16 dest @ be32 seqno @ be32 ackno @ [offset, fl] @ be16 wnd
       @ [ucast cs, ucast (drop_bit 8 cs)] @ [0, 0]"

text \<open>The bytes of a segment: the checksum is computed over the chain with the field set to 0.\<close>

definition tcp_wire :: "addr_ip \<Rightarrow> addr_ip \<Rightarrow> (u16 \<Rightarrow> byte list) \<Rightarrow> pchain \<Rightarrow> byte list" where
  "tcp_wire src dest hdr p =
     hdr (inet_chksum_pseudo ((hdr 0 @ concat (take 1 (p_bufs p))) # drop 1 (p_bufs p))
            src dest IP_PROTO_TCP (p_tot p)) @ concat (p_bufs p)"

text \<open>
  \<open>sr_lwip_output\<close> copies the chain into a buffer of \<open>tot_len\<close> bytes and hands it to
  \<open>sr_integ_ip_output\<close>.
\<close>

definition sr_lwip_output :: "pchain \<Rightarrow> addr_ip \<Rightarrow> addr_ip \<Rightarrow> byte list \<Rightarrow> tcp \<Rightarrow> tcp result" where
  "sr_lwip_output p src dst bytes t =
     need (length bytes \<le> unat (p_tot p)) OutOfBounds (
     need (length bytes = unat (p_tot p)) Uninit (
     Inr (t\<lparr>t_out := t_out t @ [(src, dst, bytes)]\<rparr>)))"

definition pbuf_alloc :: "tcp_env \<Rightarrow> tcp \<Rightarrow> bool \<times> tcp" where
  "pbuf_alloc E t = (room E (t_allocs t), t\<lparr>t_allocs := Suc (t_allocs t)\<rparr>)"

end
