(* ===== verification/LwTcpOut.thy ===== *)
theory LwTcpOut
  imports LwTcp
begin

text \<open>
  The output functions of TCP, \<open>lwtcp/tcp_output.c\<close>: queueing of data and control segments,
  transmission within the window, retransmission, and the reset segment.
\<close>

section \<open>Transmission\<close>

definition tcp_output_segment ::
  "tcp_env \<Rightarrow> tcp_seg \<Rightarrow> tcp_pcb \<Rightarrow> tcp \<Rightarrow> (tcp_seg \<times> tcp_pcb \<times> tcp) result" where
  "tcp_output_segment E sg pcb t =
     (let sg = sg\<lparr>seg_ackno := rcv_nxt pcb, seg_wnd := (if rcv_wnd pcb < mss pcb then 0 else rcv_wnd pcb)\<rparr>;
          any = (local_ip pcb = 0) in
      need (any \<longrightarrow> findsrcip E (remote_ip pcb) \<noteq> 0) AssertFail (
      let pcb = (if any then pcb\<lparr>local_ip := findsrcip E (remote_ip pcb)\<rparr> else pcb);
          pcb = pcb\<lparr>rtime := 0\<rparr>;
          pcb = (if rttest pcb = 0 then pcb\<lparr>rttest := ucast (tcp_ticks t), rtseq := seg_seqno sg\<rparr> else pcb) in
      case seg_p sg of
        None \<Rightarrow> Inl NullDeref
      | Some p \<Rightarrow>
          bindr (sr_lwip_output p (local_ip pcb) (remote_ip pcb)
                   (tcp_wire (local_ip pcb) (remote_ip pcb)
                      (tcp_hdr (seg_src sg) (seg_dest sg) (seg_seqno sg) (seg_ackno sg) (seg_offset sg)
                         (seg_flags sg) (seg_wnd sg)) p) t) (\<lambda>t.
            Inr (sg, pcb, t))))"

text \<open>\<open>tcp_seg_free\<close> and \<open>tcp_segs_free\<close> give segments back to their pool.\<close>

definition tcp_seg_free :: "tcp \<Rightarrow> tcp" where
  "tcp_seg_free t = t\<lparr>t_seg_free := Suc (t_seg_free t)\<rparr>"

primrec tcp_segs_free :: "tcp_seg list \<Rightarrow> tcp \<Rightarrow> tcp" where
  "tcp_segs_free [] t = t"
| "tcp_segs_free (s # ss) t = tcp_segs_free ss (tcp_seg_free t)"

definition snd_window :: "tcp_pcb \<Rightarrow> u32" where
  "snd_window pcb = (if snd_wnd pcb < ucast (cwnd pcb) then snd_wnd pcb else ucast (cwnd pcb))"

definition seg_fits :: "u32 \<Rightarrow> tcp_pcb \<Rightarrow> tcp_seg \<Rightarrow> bool" where
  "seg_fits wnd pcb sg \<longleftrightarrow> seg_seqno sg - lastack pcb + ucast (seg_len sg) \<le> wnd"

primrec tcp_output_loop ::
  "tcp_env \<Rightarrow> u32 \<Rightarrow> tcp_seg list \<Rightarrow> tcp_pcb \<Rightarrow> tcp \<Rightarrow> (tcp_pcb \<times> tcp) result" where
  "tcp_output_loop E wnd [] pcb t = Inr (pcb, t)"
| "tcp_output_loop E wnd (sg # segs) pcb t =
     (if seg_fits wnd pcb sg then
        let pcb = pcb\<lparr>rtime := 0, unsent := segs\<rparr>;
            syn_sent = (state pcb = SYN_SENT);
            sg = (if syn_sent then sg else sg\<lparr>seg_flags := seg_flags sg OR TCP_ACK\<rparr>);
            pcb = (if syn_sent then pcb
                   else pcb\<lparr>flags := flags pcb AND NOT (TF_ACK_DELAY OR TF_ACK_NOW)\<rparr>) in
        bindr (tcp_output_segment E sg pcb t) (\<lambda>(sg, pcb, t).
        let pcb = pcb\<lparr>snd_nxt := seg_seqno sg + TCP_TCPLEN sg\<rparr>;
            pcb = (if TCP_SEQ_LT (snd_max pcb) (snd_nxt pcb) then pcb\<lparr>snd_max := snd_nxt pcb\<rparr> else pcb);
            (pcb, t) = (if TCP_TCPLEN sg > 0 then (pcb\<lparr>unacked := unacked pcb @ [sg]\<rparr>, t)
                        else (pcb, tcp_seg_free t)) in
        tcp_output_loop E wnd segs pcb t)
      else Inr (pcb, t))"

text \<open>The empty segment of an acknowledgement or a reset: a header and nothing else.\<close>

definition send_header ::
  "addr_ip \<Rightarrow> addr_ip \<Rightarrow> (u16 \<Rightarrow> byte list) \<Rightarrow> tcp \<Rightarrow> tcp result" where
  "send_header src dest hf t =
     (let p = \<lparr>p_tot = TCP_HLEN, p_bufs = [[]]\<rparr> in
      sr_lwip_output p src dest (tcp_wire src dest hf p) t)"

definition tcp_output :: "tcp_env \<Rightarrow> tcp_pcb \<Rightarrow> tcp \<Rightarrow> (err \<times> tcp_pcb \<times> tcp) result" where
  "tcp_output E pcb t =
     (let wnd = snd_window pcb in
      if flags pcb AND TF_ACK_NOW \<noteq> 0 then
        let pcb = pcb\<lparr>flags := flags pcb AND NOT (TF_ACK_DELAY OR TF_ACK_NOW)\<rparr>;
            (ok, t) = pbuf_alloc E t in
        if \<not> ok then Inr (ERR_BUF, pcb, t)
        else
          bindr (send_header (local_ip pcb) (remote_ip pcb)
                   (tcp_hdr (local_port pcb) (remote_port pcb) (snd_nxt pcb) (rcv_nxt pcb) 0x50 TCP_ACK
                      (rcv_wnd pcb)) t) (\<lambda>t.
            Inr (ERR_OK, pcb, t))
      else
        bindr (tcp_output_loop E wnd (unsent pcb) pcb t) (\<lambda>(pcb, t). Inr (ERR_OK, pcb, t)))"

text \<open>The macros \<open>tcp_ack_now\<close> and \<open>tcp_ack\<close>.\<close>

definition tcp_ack_now :: "tcp_env \<Rightarrow> tcp_pcb \<Rightarrow> tcp \<Rightarrow> (tcp_pcb \<times> tcp) result" where
  "tcp_ack_now E pcb t =
     bindr (tcp_output E (pcb\<lparr>flags := flags pcb OR TF_ACK_NOW\<rparr>) t) (\<lambda>(_, pcb, t). Inr (pcb, t))"

definition tcp_ack :: "tcp_env \<Rightarrow> tcp_pcb \<Rightarrow> tcp \<Rightarrow> (tcp_pcb \<times> tcp) result" where
  "tcp_ack E pcb t =
     (if flags pcb AND TF_ACK_DELAY \<noteq> 0 then tcp_ack_now E pcb t
      else Inr (pcb\<lparr>flags := flags pcb OR TF_ACK_DELAY\<rparr>, t))"

definition tcp_rexmit_seg ::
  "tcp_pcb \<Rightarrow> tcp_seg \<Rightarrow> tcp \<Rightarrow> (tcp_pcb \<times> tcp_seg \<times> tcp) result" where
  "tcp_rexmit_seg pcb sg t =
     (if seg_fits (snd_window pcb) pcb sg then
        let pcb = pcb\<lparr>nrtx := nrtx pcb + 1\<rparr>;
            sg = sg\<lparr>seg_ackno := rcv_nxt pcb, seg_wnd := rcv_wnd pcb\<rparr> in
        case seg_p sg of
          None \<Rightarrow> Inl NullDeref
        | Some p \<Rightarrow>
            bindr (sr_lwip_output p (local_ip pcb) (remote_ip pcb)
                     (tcp_wire (local_ip pcb) (remote_ip pcb)
                        (tcp_hdr (seg_src sg) (seg_dest sg) (seg_seqno sg) (seg_ackno sg) (seg_offset sg)
                           (seg_flags sg) (seg_wnd sg)) p) t) (\<lambda>t.
              Inr (pcb\<lparr>rtime := 0, rttest := 0\<rparr>, sg, t))
      else Inr (pcb, sg, t))"

section \<open>Queueing\<close>

text \<open>
  The loop of \<open>tcp_enqueue\<close> that cuts the data into segments.  The number of segments left
  in the pool bounds it: \<open>memp_malloc\<close> fails when there is none.  The answer says whether
  the loop ended or jumped to \<open>memerr\<close>, the segments so far, and \<open>queuelen\<close>.
\<close>

definition new_seg :: "tcp_pcb \<Rightarrow> u32 \<Rightarrow> byte \<Rightarrow> byte list option \<Rightarrow> u16 \<Rightarrow> byte list list \<Rightarrow> tcp_seg" where
  "new_seg pcb seqno fl opt seglen bufs =
     \<lparr>seg_p = Some \<lparr>p_tot = of_nat (length (concat bufs)) + TCP_HLEN, p_bufs = bufs\<rparr>, seg_len = seglen,
      seg_src = local_port pcb, seg_dest = remote_port pcb, seg_seqno = seqno, seg_ackno = 0,
      seg_offset = (case opt of None \<Rightarrow> 0x50 | Some o' \<Rightarrow> push_bit 4 (5 + of_nat (length o') div 4)),
      seg_flags = fl, seg_wnd = 0\<rparr>"

definition bare_seg :: tcp_seg where
  "bare_seg = \<lparr>seg_p = None, seg_len = 0, seg_src = 0, seg_dest = 0, seg_seqno = 0, seg_ackno = 0,
     seg_offset = 0, seg_flags = 0, seg_wnd = 0\<rparr>"

definition seg_bufs ::
  "tcp_env \<Rightarrow> bool \<Rightarrow> byte list option \<Rightarrow> byte list \<Rightarrow> tcp \<Rightarrow> byte list list option \<times> byte \<times> tcp" where
  "seg_bufs E copy opt dat t =
     (let (ok, t) = pbuf_alloc E t in
      if \<not> ok then (None, 0, t)
      else case opt of
        Some o' \<Rightarrow> (Some [o'], 1, t)
      | None \<Rightarrow>
          if copy then (Some [dat], 1, t)
          else let (ok, t) = pbuf_alloc E t in
            if ok then (Some [[], dat], 2, t) else (None, 1, t))"

primrec enqueue_loop ::
  "nat \<Rightarrow> tcp_env \<Rightarrow> tcp_pcb \<Rightarrow> byte \<Rightarrow> bool \<Rightarrow> byte list option \<Rightarrow> byte list \<Rightarrow> tcp_seg list \<Rightarrow> u32 \<Rightarrow> byte \<Rightarrow> tcp
     \<Rightarrow> bool \<times> tcp_seg list \<times> byte \<times> u16 \<times> tcp" where
  "enqueue_loop 0 E pcb fl copy opt dat queue seqno queuelen t = (False, queue, queuelen, 0, t\<lparr>t_seg_free := 0\<rparr>)"
| "enqueue_loop (Suc n) E pcb fl copy opt dat queue seqno queuelen t =
     (let seglen = (if length dat > unat (mss pcb) then unat (mss pcb) else length dat);
          (bufs, k, t) = seg_bufs E copy opt (take seglen dat) (t\<lparr>t_seg_free := n\<rparr>) in
      case bufs of
        None \<Rightarrow> (False, queue @ [bare_seg], queuelen, 0, t)
      | Some bs \<Rightarrow>
          let queuelen = queuelen + k;
              queue = queue @ [new_seg pcb seqno fl opt (of_nat seglen) bs] in
          if queuelen > TCP_SND_QUEUELEN then (False, queue, queuelen, 0, t)
          else if drop seglen dat = [] then (True, queue, queuelen, of_nat seglen, t)
          else enqueue_loop n E pcb fl copy opt (drop seglen dat) queue (seqno + of_nat seglen) queuelen t)"

definition set_psh :: "tcp_seg \<Rightarrow> tcp_seg" where
  "set_psh sg = sg\<lparr>seg_flags := seg_flags sg OR TCP_PSH\<rparr>"

definition may_chain :: "tcp_pcb \<Rightarrow> byte \<Rightarrow> tcp_seg \<Rightarrow> tcp_seg \<Rightarrow> bool" where
  "may_chain pcb fl useg q \<longleftrightarrow>
     TCP_TCPLEN useg \<noteq> 0 \<and> seg_flags useg AND (TCP_SYN OR TCP_FIN) = 0 \<and> fl AND (TCP_SYN OR TCP_FIN) = 0
       \<and> unat (seg_len useg) + unat (seg_len q) \<le> unat (mss pcb)"

definition chain_seg :: "tcp_seg \<Rightarrow> tcp_seg \<Rightarrow> tcp_seg" where
  "chain_seg useg q =
     useg\<lparr>seg_p := (case (seg_p useg, seg_p q) of
                      (Some p, Some r) \<Rightarrow> Some (pbuf_chain p (r\<lparr>p_tot := p_tot r - TCP_HLEN\<rparr>))
                    | _ \<Rightarrow> seg_p useg),
          seg_len := seg_len useg + seg_len q\<rparr>"

text \<open>
  Appending the new segments to the unsent ones: the first is chained to the last unsent
  segment if it fits there.  The last new segment gets the flag \<open>PSH\<close> if it has data,
  unless it was the one that was chained.
\<close>

definition append_unsent ::
  "tcp_pcb \<Rightarrow> byte \<Rightarrow> u16 \<Rightarrow> tcp_seg list \<Rightarrow> tcp \<Rightarrow> tcp_seg list \<times> tcp" where
  "append_unsent pcb fl seglen queue t =
     (let psh = (\<lambda>ss. if ss \<noteq> [] \<and> seglen > 0 then butlast ss @ [set_psh (last ss)] else ss) in
      if unsent pcb \<noteq> [] \<and> may_chain pcb fl (last (unsent pcb)) (hd queue) then
        (butlast (unsent pcb) @ [chain_seg (last (unsent pcb)) (hd queue)] @ psh (tl queue), tcp_seg_free t)
      else (unsent pcb @ psh queue, t))"

definition tcp_enqueue ::
  "tcp_env \<Rightarrow> byte list \<Rightarrow> byte \<Rightarrow> bool \<Rightarrow> byte list option \<Rightarrow> tcp_pcb \<Rightarrow> tcp \<Rightarrow> (err \<times> tcp_pcb \<times> tcp) result" where
  "tcp_enqueue E dat fl copy opt pcb t =
     (if length dat > unat (snd_buf pcb) then Inr (ERR_MEM, pcb, t)
      else if snd_queuelen pcb \<ge> TCP_SND_QUEUELEN then Inr (ERR_MEM, pcb, t)
      else case enqueue_loop (t_seg_free t) E pcb fl copy opt dat [] (snd_lbb pcb) (snd_queuelen pcb) t of
        (False, queue, _, _, t) \<Rightarrow> Inr (ERR_MEM, pcb, tcp_segs_free queue t)
      | (True, queue, queuelen, seglen, t) \<Rightarrow>
          let (us, t) = append_unsent pcb fl seglen queue t;
              len = of_nat (length dat) + (if fl AND TCP_SYN \<noteq> 0 \<or> fl AND TCP_FIN \<noteq> 0 then 1 else 0) :: u16 in
          Inr (ERR_OK, pcb\<lparr>unsent := us, snd_lbb := snd_lbb pcb + ucast len, snd_buf := snd_buf pcb - len,
                 snd_queuelen := queuelen\<rparr>, t))"

definition tcp_send_ctrl :: "tcp_env \<Rightarrow> byte \<Rightarrow> tcp_pcb \<Rightarrow> tcp \<Rightarrow> (err \<times> tcp_pcb \<times> tcp) result" where
  "tcp_send_ctrl E fl pcb t = tcp_enqueue E [] fl True None pcb t"

definition tcp_write :: "tcp_env \<Rightarrow> byte list \<Rightarrow> bool \<Rightarrow> tcp_pcb \<Rightarrow> tcp \<Rightarrow> (err \<times> tcp_pcb \<times> tcp) result" where
  "tcp_write E dat copy pcb t =
     (if state pcb \<in> {SYN_SENT, SYN_RCVD, ESTABLISHED, CLOSE_WAIT} then
        if dat \<noteq> [] then tcp_enqueue E dat 0 copy None pcb t else Inr (ERR_OK, pcb, t)
      else Inr (ERR_CONN, pcb, t))"

text \<open>
  \<open>tcp_rst\<close>.  When there is no room for the segment, \<open>mem_reclaim\<close> calls the function that
  \<open>tcp_init\<close> registered, \<open>tcp_mem_reclaim\<close> of \<open>tcp.c\<close>, which is a parameter here.
\<close>

definition tcp_rst_with ::
  "(tcp \<Rightarrow> tcp result) \<Rightarrow> tcp_env \<Rightarrow> u32 \<Rightarrow> u32 \<Rightarrow> addr_ip \<Rightarrow> addr_ip \<Rightarrow> u16 \<Rightarrow> u16 \<Rightarrow> tcp \<Rightarrow> tcp result" where
  "tcp_rst_with reclaim E seqno ackno lip rip lport rport t =
     (let send = send_header lip rip (tcp_hdr lport rport seqno ackno 0x50 (TCP_RST OR TCP_ACK) 0);
          (ok, t) = pbuf_alloc E t in
      if ok then send t
      else bindr (reclaim t) (\<lambda>t.
        let (ok, t) = pbuf_alloc E t in
        if ok then send t else Inr t))"

end
