(* ===== verification/LwTcpPcb.thy ===== *)
theory LwTcpPcb
  imports LwTcpOut
begin

text \<open>
  The control blocks of TCP, \<open>lwtcp/tcp.c\<close>: creation and removal, the calls of the
  application, the reclaim functions, and the two timers.  The functions an application
  registers are called with the whole state and may change it.
\<close>

section \<open>Removal\<close>

definition rmv_active :: "nat \<Rightarrow> tcp \<Rightarrow> tcp" where
  "rmv_active i t = t\<lparr>tcp_active_pcbs := remove1 i (tcp_active_pcbs t)\<rparr>"

definition rmv_listen :: "nat \<Rightarrow> tcp \<Rightarrow> tcp" where
  "rmv_listen i t = t\<lparr>tcp_listen_pcbs := remove1 i (tcp_listen_pcbs t)\<rparr>"

definition rmv_tw :: "nat \<Rightarrow> tcp \<Rightarrow> tcp" where
  "rmv_tw i t = t\<lparr>tcp_tw_pcbs := remove1 i (tcp_tw_pcbs t)\<rparr>"

definition reg_active :: "nat \<Rightarrow> tcp \<Rightarrow> tcp" where
  "reg_active i t = t\<lparr>tcp_active_pcbs := i # tcp_active_pcbs t\<rparr>"

definition reg_listen :: "nat \<Rightarrow> tcp \<Rightarrow> tcp" where
  "reg_listen i t = t\<lparr>tcp_listen_pcbs := i # tcp_listen_pcbs t\<rparr>"

definition reg_tw :: "nat \<Rightarrow> tcp \<Rightarrow> tcp" where
  "reg_tw i t = t\<lparr>tcp_tw_pcbs := i # tcp_tw_pcbs t\<rparr>"

definition free_pcb :: "nat \<Rightarrow> tcp \<Rightarrow> tcp result" where
  "free_pcb i t = need (t_pcbs t i \<noteq> None) InvalidFree
     (Inr (t\<lparr>t_pcbs := (t_pcbs t)(i := None), t_pcb_free := Suc (t_pcb_free t)\<rparr>))"

definition free_lpcb :: "nat \<Rightarrow> tcp \<Rightarrow> tcp result" where
  "free_lpcb i t = need (t_pcbs t i \<noteq> None) InvalidFree
     (Inr (t\<lparr>t_pcbs := (t_pcbs t)(i := None), t_lpcb_free := Suc (t_lpcb_free t)\<rparr>))"

definition tcp_pcb_purge :: "tcp_pcb \<Rightarrow> tcp \<Rightarrow> tcp_pcb \<times> tcp" where
  "tcp_pcb_purge pcb t =
     (if state pcb \<noteq> CLOSED \<and> state pcb \<noteq> TIME_WAIT \<and> state pcb \<noteq> LISTEN then
        (pcb\<lparr>unacked := [], unsent := [], ooseq := []\<rparr>,
         tcp_segs_free (unacked pcb) (tcp_segs_free (ooseq pcb) (tcp_segs_free (unsent pcb) t)))
      else (pcb, t))"

definition remove_final :: "tcp_env \<Rightarrow> tcp_pcb \<Rightarrow> tcp \<Rightarrow> (unit \<times> tcp_pcb \<times> tcp) result" where
  "remove_final E pcb t =
     (let (pcb, t) = tcp_pcb_purge pcb t in
      bindr (if state pcb \<noteq> TIME_WAIT \<and> state pcb \<noteq> LISTEN \<and> flags pcb AND TF_ACK_DELAY \<noteq> 0
             then tcp_ack_now E pcb t else Inr (pcb, t)) (\<lambda>(pcb, t).
        Inr ((), pcb\<lparr>state := CLOSED\<rparr>, t)))"

definition tcp_pcb_remove :: "tcp_env \<Rightarrow> (nat \<Rightarrow> tcp \<Rightarrow> tcp) \<Rightarrow> nat \<Rightarrow> tcp \<Rightarrow> tcp result" where
  "tcp_pcb_remove E rmv i t = bindr (on_pcb i (remove_final E) (rmv i t)) (\<lambda>(_, t). Inr t)"

definition tcp_abort_with ::
  "(tcp \<Rightarrow> tcp result) \<Rightarrow> app \<Rightarrow> tcp_env \<Rightarrow> nat \<Rightarrow> tcp \<Rightarrow> tcp result" where
  "tcp_abort_with reclaim A E i t =
     bindr (pcb_of i t) (\<lambda>pcb.
       if state pcb = TIME_WAIT then bindr (tcp_pcb_remove E rmv_tw i t) (free_pcb i)
       else if state pcb = LISTEN then bindr (tcp_pcb_remove E rmv_listen i t) (free_lpcb i)
       else
         bindr (tcp_pcb_remove E rmv_active i t) (\<lambda>t.
         bindr (free_pcb i t) (\<lambda>t.
         bindr (if has_errf pcb then on_errf A (callback_arg pcb) ERR_ABRT t else Inr t) (\<lambda>t.
           tcp_rst_with reclaim E (snd_nxt pcb) (rcv_nxt pcb) (local_ip pcb) (remote_ip pcb)
             (local_port pcb) (remote_port pcb) t))))"

text \<open>The search for the connection that has been inactive longest.\<close>

primrec most_inactive :: "nat list \<Rightarrow> u32 \<Rightarrow> nat option \<Rightarrow> tcp \<Rightarrow> nat option result" where
  "most_inactive [] inactivity inactive t = Inr inactive"
| "most_inactive (i # is) inactivity inactive t =
     bindr (pcb_of i t) (\<lambda>pcb.
       if tcp_ticks t - ucast (tmr pcb) > inactivity
       then most_inactive is (tcp_ticks t - ucast (tmr pcb)) (Some i) t
       else most_inactive is inactivity inactive t)"

text \<open>
  \<open>tcp_mem_reclaim\<close> aborts a connection, which sends a reset, which may call
  \<open>tcp_mem_reclaim\<close> again; each call takes one connection off the list.
\<close>

primrec tcp_mem_reclaim :: "nat \<Rightarrow> app \<Rightarrow> tcp_env \<Rightarrow> tcp \<Rightarrow> tcp result" where
  "tcp_mem_reclaim 0 A E t = Inl OutOfFuel"
| "tcp_mem_reclaim (Suc n) A E t =
     bindr (most_inactive (tcp_active_pcbs t) 0 None t) (\<lambda>r.
       case r of None \<Rightarrow> Inr t | Some i \<Rightarrow> tcp_abort_with (tcp_mem_reclaim n A E) A E i t)"

definition reclaim :: "app \<Rightarrow> tcp_env \<Rightarrow> tcp \<Rightarrow> tcp result" where
  "reclaim A E t = tcp_mem_reclaim (Suc (length (tcp_active_pcbs t))) A E t"

definition tcp_abort :: "app \<Rightarrow> tcp_env \<Rightarrow> nat \<Rightarrow> tcp \<Rightarrow> tcp result" where
  "tcp_abort A E i t = tcp_abort_with (reclaim A E) A E i t"

definition tcp_rst ::
  "app \<Rightarrow> tcp_env \<Rightarrow> u32 \<Rightarrow> u32 \<Rightarrow> addr_ip \<Rightarrow> addr_ip \<Rightarrow> u16 \<Rightarrow> u16 \<Rightarrow> tcp \<Rightarrow> tcp result" where
  "tcp_rst A E seqno ackno lip rip lport rport t =
     tcp_rst_with (reclaim A E) E seqno ackno lip rip lport rport t"

text \<open>\<open>tcp_memp_reclaim\<close> for the pool of PCBs, and for the pools of segments and buffers.\<close>

definition tcp_memp_reclaim_pcb :: "app \<Rightarrow> tcp_env \<Rightarrow> tcp \<Rightarrow> tcp result" where
  "tcp_memp_reclaim_pcb A E t =
     (case tcp_tw_pcbs t of
        i # is \<Rightarrow> free_pcb i (t\<lparr>tcp_tw_pcbs := is\<rparr>)
      | [] \<Rightarrow>
          bindr (most_inactive (tcp_active_pcbs t) 0 None t) (\<lambda>r.
            case r of None \<Rightarrow> Inr t | Some i \<Rightarrow> tcp_abort A E i t))"

primrec reclaim_ooseq :: "nat list \<Rightarrow> tcp \<Rightarrow> tcp result" where
  "reclaim_ooseq [] t = Inr t"
| "reclaim_ooseq (i # is) t =
     bindr (pcb_of i t) (\<lambda>pcb.
       if ooseq pcb \<noteq> [] then Inr (set_pcb i (pcb\<lparr>ooseq := []\<rparr>) (tcp_segs_free (ooseq pcb) t))
       else reclaim_ooseq is t)"

definition tcp_memp_reclaim_seg :: "tcp \<Rightarrow> tcp result" where
  "tcp_memp_reclaim_seg t = reclaim_ooseq (tcp_active_pcbs t) t"

section \<open>Creation\<close>

definition tcp_init :: "tcp \<Rightarrow> tcp" where
  "tcp_init t = t\<lparr>tcp_listen_pcbs := [], tcp_active_pcbs := [], tcp_tw_pcbs := [], tcp_ticks := 0, tcp_timer := 0\<rparr>"

text \<open>The globals as the loader and \<open>memp_init\<close> leave them.\<close>

definition tcp_boot :: tcp where
  "tcp_boot = tcp_init
     \<lparr>t_pcbs = (\<lambda>_. None), t_fresh = 0, tcp_listen_pcbs = [], tcp_active_pcbs = [], tcp_tw_pcbs = [],
      tcp_ticks = 0, tcp_timer = 0, t_iss = 6510, t_port = 4096, t_pcb_free = 12, t_lpcb_free = 8,
      t_seg_free = 8, t_allocs = 0, t_out = []\<rparr>"

definition tcp_next_iss :: "tcp \<Rightarrow> u32 \<times> tcp" where
  "tcp_next_iss t = (t_iss t + tcp_ticks t, t\<lparr>t_iss := t_iss t + tcp_ticks t\<rparr>)"

definition new_pcb :: "u32 \<Rightarrow> u32 \<Rightarrow> tcp_pcb" where
  "new_pcb iss ticks =
     \<lparr>state = CLOSED, callback_arg = 0, has_accept = False, local_ip = 0, local_port = 0, remote_ip = 0,
      remote_port = 0, rcv_nxt = 0, rcv_wnd = TCP_WND, tmr = ucast ticks, rtime = 0, mss = TCP_MSS,
      flags = 0, rttest = 0, rtseq = 0, sa = 0, sv = 3000 div int TCP_SLOW_INTERVAL,
      rto = 3000 div of_nat TCP_SLOW_INTERVAL, nrtx = 0, lastack = iss, dupacks = 0, cwnd = 1, ssthresh = 0,
      snd_nxt = iss, snd_max = iss, snd_wnd = 0, snd_wl1 = 0, snd_wl2 = iss, snd_lbb = iss,
      snd_buf = TCP_SND_BUF, snd_queuelen = 0, has_sent = False, acked = 0, has_recv = False,
      recv_data = None, has_connected = False, has_poll = False, has_errf = False, polltmr = 0,
      pollinterval = 0, unsent = [], unacked = [], ooseq = []\<rparr>"

definition tcp_new :: "app \<Rightarrow> tcp_env \<Rightarrow> tcp \<Rightarrow> (nat option \<times> tcp) result" where
  "tcp_new A E t =
     bindr (if t_pcb_free t = 0 then tcp_memp_reclaim_pcb A E t else Inr t) (\<lambda>t.
       if t_pcb_free t = 0 then Inr (None, t)
       else
         let i = t_fresh t;
             t = t\<lparr>t_pcb_free := t_pcb_free t - 1, t_fresh := Suc i\<rparr>;
             (iss, t) = tcp_next_iss t in
         Inr (Some i, set_pcb i (new_pcb iss (tcp_ticks t)) t))"

section \<open>Calls of the application\<close>

definition tcp_arg :: "nat \<Rightarrow> tcp_pcb \<Rightarrow> tcp_pcb" where "tcp_arg a pcb = pcb\<lparr>callback_arg := a\<rparr>"
definition tcp_recv :: "bool \<Rightarrow> tcp_pcb \<Rightarrow> tcp_pcb" where "tcp_recv f pcb = pcb\<lparr>has_recv := f\<rparr>"
definition tcp_sent :: "bool \<Rightarrow> tcp_pcb \<Rightarrow> tcp_pcb" where "tcp_sent f pcb = pcb\<lparr>has_sent := f\<rparr>"
definition tcp_err :: "bool \<Rightarrow> tcp_pcb \<Rightarrow> tcp_pcb" where "tcp_err f pcb = pcb\<lparr>has_errf := f\<rparr>"
definition tcp_poll :: "bool \<Rightarrow> byte \<Rightarrow> tcp_pcb \<Rightarrow> tcp_pcb" where
  "tcp_poll f interval pcb = pcb\<lparr>has_poll := f, pollinterval := interval\<rparr>"
definition tcp_accept :: "bool \<Rightarrow> tcp_pcb \<Rightarrow> tcp_pcb" where "tcp_accept f pcb = pcb\<lparr>has_accept := f\<rparr>"

definition tcp_close :: "tcp_env \<Rightarrow> nat \<Rightarrow> tcp \<Rightarrow> (err \<times> tcp) result" where
  "tcp_close E i t =
     bindr (pcb_of i t) (\<lambda>pcb.
       let fin = (\<lambda>st. on_pcb i (\<lambda>pcb t.
             bindr (tcp_send_ctrl E TCP_FIN pcb t) (\<lambda>(err, pcb, t).
               if err = ERR_OK then tcp_output E (pcb\<lparr>state := st\<rparr>) t else Inr (err, pcb, t))) t) in
       case state pcb of
         LISTEN \<Rightarrow>
           bindr (tcp_pcb_remove E rmv_listen i t) (\<lambda>t. bindr (free_lpcb i t) (\<lambda>t. Inr (ERR_OK, t)))
       | SYN_SENT \<Rightarrow>
           bindr (tcp_pcb_remove E rmv_active i t) (\<lambda>t. bindr (free_pcb i t) (\<lambda>t. Inr (ERR_OK, t)))
       | SYN_RCVD \<Rightarrow> fin FIN_WAIT_1
       | ESTABLISHED \<Rightarrow> fin FIN_WAIT_1
       | CLOSE_WAIT \<Rightarrow> fin LAST_ACK
       | _ \<Rightarrow> Inr (ERR_OK, t))"

primrec in_use :: "nat list \<Rightarrow> addr_ip option \<Rightarrow> u16 \<Rightarrow> tcp \<Rightarrow> bool result" where
  "in_use [] ipaddr port t = Inr False"
| "in_use (i # is) ipaddr port t =
     bindr (pcb_of i t) (\<lambda>cpcb.
       if local_port cpcb = port
          \<and> (local_ip cpcb = 0 \<or> ipaddr = None \<or> ipaddr = Some 0 \<or> ipaddr = Some (local_ip cpcb))
       then Inr True else in_use is ipaddr port t)"

definition tcp_bind :: "nat \<Rightarrow> addr_ip option \<Rightarrow> u16 \<Rightarrow> tcp \<Rightarrow> (err \<times> tcp) result" where
  "tcp_bind i ipaddr port t =
     bindr (in_use (tcp_listen_pcbs t) ipaddr port t) (\<lambda>u.
     if u then Inr (ERR_USE, t)
     else bindr (in_use (tcp_active_pcbs t) ipaddr port t) (\<lambda>u.
       if u then Inr (ERR_USE, t)
       else
         bindr (upd_pcb i (\<lambda>pcb.
             let pcb = (case ipaddr of None \<Rightarrow> pcb
                        | Some a \<Rightarrow> if a = 0 then pcb else pcb\<lparr>local_ip := a\<rparr>) in
             pcb\<lparr>local_port := port\<rparr>) t) (\<lambda>t.
           Inr (ERR_OK, t))))"

text \<open>
  \<open>tcp_listen\<close> moves the PCB to the smaller structure.  When there is none left it answers
  the null pointer and leaves the PCB in the state \<open>LISTEN\<close>.
\<close>

definition tcp_listen :: "nat \<Rightarrow> tcp \<Rightarrow> (nat option \<times> tcp) result" where
  "tcp_listen i t =
     bindr (upd_pcb i (state_update (\<lambda>_. LISTEN)) t) (\<lambda>t.
       if t_lpcb_free t = 0 then Inr (None, t)
       else
         bindr (pcb_of i t) (\<lambda>pcb.
         bindr (free_pcb i t) (\<lambda>t.
           let j = t_fresh t in
           Inr (Some j, reg_listen j (set_pcb j pcb (t\<lparr>t_lpcb_free := t_lpcb_free t - 1, t_fresh := Suc j\<rparr>))))))"

definition tcp_recved :: "tcp_env \<Rightarrow> u16 \<Rightarrow> tcp_pcb \<Rightarrow> tcp \<Rightarrow> (tcp_pcb \<times> tcp) result" where
  "tcp_recved E len pcb t =
     (let pcb = pcb\<lparr>rcv_wnd := rcv_wnd pcb + len\<rparr>;
          pcb = (if rcv_wnd pcb > TCP_WND then pcb\<lparr>rcv_wnd := TCP_WND\<rparr> else pcb) in
      if flags pcb AND TF_ACK_DELAY = 0 \<or> flags pcb AND TF_ACK_NOW = 0 then tcp_ack E pcb t else Inr (pcb, t))"

primrec port_taken :: "nat list \<Rightarrow> u16 \<Rightarrow> tcp \<Rightarrow> bool result" where
  "port_taken [] port t = Inr False"
| "port_taken (i # is) port t =
     bindr (pcb_of i t) (\<lambda>pcb. if local_port pcb = port then Inr True else port_taken is port t)"

primrec tcp_new_port_from :: "nat \<Rightarrow> tcp \<Rightarrow> (u16 \<times> tcp) result" where
  "tcp_new_port_from 0 t = Inl OutOfFuel"
| "tcp_new_port_from (Suc n) t =
     (let p = t_port t + 1;
          p = (if p > 0x7fff then 4096 else p);
          t = t\<lparr>t_port := p\<rparr> in
      bindr (port_taken (tcp_active_pcbs t @ tcp_tw_pcbs t @ tcp_listen_pcbs t) p t) (\<lambda>u.
        if u then tcp_new_port_from n t else Inr (p, t)))"

text \<open>
  At most one \<open>goto again\<close> per PCB, as the ports it tries are different.
\<close>

definition tcp_new_port :: "tcp \<Rightarrow> (u16 \<times> tcp) result" where
  "tcp_new_port t =
     tcp_new_port_from (Suc (length (tcp_active_pcbs t @ tcp_tw_pcbs t @ tcp_listen_pcbs t))) t"

definition mss_option :: "u16 \<Rightarrow> byte list" where
  "mss_option m = [2, 4, ucast (m div 256), ucast (m AND 255)]"

definition tcp_connect :: "tcp_env \<Rightarrow> nat \<Rightarrow> addr_ip option \<Rightarrow> u16 \<Rightarrow> bool \<Rightarrow> tcp \<Rightarrow> (err \<times> tcp) result" where
  "tcp_connect E i ipaddr port connected t =
     (case ipaddr of
        None \<Rightarrow> Inr (ERR_VAL, t)
      | Some a \<Rightarrow>
          bindr (upd_pcb i (\<lambda>pcb. pcb\<lparr>remote_ip := a, remote_port := port\<rparr>) t) (\<lambda>t.
          bindr (pcb_of i t) (\<lambda>pcb.
          bindr (if local_port pcb = 0
                 then bindr (tcp_new_port t) (\<lambda>(p, t). upd_pcb i (local_port_update (\<lambda>_. p)) t)
                 else Inr t) (\<lambda>t.
            let (iss, t) = tcp_next_iss t in
            bindr (upd_pcb i (\<lambda>pcb. pcb\<lparr>rcv_nxt := 0, snd_nxt := iss, lastack := iss - 1, snd_lbb := iss - 1,
                     rcv_wnd := TCP_WND, snd_wnd := ucast TCP_WND, mss := TCP_MSS, cwnd := 1,
                     ssthresh := TCP_MSS * 10, state := SYN_SENT, has_connected := connected\<rparr>) t) (\<lambda>t.
              on_pcb i (\<lambda>pcb t.
                bindr (tcp_enqueue E [] TCP_SYN False (Some (mss_option (mss pcb))) pcb t) (\<lambda>(ret, pcb, t).
                  if ret = ERR_OK
                  then bindr (tcp_output E pcb t) (\<lambda>(_, pcb, t). Inr (ret, pcb, t))
                  else Inr (ret, pcb, t))) (reg_active i t))))))"

section \<open>Timers\<close>

definition tcp_backoff :: "nat list" where
  "tcp_backoff = [1, 2, 4, 8, 16, 32, 64, 64, 64, 64, 64, 64, 64]"

text \<open>
  \<open>((sa >> 3) + sv) << n\<close> in a 16-bit field.  A shift of a 32-bit value by 32 or more is
  undefined in C; the processor uses the count modulo 32.
\<close>

definition backed_off :: "int \<Rightarrow> int \<Rightarrow> nat \<Rightarrow> u16" where
  "backed_off a v n = word_of_int (push_bit (n mod 32) (drop_bit 3 a + v))"

definition ticks_since :: "tcp \<Rightarrow> tcp_pcb \<Rightarrow> u32" where
  "ticks_since t pcb = tcp_ticks t - ucast (tmr pcb)"

definition TCP_FIN_WAIT_TIMEOUT :: nat where "TCP_FIN_WAIT_TIMEOUT = 20000"
definition TCP_SYN_RCVD_TIMEOUT :: nat where "TCP_SYN_RCVD_TIMEOUT = 20000"
definition TCP_OOSEQ_TIMEOUT :: nat where "TCP_OOSEQ_TIMEOUT = 6"
definition TCP_MSL :: nat where "TCP_MSL = 60000"

definition back_off :: "tcp_pcb \<Rightarrow> tcp_pcb" where
  "back_off pcb =
     (if state pcb \<noteq> SYN_SENT
      then pcb\<lparr>rto := backed_off (sa pcb) (sv pcb) (tcp_backoff ! unat (nrtx pcb))\<rparr> else pcb)"

definition move_to_unsent :: "tcp_seg list \<Rightarrow> tcp_pcb \<Rightarrow> tcp_pcb" where
  "move_to_unsent rest pcb =
     (if rest \<noteq> [] then pcb\<lparr>unsent := rest @ unsent pcb, snd_nxt := seg_seqno (hd rest)\<rparr> else pcb)"

definition reduce_cwnd :: "tcp_pcb \<Rightarrow> tcp_pcb" where
  "reduce_cwnd pcb =
     (let eff_wnd = (if ucast (cwnd pcb) < snd_wnd pcb then ucast (cwnd pcb) else snd_wnd pcb);
          pcb = pcb\<lparr>ssthresh := ucast (drop_bit 1 eff_wnd)\<rparr>;
          pcb = (if ssthresh pcb < mss pcb then pcb\<lparr>ssthresh := mss pcb * 2\<rparr> else pcb) in
      pcb\<lparr>cwnd := mss pcb\<rparr>)"

definition slow_rexmit :: "tcp_pcb \<Rightarrow> tcp_seg \<Rightarrow> tcp_seg list \<Rightarrow> tcp \<Rightarrow> (tcp_pcb \<times> tcp) result" where
  "slow_rexmit pcb sg rest t =
     need (state pcb \<noteq> SYN_SENT \<longrightarrow> unat (nrtx pcb) < length tcp_backoff) OutOfBounds (
     bindr (tcp_rexmit_seg (move_to_unsent rest (back_off pcb)) sg t) (\<lambda>(pcb, sg, t).
     Inr (reduce_cwnd (pcb\<lparr>unacked := [sg]\<rparr>), t)))"

text \<open>
  The part of \<open>tcp_slowtmr\<close> for one active PCB, up to the decision whether it is removed: the
  retransmission, and the PCBs and segments that are too old.
\<close>

definition slow_rtime :: "tcp_pcb \<Rightarrow> tcp \<Rightarrow> (bool \<times> tcp_pcb \<times> tcp) result" where
  "slow_rtime pcb t =
     (if state pcb = SYN_SENT \<and> nrtx pcb = TCP_SYNMAXRTX \<or> nrtx pcb = TCP_MAXRTX then Inr (True, pcb, t)
      else
        let pcb = pcb\<lparr>rtime := rtime pcb + 1\<rparr> in
        case unacked pcb of
          sg # rest \<Rightarrow>
            if ucast (rtime pcb) \<ge> rto pcb
            then bindr (slow_rexmit pcb sg rest t) (\<lambda>(pcb, t). Inr (False, pcb, t))
            else Inr (False, pcb, t)
        | [] \<Rightarrow> Inr (False, pcb, t))"

definition slow_expire :: "bool \<Rightarrow> tcp_pcb \<Rightarrow> tcp \<Rightarrow> bool \<times> tcp_pcb \<times> tcp" where
  "slow_expire rm pcb t =
     (let rm = (rm \<or> state pcb = FIN_WAIT_2
                        \<and> unat (ticks_since t pcb) > TCP_FIN_WAIT_TIMEOUT div TCP_SLOW_INTERVAL);
          stale = (ooseq pcb \<noteq> [] \<and> unat (ticks_since t pcb) \<ge> unat (rto pcb) * TCP_OOSEQ_TIMEOUT);
          (pcb, t) = (if stale then (pcb\<lparr>ooseq := []\<rparr>, tcp_segs_free (ooseq pcb) t) else (pcb, t));
          rm = (rm \<or> state pcb = SYN_RCVD
                        \<and> unat (ticks_since t pcb) > TCP_SYN_RCVD_TIMEOUT div TCP_SLOW_INTERVAL) in
      (rm, pcb, t))"

definition slow_pcb :: "tcp_pcb \<Rightarrow> tcp \<Rightarrow> (bool \<times> tcp_pcb \<times> tcp) result" where
  "slow_pcb pcb t = bindr (slow_rtime pcb t) (\<lambda>(rm, pcb, t). Inr (slow_expire rm pcb t))"

text \<open>The field \<open>next\<close> of a PCB, and a list without the PCB behind \<open>prev\<close>.\<close>

definition succ_in :: "nat \<Rightarrow> nat list \<Rightarrow> nat option" where
  "succ_in i xs = (case dropWhile (\<lambda>x. x \<noteq> i) xs of _ # j # _ \<Rightarrow> Some j | _ \<Rightarrow> None)"

definition next_of :: "nat \<Rightarrow> tcp \<Rightarrow> nat option" where
  "next_of i t =
     (if i \<in> set (tcp_active_pcbs t) then succ_in i (tcp_active_pcbs t)
      else if i \<in> set (tcp_tw_pcbs t) then succ_in i (tcp_tw_pcbs t)
      else succ_in i (tcp_listen_pcbs t))"

definition unlink :: "nat option \<Rightarrow> nat \<Rightarrow> nat list \<Rightarrow> nat list" where
  "unlink prev i xs =
     (case prev of
        None \<Rightarrow> tl (dropWhile (\<lambda>x. x \<noteq> i) xs)
      | Some p \<Rightarrow> takeWhile (\<lambda>x. x \<noteq> p) xs @ [p] @ tl (dropWhile (\<lambda>x. x \<noteq> i) xs))"

text \<open>
  The loop over the active PCBs.  A callback may change the lists; registering puts a PCB
  in front, so the PCBs still ahead are at most those of the list at the start.
\<close>

primrec slow_active :: "nat \<Rightarrow> app \<Rightarrow> tcp_env \<Rightarrow> nat option \<Rightarrow> nat option \<Rightarrow> tcp \<Rightarrow> tcp result" where
  "slow_active 0 A E prev cur t = (if cur = None then Inr t else Inl OutOfFuel)"
| "slow_active (Suc n) A E prev cur t =
     (case cur of
        None \<Rightarrow> Inr t
      | Some i \<Rightarrow>
          bindr (on_pcb i slow_pcb t) (\<lambda>(rm, t).
          if rm then
            bindr (pcb_of i t) (\<lambda>pcb.
            let (pcb', t) = tcp_pcb_purge pcb t;
                t = set_pcb i pcb' t;
                nx = next_of i t;
                t = t\<lparr>tcp_active_pcbs := unlink prev i (tcp_active_pcbs t)\<rparr> in
            bindr (if has_errf pcb then on_errf A (callback_arg pcb) ERR_ABRT t else Inr t) (\<lambda>t.
            bindr (free_pcb i t) (slow_active n A E prev nx)))
          else
            bindr (upd_pcb i (\<lambda>pcb. pcb\<lparr>polltmr := polltmr pcb + 1\<rparr>) t) (\<lambda>t.
            bindr (pcb_of i t) (\<lambda>pcb.
            bindr (if polltmr pcb \<ge> pollinterval pcb \<and> has_poll pcb then
                     bindr (upd_pcb i (polltmr_update (\<lambda>_. 0)) t) (\<lambda>t.
                     bindr (on_poll A i t) (\<lambda>(_, t).
                     bindr (on_pcb i (tcp_output E) t) (\<lambda>(_, t). Inr t)))
                   else Inr t) (\<lambda>t.
              bindr (pcb_of i t) (\<lambda>_. slow_active n A E (Some i) (next_of i t) t))))))"

primrec slow_tw :: "nat list \<Rightarrow> tcp \<Rightarrow> (nat list \<times> tcp) result" where
  "slow_tw [] t = Inr ([], t)"
| "slow_tw (i # is) t =
     bindr (pcb_of i t) (\<lambda>pcb.
       if unat (ticks_since t pcb) > 2 * TCP_MSL div TCP_SLOW_INTERVAL then
         bindr (free_pcb i (snd (tcp_pcb_purge pcb t))) (slow_tw is)
       else bindr (slow_tw is t) (\<lambda>(js, t). Inr (i # js, t)))"

definition tcp_slowtmr :: "app \<Rightarrow> tcp_env \<Rightarrow> tcp \<Rightarrow> tcp result" where
  "tcp_slowtmr A E t =
     (let t = t\<lparr>tcp_ticks := tcp_ticks t + 1\<rparr>;
          act = tcp_active_pcbs t in
      bindr (slow_active (length act) A E None (case act of [] \<Rightarrow> None | i # _ \<Rightarrow> Some i) t) (\<lambda>t.
      bindr (slow_tw (tcp_tw_pcbs t) t) (\<lambda>(js, t).
        Inr (t\<lparr>tcp_tw_pcbs := js\<rparr>))))"

definition fast_pcb :: "tcp_env \<Rightarrow> tcp_pcb \<Rightarrow> tcp \<Rightarrow> (unit \<times> tcp_pcb \<times> tcp) result" where
  "fast_pcb E pcb t =
     (if flags pcb AND TF_ACK_DELAY \<noteq> 0 then
        bindr (tcp_ack_now E pcb t) (\<lambda>(pcb, t).
          Inr ((), pcb\<lparr>flags := flags pcb AND NOT (TF_ACK_DELAY OR TF_ACK_NOW)\<rparr>, t))
      else Inr ((), pcb, t))"

primrec fast_active :: "tcp_env \<Rightarrow> nat list \<Rightarrow> tcp \<Rightarrow> tcp result" where
  "fast_active E [] t = Inr t"
| "fast_active E (i # is) t = bindr (on_pcb i (fast_pcb E) t) (\<lambda>(_, t). fast_active E is t)"

definition tcp_fasttmr :: "tcp_env \<Rightarrow> tcp \<Rightarrow> tcp result" where
  "tcp_fasttmr E t = fast_active E (tcp_active_pcbs t) t"

definition tcp_tmr :: "app \<Rightarrow> tcp_env \<Rightarrow> tcp \<Rightarrow> tcp result" where
  "tcp_tmr A E t =
     (let n = tcp_timer t + 1;
          n = (if n = 10 then 0 else n);
          t = t\<lparr>tcp_timer := n\<rparr> in
      bindr (if n AND 1 \<noteq> 0 then tcp_fasttmr E t else Inr t) (\<lambda>t.
        if n = 0 \<or> n = 5 then tcp_slowtmr A E t else Inr t))"

end
