(* ===== verification/LwTcpIn.thy ===== *)
theory LwTcpIn
  imports LwTcpPcb
begin

text \<open>
  The input side of TCP, \<open>lwtcp/tcp_input.c\<close>: parsing and demultiplexing of a datagram, the
  state machine, acknowledgements and congestion control, and the reassembly of the data.
  The static variable \<open>inseg\<close> is an argument and a result.
\<close>

section \<open>Options\<close>

text \<open>
  The loop of \<open>tcp_parseopt\<close> over the options.  The index is 8 bits wide and is the whole
  state of the loop, so a run of 257 steps visits an index twice and does not end.
\<close>

definition opt_at :: "byte list \<Rightarrow> nat \<Rightarrow> byte result" where
  "opt_at opts k = need (k < length opts) OutOfBounds (Inr (opts ! k))"

primrec parseopt_loop :: "nat \<Rightarrow> byte list \<Rightarrow> nat \<Rightarrow> byte \<Rightarrow> u16 option result" where
  "parseopt_loop 0 opts lim c = Inl OutOfFuel"
| "parseopt_loop (Suc n) opts lim c =
     (if unat c < lim then
        bindr (opt_at opts (unat c)) (\<lambda>opt.
          if opt = 0 then Inr None
          else if opt = 1 then parseopt_loop n opts lim (c + 1)
          else
            bindr (opt_at opts (unat c + 1)) (\<lambda>l.
              if opt = 2 \<and> l = 4 then
                bindr (opt_at opts (unat c + 2)) (\<lambda>hi.
                bindr (opt_at opts (unat c + 3)) (\<lambda>lo.
                  Inr (Some (push_bit 8 (ucast hi) OR ucast lo))))
              else if l = 0 then Inr None
              else parseopt_loop n opts lim (c + l)))
      else Inr None)"

definition opt_limit :: "byte \<Rightarrow> nat" where
  "opt_limit offset = (unat offset div 16 - 5) * 4"

definition tcp_parseopt :: "tcp_seg \<Rightarrow> byte list \<Rightarrow> tcp_pcb \<Rightarrow> tcp_pcb result" where
  "tcp_parseopt inseg opts pcb =
     (if seg_offset inseg AND 0xf0 > 0x50 then
        bindr (parseopt_loop 257 opts (opt_limit (seg_offset inseg)) 0) (\<lambda>r.
          case r of
            None \<Rightarrow> Inr pcb
          | Some m \<Rightarrow> Inr (pcb\<lparr>mss := (if m > TCP_MSS then TCP_MSS else m)\<rparr>))
      else Inr pcb)"

section \<open>Acknowledgements\<close>

definition update_window :: "tcp_seg \<Rightarrow> tcp_pcb \<Rightarrow> tcp_pcb" where
  "update_window inseg pcb =
     (let seqno = seg_seqno inseg; ackno = seg_ackno inseg in
      if TCP_SEQ_LT (snd_wl1 pcb) seqno
         \<or> snd_wl1 pcb = seqno \<and> TCP_SEQ_LT (snd_wl2 pcb) ackno
         \<or> snd_wl2 pcb = ackno \<and> ucast (seg_wnd inseg) > snd_wnd pcb
      then pcb\<lparr>snd_wnd := ucast (seg_wnd inseg), snd_wl1 := seqno, snd_wl2 := ackno\<rparr>
      else pcb)"

text \<open>
  The sums in the tests for overflow are computed as \<open>int\<close> and cannot overflow, so that the
  first test says that \<open>mss\<close> is positive; the assignment wraps around at 16 bits.
\<close>

definition inflate :: "tcp_pcb \<Rightarrow> tcp_pcb" where
  "inflate pcb =
     (if int (unat (cwnd pcb)) + int (unat (mss pcb)) > int (unat (cwnd pcb))
      then pcb\<lparr>cwnd := cwnd pcb + mss pcb\<rparr> else pcb)"

definition duplicate_ack :: "tcp_pcb \<Rightarrow> tcp \<Rightarrow> (tcp_pcb \<times> tcp) result" where
  "duplicate_ack pcb t =
     (let pcb = pcb\<lparr>dupacks := dupacks pcb + 1\<rparr> in
      case unacked pcb of
        [] \<Rightarrow> Inr (pcb, t)
      | sg # rest \<Rightarrow>
          if dupacks pcb < 3 then Inr (pcb, t)
          else if flags pcb AND TF_INFR = 0 then
            bindr (tcp_rexmit_seg pcb sg t) (\<lambda>(pcb, sg, t).
            let flight = (snd_max pcb - lastack pcb) div 2;
                floor = 2 * ucast (mss pcb);
                pcb = pcb\<lparr>unacked := sg # rest, ssthresh := ucast (if flight > floor then flight else floor)\<rparr> in
            Inr (pcb\<lparr>cwnd := ssthresh pcb + 3 * mss pcb, flags := flags pcb OR TF_INFR\<rparr>, t))
          else Inr (inflate pcb, t))"

definition grow_cwnd :: "tcp_pcb \<Rightarrow> tcp_pcb result" where
  "grow_cwnd pcb =
     (if state_num (state pcb) \<ge> state_num ESTABLISHED then
        if cwnd pcb < ssthresh pcb then Inr (inflate pcb)
        else
          need (cwnd pcb \<noteq> 0) DivZero (
          let inc = int (unat (mss pcb)) * int (unat (mss pcb)) div int (unat (cwnd pcb)) in
          Inr (if inc > 0 then pcb\<lparr>cwnd := cwnd pcb + word_of_int inc\<rparr> else pcb))
      else Inr pcb)"

definition seg_acked :: "u32 \<Rightarrow> tcp_seg \<Rightarrow> bool" where
  "seg_acked ackno sg \<longleftrightarrow> TCP_SEQ_LEQ (seg_seqno sg + TCP_TCPLEN sg) ackno"

definition seg_clen :: "tcp_seg \<Rightarrow> byte" where
  "seg_clen sg = (case seg_p sg of None \<Rightarrow> 0 | Some p \<Rightarrow> pbuf_clen p)"

primrec ack_unsent :: "u32 \<Rightarrow> tcp_seg list \<Rightarrow> tcp_pcb \<Rightarrow> tcp \<Rightarrow> tcp_pcb \<times> tcp" where
  "ack_unsent ackno [] pcb t = (pcb\<lparr>unsent := []\<rparr>, t)"
| "ack_unsent ackno (sg # segs) pcb t =
     (if seg_acked ackno sg then
        let pcb = pcb\<lparr>snd_queuelen := snd_queuelen pcb - seg_clen sg\<rparr>;
            pcb = (case segs of [] \<Rightarrow> pcb | s # _ \<Rightarrow> pcb\<lparr>snd_nxt := seg_seqno s\<rparr>) in
        ack_unsent ackno segs pcb (tcp_seg_free t)
      else (pcb\<lparr>unsent := sg # segs\<rparr>, t))"

primrec ack_unacked :: "u32 \<Rightarrow> tcp_seg list \<Rightarrow> tcp_pcb \<Rightarrow> tcp \<Rightarrow> tcp_pcb \<times> tcp" where
  "ack_unacked ackno [] pcb t = (pcb\<lparr>unacked := []\<rparr>, t)"
| "ack_unacked ackno (sg # segs) pcb t =
     (if seg_acked ackno sg
      then ack_unacked ackno segs (pcb\<lparr>snd_queuelen := snd_queuelen pcb - seg_clen sg\<rparr>) (tcp_seg_free t)
      else (pcb\<lparr>unacked := sg # segs\<rparr>, t))"

definition base_rto :: "tcp_pcb \<Rightarrow> u16" where
  "base_rto pcb = word_of_int (drop_bit 3 (sa pcb) + sv pcb)"

definition account_ack :: "u32 \<Rightarrow> tcp_pcb \<Rightarrow> tcp_pcb" where
  "account_ack ackno pcb =
     (let pcb = (if flags pcb AND TF_INFR \<noteq> 0
                 then pcb\<lparr>flags := flags pcb AND NOT TF_INFR, cwnd := ssthresh pcb\<rparr> else pcb);
          pcb = pcb\<lparr>nrtx := 0, rto := base_rto pcb, acked := ucast (ackno - lastack pcb)\<rparr> in
      pcb\<lparr>snd_buf := snd_buf pcb + acked pcb, dupacks := 0, lastack := ackno\<rparr>)"

definition drop_acked :: "u32 \<Rightarrow> tcp_pcb \<Rightarrow> tcp \<Rightarrow> tcp_pcb \<times> tcp" where
  "drop_acked ackno pcb t =
     (let (pcb, t) = ack_unsent ackno (unsent pcb) pcb t;
          (pcb, t) = ack_unacked ackno (unacked pcb) pcb t in
      (pcb\<lparr>polltmr := 0\<rparr>, t))"

definition new_ack :: "u32 \<Rightarrow> tcp_pcb \<Rightarrow> tcp \<Rightarrow> (tcp_pcb \<times> tcp) result" where
  "new_ack ackno pcb t = bindr (grow_cwnd (account_ack ackno pcb)) (\<lambda>pcb. Inr (drop_acked ackno pcb t))"

text \<open>
  The round-trip time.  \<open>rttest\<close> holds the lower 16 bits of the clock at the transmission;
  it is subtracted from the whole clock.
\<close>

definition rtt_estimate :: "u32 \<Rightarrow> tcp \<Rightarrow> tcp_pcb \<Rightarrow> tcp_pcb" where
  "rtt_estimate ackno t pcb =
     (if rttest pcb \<noteq> 0 \<and> TCP_SEQ_LT (rtseq pcb) ackno then
        let m = sint (tcp_ticks t - ucast (rttest pcb)) - drop_bit 3 (sa pcb);
            pcb = pcb\<lparr>sa := sa pcb + m\<rparr>;
            m = abs m - drop_bit 2 (sv pcb);
            pcb = pcb\<lparr>sv := sv pcb + m\<rparr> in
        pcb\<lparr>rto := base_rto pcb, rttest := 0\<rparr>
      else pcb)"

definition process_ack :: "u32 \<Rightarrow> tcp_pcb \<Rightarrow> tcp \<Rightarrow> (tcp_pcb \<times> tcp) result" where
  "process_ack ackno pcb t =
     (if lastack pcb = ackno then duplicate_ack pcb t
      else if TCP_SEQ_LT (lastack pcb) ackno \<and> TCP_SEQ_LEQ ackno (snd_max pcb) then new_ack ackno pcb t
      else Inr (pcb, t))"

definition receive_ack :: "tcp_seg \<Rightarrow> tcp_pcb \<Rightarrow> tcp \<Rightarrow> (tcp_pcb \<times> tcp) result" where
  "receive_ack inseg pcb t =
     bindr (process_ack (seg_ackno inseg) (update_window inseg pcb) t) (\<lambda>(pcb, t).
       Inr (rtt_estimate (seg_ackno inseg) t pcb, t))"

section \<open>Data\<close>

text \<open>
  Trimming the first edge: the buffers that are skipped become empty and are taken off
  \<open>tot_len\<close>, the first bytes of the next one are dropped.
\<close>

fun skip_bufs :: "nat \<Rightarrow> byte list list \<Rightarrow> (nat \<times> byte list list) result" where
  "skip_bufs off [] = Inl NullDeref"
| "skip_bufs off (b # bs) =
     (if length b < off
      then bindr (skip_bufs (off - length b) bs) (\<lambda>(n, bs). Inr (length b + n, [] # bs))
      else Inr (0, drop off b # bs))"

definition trim_front :: "nat \<Rightarrow> pchain \<Rightarrow> pchain result" where
  "trim_front off p =
     (case p_bufs p of
        [] \<Rightarrow> Inl NullDeref
      | b # _ \<Rightarrow>
          if length b < off
          then bindr (skip_bufs off (p_bufs p)) (\<lambda>(n, bs). Inr \<lparr>p_tot = p_tot p - of_nat n, p_bufs = bs\<rparr>)
          else pbuf_drop off p)"

definition with_p :: "tcp_seg \<Rightarrow> (pchain \<Rightarrow> pchain result) \<Rightarrow> tcp_seg result" where
  "with_p sg f =
     (case seg_p sg of None \<Rightarrow> Inl NullDeref | Some p \<Rightarrow> bindr (f p) (\<lambda>p. Inr (sg\<lparr>seg_p := Some p\<rparr>)))"

definition trim_first :: "tcp_seg \<Rightarrow> tcp_pcb \<Rightarrow> tcp_seg result" where
  "trim_first inseg pcb =
     (if TCP_SEQ_LT (seg_seqno inseg) (rcv_nxt pcb)
         \<and> TCP_SEQ_LT (rcv_nxt pcb) (seg_seqno inseg + ucast (seg_len inseg))
      then
        let off = rcv_nxt pcb - seg_seqno inseg in
        bindr (with_p inseg (trim_front (unat off))) (\<lambda>inseg.
          Inr (inseg\<lparr>seg_len := seg_len inseg - ucast off, seg_seqno := rcv_nxt pcb\<rparr>))
      else Inr inseg)"

definition trim_to :: "u32 \<Rightarrow> tcp_seg \<Rightarrow> tcp_seg result" where
  "trim_to seqno sg =
     (let len = ucast (seqno - seg_seqno sg) in
      with_p (sg\<lparr>seg_len := len\<rparr>) (\<lambda>p. pbuf_realloc p len))"

definition take_window :: "tcp_seg \<Rightarrow> tcp_pcb \<Rightarrow> tcp_pcb" where
  "take_window sg pcb =
     pcb\<lparr>rcv_nxt := rcv_nxt pcb + TCP_TCPLEN sg,
         rcv_wnd := (if ucast (rcv_wnd pcb) < TCP_TCPLEN sg then 0 else rcv_wnd pcb - ucast (TCP_TCPLEN sg))\<rparr>"

text \<open>
  The segments of \<open>ooseq\<close> that are in sequence now are chained to the data.  The test for
  a \<open>FIN\<close> looks at the incoming segment.
\<close>

primrec dequeue_ooseq :: "byte \<Rightarrow> tcp_seg list \<Rightarrow> tcp_pcb \<Rightarrow> tcp \<Rightarrow> (tcp_pcb \<times> tcp) result" where
  "dequeue_ooseq fl [] pcb t = Inr (pcb\<lparr>ooseq := []\<rparr>, t)"
| "dequeue_ooseq fl (cseg # segs) pcb t =
     (if seg_seqno cseg = rcv_nxt pcb then
        let pcb = take_window cseg pcb in
        case seg_p cseg of
          None \<Rightarrow> Inl NullDeref
        | Some p \<Rightarrow>
            bindr (if p_tot p > 0 then
                     (case recv_data pcb of
                        None \<Rightarrow> Inl NullDeref
                      | Some d \<Rightarrow> Inr (pcb\<lparr>recv_data := Some (pbuf_chain d p)\<rparr>))
                   else Inr pcb) (\<lambda>pcb.
            let pcb = (if fl AND TCP_FIN \<noteq> 0 then pcb\<lparr>flags := flags pcb OR TF_GOT_FIN\<rparr> else pcb) in
            dequeue_ooseq fl segs pcb (tcp_seg_free t))
      else Inr (pcb\<lparr>ooseq := cseg # segs\<rparr>, t))"

definition trim_last :: "tcp_seg \<Rightarrow> tcp_seg list \<Rightarrow> tcp_seg result" where
  "trim_last inseg oos =
     (case oos of
        [] \<Rightarrow> Inr inseg
      | o' # _ \<Rightarrow>
          if TCP_SEQ_LEQ (seg_seqno o') (seg_seqno inseg + ucast (seg_len inseg))
          then trim_to (seg_seqno o') inseg else Inr inseg)"

definition receive_in_sequence ::
  "tcp_env \<Rightarrow> tcp_seg \<Rightarrow> tcp_pcb \<Rightarrow> tcp \<Rightarrow> (tcp_seg \<times> tcp_pcb \<times> tcp) result" where
  "receive_in_sequence E inseg pcb t =
     bindr (trim_last inseg (ooseq pcb)) (\<lambda>inseg.
     let pcb = take_window inseg pcb in
     case seg_p inseg of
       None \<Rightarrow> Inl NullDeref
     | Some p \<Rightarrow>
         let (inseg, pcb) = (if p_tot p > 0 then (inseg\<lparr>seg_p := None\<rparr>, pcb\<lparr>recv_data := Some p\<rparr>) else (inseg, pcb));
             pcb = (if seg_flags inseg AND TCP_FIN \<noteq> 0 then pcb\<lparr>flags := flags pcb OR TF_GOT_FIN\<rparr> else pcb) in
         bindr (dequeue_ooseq (seg_flags inseg) (ooseq pcb) pcb t) (\<lambda>(pcb, t).
         bindr (tcp_ack E pcb t) (\<lambda>(pcb, t).
           Inr (inseg, pcb, t))))"

text \<open>
  The place of an out-of-sequence segment in \<open>ooseq\<close>.  \<open>n\<close> is what is left in the pool of
  segments; \<open>tcp_seg_copy\<close> takes one.  The answer has the trimmed incoming segment, the
  pool, the possibly trimmed predecessor and the rest of the list.
\<close>

fun ooseq_insert ::
  "tcp_seg \<Rightarrow> nat \<Rightarrow> tcp_seg option \<Rightarrow> tcp_seg list
     \<Rightarrow> (tcp_seg \<times> nat \<times> tcp_seg option \<times> tcp_seg list) result" where
  "ooseq_insert inseg n prev [] = Inr (inseg, n, prev, [])"
| "ooseq_insert inseg n prev (nxt # rest) =
     (let seqno = seg_seqno inseg;
          trim_in = (if TCP_SEQ_GT (seqno + ucast (seg_len inseg)) (seg_seqno nxt)
                     then trim_to (seg_seqno nxt) inseg else Inr inseg);
          trim_old = (\<lambda>sg. if TCP_SEQ_GT (seg_seqno sg + ucast (seg_len sg)) seqno
                          then trim_to seqno sg else Inr sg) in
      if seqno = seg_seqno nxt then
        (if seg_len inseg > seg_len nxt \<and> n > 0 then Inr (inseg, n - 1, prev, inseg # rest)
         else Inr (inseg, n, prev, nxt # rest))
      else if prev = None \<and> TCP_SEQ_LT seqno (seg_seqno nxt) then
        bindr trim_in (\<lambda>inseg.
          if n > 0 then Inr (inseg, n - 1, prev, inseg # nxt # rest)
          else Inr (inseg, n, prev, nxt # rest))
      else if prev \<noteq> None \<and> TCP_SEQ_LT (seg_seqno (the prev)) seqno \<and> TCP_SEQ_LT seqno (seg_seqno nxt) then
        bindr trim_in (\<lambda>inseg.
          if n > 0 then
            bindr (trim_old (the prev)) (\<lambda>pv. Inr (inseg, n - 1, Some pv, inseg # nxt # rest))
          else Inr (inseg, n, prev, nxt # rest))
      else if rest = [] \<and> TCP_SEQ_GT seqno (seg_seqno nxt) then
        (if n > 0 then bindr (trim_old nxt) (\<lambda>nxt. Inr (inseg, n - 1, prev, [nxt, inseg]))
         else Inr (inseg, n, prev, [nxt]))
      else
        bindr (ooseq_insert inseg n (Some nxt) rest) (\<lambda>(inseg, n, nxt', rest).
          Inr (inseg, n, prev, the nxt' # rest)))"

definition receive_out_of_sequence ::
  "tcp_env \<Rightarrow> tcp_seg \<Rightarrow> tcp_pcb \<Rightarrow> tcp \<Rightarrow> (tcp_seg \<times> tcp_pcb \<times> tcp) result" where
  "receive_out_of_sequence E inseg pcb t =
     bindr (tcp_ack_now E pcb t) (\<lambda>(pcb, t).
       if ooseq pcb = [] then
         (if t_seg_free t > 0
          then Inr (inseg, pcb\<lparr>ooseq := [inseg]\<rparr>, t\<lparr>t_seg_free := t_seg_free t - 1\<rparr>)
          else Inr (inseg, pcb, t))
       else
         bindr (ooseq_insert inseg (t_seg_free t) None (ooseq pcb)) (\<lambda>(inseg, n, _, oos).
           Inr (inseg, pcb\<lparr>ooseq := oos\<rparr>, t\<lparr>t_seg_free := n\<rparr>)))"

definition receive_data ::
  "tcp_env \<Rightarrow> tcp_seg \<Rightarrow> tcp_pcb \<Rightarrow> tcp \<Rightarrow> (tcp_seg \<times> tcp_pcb \<times> tcp) result" where
  "receive_data E inseg pcb t =
     (if TCP_TCPLEN inseg > 0 then
        bindr (trim_first inseg pcb) (\<lambda>inseg.
          if TCP_SEQ_GEQ (seg_seqno inseg) (rcv_nxt pcb)
             \<and> TCP_SEQ_LT (seg_seqno inseg) (rcv_nxt pcb + ucast (rcv_wnd pcb))
          then
            if rcv_nxt pcb = seg_seqno inseg then receive_in_sequence E inseg pcb t
            else receive_out_of_sequence E inseg pcb t
          else Inr (inseg, pcb, t))
      else if TCP_SEQ_GT (rcv_nxt pcb) (seg_seqno inseg)
              \<or> TCP_SEQ_GEQ (seg_seqno inseg) (rcv_nxt pcb + ucast (rcv_wnd pcb))
      then bindr (tcp_ack_now E pcb t) (\<lambda>(pcb, t). Inr (inseg, pcb, t))
      else Inr (inseg, pcb, t))"

definition tcp_receive ::
  "tcp_env \<Rightarrow> tcp_seg \<Rightarrow> tcp_pcb \<Rightarrow> tcp \<Rightarrow> (tcp_seg \<times> tcp_pcb \<times> tcp) result" where
  "tcp_receive E inseg pcb t =
     bindr (if seg_flags inseg AND TCP_ACK \<noteq> 0 then receive_ack inseg pcb t else Inr (pcb, t)) (\<lambda>(pcb, t).
       receive_data E inseg pcb t)"

section \<open>The state machine\<close>

text \<open>
  What \<open>tcp_process\<close> reads of a segment besides \<open>inseg\<close>: the addresses of the IP header 20
  bytes before the TCP header (if the datagram has these bytes), and the bytes behind the fixed part of the TCP header.
\<close>

record tcp_in =
  in_ip :: bool
  in_src :: addr_ip
  in_dest :: addr_ip
  in_opts :: "byte list"

definition process_rst :: "tcp_seg \<Rightarrow> tcp_pcb \<Rightarrow> tcp_pcb" where
  "process_rst inseg pcb =
     (let acceptable =
            (if state pcb = LISTEN then False
             else if state pcb = SYN_SENT then seg_ackno inseg = snd_nxt pcb
             else TCP_SEQ_GEQ (seg_seqno inseg) (rcv_nxt pcb)
                    \<and> TCP_SEQ_LEQ (seg_seqno inseg) (rcv_nxt pcb + ucast (rcv_wnd pcb))) in
      if acceptable then pcb\<lparr>flags := (flags pcb OR TF_RESET) AND NOT TF_ACK_DELAY\<rparr> else pcb)"

definition process_listen ::
  "app \<Rightarrow> tcp_env \<Rightarrow> tcp_in \<Rightarrow> tcp_seg \<Rightarrow> tcp_pcb \<Rightarrow> tcp \<Rightarrow> (err \<times> tcp) result" where
  "process_listen A E ip inseg pcb t =
     (let seqno = seg_seqno inseg; ackno = seg_ackno inseg in
      if seg_flags inseg AND TCP_ACK \<noteq> 0 then
        need (in_ip ip) OutOfBounds (
        bindr (tcp_rst A E (ackno + 1) (seqno + TCP_TCPLEN inseg) (in_dest ip) (in_src ip)
                 (seg_dest inseg) (seg_src inseg) t) (\<lambda>t. Inr (ERR_OK, t)))
      else if seg_flags inseg AND TCP_SYN \<noteq> 0 then
        bindr (tcp_new A E t) (\<lambda>(r, t).
          case r of
            None \<Rightarrow> Inr (ERR_OK, t)
          | Some j \<Rightarrow>
              need (in_ip ip) OutOfBounds (
              bindr (upd_pcb j (\<lambda>npcb. npcb\<lparr>local_ip := in_dest ip, local_port := local_port pcb,
                  remote_ip := in_src ip, remote_port := seg_src inseg, state := SYN_RCVD,
                  rcv_nxt := seqno + 1, snd_wnd := ucast (seg_wnd inseg), ssthresh := seg_wnd inseg,
                  snd_wl1 := seqno, has_accept := has_accept pcb, callback_arg := callback_arg pcb\<rparr>) t) (\<lambda>t.
                on_pcb j (\<lambda>npcb t.
                  bindr (tcp_parseopt inseg (in_opts ip) npcb) (\<lambda>npcb.
                  bindr (tcp_enqueue E [] (TCP_SYN OR TCP_ACK) False (Some (mss_option (mss npcb))) npcb t)
                    (\<lambda>(_, npcb, t). tcp_output E npcb t))) (reg_active j t))))
      else Inr (ERR_OK, t))"

definition process_syn_sent ::
  "app \<Rightarrow> tcp_env \<Rightarrow> tcp_in \<Rightarrow> nat \<Rightarrow> tcp_seg \<Rightarrow> tcp_pcb \<Rightarrow> tcp \<Rightarrow> tcp result" where
  "process_syn_sent A E ip i inseg pcb t =
     (if seg_flags inseg AND TCP_ACK \<noteq> 0 \<and> seg_flags inseg AND TCP_SYN \<noteq> 0 then
        case unacked pcb of
          [] \<Rightarrow> Inl NullDeref
        | rseg # rest \<Rightarrow>
            if seg_ackno inseg = seg_seqno rseg + 1 then
              bindr (tcp_parseopt inseg (in_opts ip)
                  (pcb\<lparr>rcv_nxt := seg_seqno inseg + 1, lastack := seg_ackno inseg, rcv_wnd := seg_wnd inseg,
                       state := ESTABLISHED, cwnd := mss pcb, snd_queuelen := snd_queuelen pcb - 1,
                       unacked := rest\<rparr>)) (\<lambda>pcb.
              bindr (let t = set_pcb i pcb (tcp_seg_free t) in
                     if has_connected pcb then bindr (on_connected A i t) (\<lambda>(_, t). Inr t) else Inr t) (\<lambda>t.
              bindr (on_pcb i (\<lambda>pcb t. bindr (tcp_ack E pcb t) (\<lambda>(pcb, t). Inr ((), pcb, t))) t) (\<lambda>(_, t).
                Inr t)))
            else Inr t
      else Inr t)"

definition process_syn_rcvd ::
  "app \<Rightarrow> tcp_env \<Rightarrow> nat \<Rightarrow> tcp_seg \<Rightarrow> tcp_pcb \<Rightarrow> tcp \<Rightarrow> (tcp_seg \<times> tcp) result" where
  "process_syn_rcvd A E i inseg pcb t =
     (if seg_flags inseg AND TCP_ACK \<noteq> 0 \<and> TCP_SEQ_LT (lastack pcb) (seg_ackno inseg)
         \<and> TCP_SEQ_LEQ (seg_ackno inseg) (snd_nxt pcb) then
        bindr (upd_pcb i (state_update (\<lambda>_. ESTABLISHED)) t) (\<lambda>t.
        bindr (if has_accept pcb then on_accept A i t else Inr (ERR_ABRT, t)) (\<lambda>(err, t).
          if err \<noteq> ERR_OK then bindr (tcp_abort A E i t) (\<lambda>t. Inr (inseg, t))
          else
            on_pcb i (\<lambda>pcb t.
              bindr (tcp_receive E inseg pcb t) (\<lambda>(inseg, pcb, t).
                Inr (inseg, pcb\<lparr>cwnd := mss pcb\<rparr>, t))) t))
      else Inr (inseg, t))"

text \<open>The end of a connection that goes to the state \<open>TIME_WAIT\<close>.\<close>

definition enter_time_wait :: "tcp_env \<Rightarrow> nat \<Rightarrow> tcp \<Rightarrow> tcp result" where
  "enter_time_wait E i t =
     bindr (on_pcb i (\<lambda>pcb t.
       bindr (tcp_ack_now E pcb t) (\<lambda>(pcb, t).
       let (pcb, t) = tcp_pcb_purge pcb t in
       Inr ((), pcb\<lparr>state := TIME_WAIT\<rparr>, t))) t) (\<lambda>(_, t).
     Inr (reg_tw i (rmv_active i t)))"

definition ack_and_set :: "tcp_env \<Rightarrow> nat \<Rightarrow> tcp_state \<Rightarrow> tcp \<Rightarrow> tcp result" where
  "ack_and_set E i st t =
     bindr (on_pcb i (\<lambda>pcb t.
       bindr (tcp_ack_now E pcb t) (\<lambda>(pcb, t). Inr ((), pcb\<lparr>state := st\<rparr>, t))) t) (\<lambda>(_, t). Inr t)"

text \<open>What follows \<open>tcp_receive\<close> in the states that have a connection.\<close>

definition process_connected :: "tcp_env \<Rightarrow> nat \<Rightarrow> tcp_state \<Rightarrow> byte \<Rightarrow> u32 \<Rightarrow> tcp \<Rightarrow> tcp result" where
  "process_connected E i st fl ackno t =
     bindr (pcb_of i t) (\<lambda>pcb.
       let fin = (fl AND TCP_FIN \<noteq> 0);
           acks = (fl AND TCP_ACK \<noteq> 0 \<and> ackno = snd_nxt pcb) in
       case st of
         CLOSE_WAIT \<Rightarrow> if fin then ack_and_set E i CLOSE_WAIT t else Inr t
       | ESTABLISHED \<Rightarrow> if fin then ack_and_set E i CLOSE_WAIT t else Inr t
       | FIN_WAIT_1 \<Rightarrow>
           if fin then if acks then enter_time_wait E i t else ack_and_set E i CLOSING t
           else if acks then upd_pcb i (state_update (\<lambda>_. FIN_WAIT_2)) t
           else Inr t
       | FIN_WAIT_2 \<Rightarrow> if fin then enter_time_wait E i t else Inr t
       | CLOSING \<Rightarrow> if acks then enter_time_wait E i t else Inr t
       | LAST_ACK \<Rightarrow>
           if acks then upd_pcb i (\<lambda>pcb. pcb\<lparr>state := CLOSED, flags := flags pcb OR TF_CLOSED\<rparr>) t else Inr t
       | _ \<Rightarrow> Inr t)"

definition process_time_wait :: "tcp_env \<Rightarrow> tcp_seg \<Rightarrow> tcp_pcb \<Rightarrow> tcp \<Rightarrow> (unit \<times> tcp_pcb \<times> tcp) result" where
  "process_time_wait E inseg pcb t =
     (let e = seg_seqno inseg + TCP_TCPLEN inseg;
          pcb = (if TCP_SEQ_GT e (rcv_nxt pcb) then pcb\<lparr>rcv_nxt := e\<rparr> else pcb) in
      if TCP_TCPLEN inseg > 0 then bindr (tcp_ack_now E pcb t) (\<lambda>(pcb, t). Inr ((), pcb, t))
      else Inr ((), pcb, t))"

definition tcp_process ::
  "app \<Rightarrow> tcp_env \<Rightarrow> tcp_in \<Rightarrow> nat \<Rightarrow> tcp_seg \<Rightarrow> tcp \<Rightarrow> (err \<times> tcp_seg \<times> tcp) result" where
  "tcp_process A E ip i inseg t =
     bindr (pcb_of i t) (\<lambda>pcb.
       if seg_flags inseg AND TCP_RST \<noteq> 0 then Inr (ERR_RST, inseg, set_pcb i (process_rst inseg pcb) t)
       else
         let pcb = (if state pcb \<noteq> LISTEN then pcb\<lparr>tmr := ucast (tcp_ticks t)\<rparr> else pcb);
             t = set_pcb i pcb t in
         case state pcb of
           CLOSED \<Rightarrow> Inr (ERR_OK, inseg, t)
         | LISTEN \<Rightarrow> bindr (process_listen A E ip inseg pcb t) (\<lambda>(err, t). Inr (err, inseg, t))
         | SYN_SENT \<Rightarrow> bindr (process_syn_sent A E ip i inseg pcb t) (\<lambda>t. Inr (ERR_OK, inseg, t))
         | SYN_RCVD \<Rightarrow> bindr (process_syn_rcvd A E i inseg pcb t) (\<lambda>(inseg, t). Inr (ERR_OK, inseg, t))
         | TIME_WAIT \<Rightarrow> bindr (on_pcb i (process_time_wait E inseg) t) (\<lambda>(_, t). Inr (ERR_OK, inseg, t))
         | st \<Rightarrow>
             bindr (on_pcb i (tcp_receive E inseg) t) (\<lambda>(inseg', t).
             bindr (process_connected E i st (seg_flags inseg) (seg_ackno inseg) t) (\<lambda>t.
               Inr (ERR_OK, inseg', t))))"

section \<open>Input\<close>

primrec find_pcb :: "(tcp_pcb \<Rightarrow> bool) \<Rightarrow> nat list \<Rightarrow> tcp \<Rightarrow> nat option result" where
  "find_pcb P [] t = Inr None"
| "find_pcb P (i # is) t = bindr (pcb_of i t) (\<lambda>pcb. if P pcb then Inr (Some i) else find_pcb P is t)"

definition same_connection :: "addr_ip \<Rightarrow> addr_ip \<Rightarrow> tcp_seg \<Rightarrow> tcp_pcb \<Rightarrow> bool" where
  "same_connection src dst inseg pcb \<longleftrightarrow>
     remote_port pcb = seg_src inseg \<and> local_port pcb = seg_dest inseg \<and> remote_ip pcb = src \<and> local_ip pcb = dst"

definition listens_to :: "addr_ip \<Rightarrow> tcp_seg \<Rightarrow> tcp_pcb \<Rightarrow> bool" where
  "listens_to dst inseg pcb \<longleftrightarrow> (local_ip pcb = 0 \<or> local_ip pcb = dst) \<and> local_port pcb = seg_dest inseg"

text \<open>
  The search for the PCB of a segment; a match in the first or the last list is moved to the front.
\<close>

definition demultiplex :: "addr_ip \<Rightarrow> addr_ip \<Rightarrow> tcp_seg \<Rightarrow> tcp \<Rightarrow> (nat option \<times> tcp) result" where
  "demultiplex src dst inseg t =
     bindr (find_pcb (same_connection src dst inseg) (tcp_active_pcbs t) t) (\<lambda>r.
       case r of
         Some i \<Rightarrow> Inr (Some i, reg_active i (rmv_active i t))
       | None \<Rightarrow>
           bindr (find_pcb (same_connection src dst inseg) (tcp_tw_pcbs t) t) (\<lambda>r.
             case r of
               Some i \<Rightarrow> Inr (Some i, t)
             | None \<Rightarrow>
                 bindr (find_pcb (listens_to dst inseg) (tcp_listen_pcbs t) t) (\<lambda>r.
                   case r of
                     Some i \<Rightarrow> Inr (Some i, reg_listen i (rmv_listen i t))
                   | None \<Rightarrow> Inr (None, t))))"

text \<open>What \<open>tcp_input\<close> does with the PCB after \<open>tcp_process\<close>.\<close>

definition input_reset :: "app \<Rightarrow> tcp_env \<Rightarrow> nat \<Rightarrow> tcp \<Rightarrow> tcp result" where
  "input_reset A E i t =
     bindr (pcb_of i t) (\<lambda>pcb.
     bindr (if has_errf pcb then on_errf A (callback_arg pcb) ERR_RST t else Inr t) (\<lambda>t.
     bindr (pcb_of i t) (\<lambda>pcb.
     bindr (tcp_pcb_remove E (if state pcb = TIME_WAIT then rmv_tw else rmv_active) i t) (free_pcb i))))"

definition input_deliver :: "app \<Rightarrow> tcp_env \<Rightarrow> nat \<Rightarrow> tcp \<Rightarrow> tcp result" where
  "input_deliver A E i t =
     bindr (pcb_of i t) (\<lambda>pcb.
     bindr (if acked pcb > 0 \<and> has_sent pcb then on_sent A i (acked pcb) t else Inr (ERR_OK, t)) (\<lambda>(err, t).
     bindr (pcb_of i t) (\<lambda>pcb.
     bindr (if has_recv pcb then
              bindr (if recv_data pcb \<noteq> None then on_recv A i (recv_data pcb) t else Inr (err, t)) (\<lambda>(err, t).
              bindr (pcb_of i t) (\<lambda>pcb.
                if flags pcb AND TF_GOT_FIN \<noteq> 0 then on_recv A i None t else Inr (err, t)))
            else if flags pcb AND TF_GOT_FIN \<noteq> 0 then bindr (tcp_close E i t) (\<lambda>(_, t). Inr (ERR_OK, t))
            else Inr (ERR_OK, t)) (\<lambda>(err, t).
       if err = ERR_OK then bindr (on_pcb i (tcp_output E) t) (\<lambda>(_, t). Inr t) else Inr t))))"

definition input_dispatch :: "app \<Rightarrow> tcp_env \<Rightarrow> nat \<Rightarrow> tcp \<Rightarrow> tcp result" where
  "input_dispatch A E i t =
     bindr (pcb_of i t) (\<lambda>pcb.
       if state pcb = LISTEN then Inr t
       else if flags pcb AND TF_RESET \<noteq> 0 then input_reset A E i t
       else if flags pcb AND TF_CLOSED \<noteq> 0 then bindr (tcp_pcb_remove E rmv_active i t) (free_pcb i)
       else if state_num (state pcb) < state_num TIME_WAIT then input_deliver A E i t
       else bindr (on_pcb i (tcp_output E) t) (\<lambda>(_, t). Inr t))"

definition ip_addr_isbroadcast :: "addr_ip \<Rightarrow> u32 \<Rightarrow> bool" where
  "ip_addr_isbroadcast a m \<longleftrightarrow>
     a AND NOT m = 0xffffffff AND NOT m \<or> a = 0xffffffff \<or> a = 0"

definition ip_addr_ismulticast :: "addr_ip \<Rightarrow> bool" where
  "ip_addr_ismulticast a \<longleftrightarrow> a AND ntohl 0xf0000000 = ntohl 0xe0000000"

definition parse_segment :: "byte list \<Rightarrow> tcp_seg" where
  "parse_segment s =
     (let dat = drop (unat (s ! 12) div 16 * 4) s in
      \<lparr>seg_p = Some \<lparr>p_tot = of_nat (length dat), p_bufs = [dat]\<rparr>, seg_len = of_nat (length dat),
       seg_src = ntohs (u16_at s 0), seg_dest = ntohs (u16_at s 2), seg_seqno = ntohl (u32_at s 4),
       seg_ackno = ntohl (u32_at s 8), seg_offset = s ! 12, seg_flags = s ! 13, seg_wnd = ntohs (u16_at s 14)\<rparr>)"

text \<open>
  \<open>tcp_input\<close> on the bytes of a datagram.  Neither the length of the IP header nor that of
  the TCP header is compared with the length of the datagram.
\<close>

definition tcp_input :: "app \<Rightarrow> tcp_env \<Rightarrow> byte list \<Rightarrow> tcp \<Rightarrow> tcp result" where
  "tcp_input A E d t =
     (let hl = unat (d ! 0 AND 0x0f) * 4;
          src = u32_at d 12; dst = u32_at d 16;
          s = drop hl d in
      need (20 \<le> length d \<and> hl \<le> length d) OutOfBounds (
      if ip_addr_isbroadcast dst (netif_mask E) \<or> ip_addr_ismulticast dst then Inr t
      else if inet_chksum_pseudo [s] src dst IP_PROTO_TCP (of_nat (length s)) \<noteq> 0 then Inr t
      else
        need (20 \<le> length s \<and> unat (s ! 12) div 16 * 4 \<le> length s) OutOfBounds (
        let inseg = parse_segment s in
        bindr (demultiplex src dst inseg t) (\<lambda>(r, t).
          case r of
            None \<Rightarrow>
              if seg_flags inseg AND TCP_RST = 0 then
                tcp_rst A E (seg_ackno inseg) (seg_seqno inseg + TCP_TCPLEN inseg) dst src
                  (seg_dest inseg) (seg_src inseg) t
              else Inr t
          | Some i \<Rightarrow>
              let ip = \<lparr>in_ip = (20 \<le> hl), in_src = u32_at d (hl - 8), in_dest = u32_at d (hl - 4), in_opts = drop 20 s\<rparr> in
              bindr (pcb_of i t) (\<lambda>pcb.
              let t = (if state pcb \<noteq> LISTEN \<and> state pcb \<noteq> TIME_WAIT
                       then set_pcb i (pcb\<lparr>recv_data := None\<rparr>) t else t) in
              bindr (tcp_process A E ip i inseg t) (\<lambda>(err, _, t).
                if err \<noteq> ERR_ABRT then input_dispatch A E i t else Inr t))))))"

text \<open>
  \<open>sr_transport_input\<close> copies the datagram into a buffer of the length the IP header gives.
\<close>

definition lwip_transport_input :: "app \<Rightarrow> tcp_env \<Rightarrow> byte list \<Rightarrow> tcp \<Rightarrow> tcp result" where
  "lwip_transport_input A E packet t =
     (let (ok, t) = pbuf_alloc E t;
          len = unat (ntohs (u16_at packet 2)) in
      need ok NullDeref (
      need (4 \<le> length packet \<and> len \<le> length packet) OutOfBounds (
      tcp_input A E (take len packet) t)))"

end
