(* ===== verification/LwTcpRecv.thy ===== *)
theory LwTcpRecv
  imports LwTcpIn
begin

text \<open>
  The receiving side of a connection.  The application gets the bytes of the stream the
  peer sends, in order and without gaps, whatever order, duplication and overlap the
  segments arrive with.
\<close>

section \<open>What sending leaves alone\<close>

definition rcv_side :: "tcp_pcb \<Rightarrow> u32 \<times> u16 \<times> tcp_seg list \<times> pchain option" where
  "rcv_side pcb = (rcv_nxt pcb, rcv_wnd pcb, ooseq pcb, recv_data pcb)"

lemma rcv_side_eq:
  "rcv_side p = rcv_side q \<longleftrightarrow>
     rcv_nxt p = rcv_nxt q \<and> rcv_wnd p = rcv_wnd q \<and> ooseq p = ooseq q \<and> recv_data p = recv_data q"
  by (simp add: rcv_side_def)

lemma rcv_side_upd:
  "rcv_side (p\<lparr>rtime := x0\<rparr>) = rcv_side p"
  "rcv_side (p\<lparr>unsent := x1\<rparr>) = rcv_side p"
  "rcv_side (p\<lparr>unacked := x2\<rparr>) = rcv_side p"
  "rcv_side (p\<lparr>flags := x3\<rparr>) = rcv_side p"
  "rcv_side (p\<lparr>snd_nxt := x4\<rparr>) = rcv_side p"
  "rcv_side (p\<lparr>snd_max := x5\<rparr>) = rcv_side p"
  "rcv_side (p\<lparr>nrtx := x6\<rparr>) = rcv_side p"
  "rcv_side (p\<lparr>rttest := x7\<rparr>) = rcv_side p"
  "rcv_side (p\<lparr>rtseq := x8\<rparr>) = rcv_side p"
  "rcv_side (p\<lparr>local_ip := x9\<rparr>) = rcv_side p"
  "rcv_side (p\<lparr>rto := x10\<rparr>) = rcv_side p"
  "rcv_side (p\<lparr>cwnd := x11\<rparr>) = rcv_side p"
  "rcv_side (p\<lparr>ssthresh := x12\<rparr>) = rcv_side p"
  "rcv_side (p\<lparr>dupacks := x13\<rparr>) = rcv_side p"
  "rcv_side (p\<lparr>snd_queuelen := x14\<rparr>) = rcv_side p"
  "rcv_side (p\<lparr>polltmr := x15\<rparr>) = rcv_side p"
  "rcv_side (p\<lparr>snd_buf := x16\<rparr>) = rcv_side p"
  "rcv_side (p\<lparr>acked := x17\<rparr>) = rcv_side p"
  "rcv_side (p\<lparr>lastack := x18\<rparr>) = rcv_side p"
  "rcv_side (p\<lparr>state := x19\<rparr>) = rcv_side p"
  by (simp_all add: rcv_side_def)

lemma tcp_output_segment_rcv:
  "tcp_output_segment E sg pcb t = Inr (sg', pcb', t') \<Longrightarrow> rcv_side pcb' = rcv_side pcb"
  by (auto simp: tcp_output_segment_def Let_def need_Inr_iff bindr_Inr_iff rcv_side_def
      split: option.splits if_splits)

lemma tcp_output_loop_rcv:
  "tcp_output_loop E wnd segs pcb t = Inr (pcb', t') \<Longrightarrow> rcv_side pcb' = rcv_side pcb"
proof (induction segs arbitrary: pcb t)
  case (Cons sg segs)
  show ?case
  proof (cases "seg_fits wnd pcb sg")
    case True
    from Cons.prems True show ?thesis
      by (auto simp: Let_def bindr_Inr_iff rcv_side_eq split: if_splits prod.splits
          dest!: tcp_output_segment_rcv Cons.IH)
  qed (use Cons.prems in simp)
qed simp

lemma tcp_output_rcv:
  "tcp_output E pcb t = Inr (e, pcb', t') \<Longrightarrow> rcv_side pcb' = rcv_side pcb"
  by (auto simp: tcp_output_def Let_def bindr_Inr_iff rcv_side_eq split: if_splits prod.splits
      dest!: tcp_output_loop_rcv)

lemma send_header_Inr: "length (hf c) = 20 \<Longrightarrow> (\<And>c. length (hf c) = 20) \<Longrightarrow>
   send_header src dest hf t = Inr (t\<lparr>t_out := t_out t @ [(src, dest, tcp_wire src dest hf \<lparr>p_tot = TCP_HLEN, p_bufs = [[]]\<rparr>)]\<rparr>)"
  by (simp add: send_header_def sr_lwip_output_def tcp_wire_def TCP_HLEN_def)

lemma length_tcp_hdr [simp]: "length (tcp_hdr a b c d e f g h) = 20"
  by (simp add: tcp_hdr_def be16_def be32_def)

lemma tcp_ack_now_returns: "\<exists>pcb' t'. tcp_ack_now E pcb t = Inr (pcb', t')"
proof -
  have "(flags pcb OR TF_ACK_NOW) AND TF_ACK_NOW \<noteq> 0"
    by (simp add: TF_ACK_NOW_def bit.conj_disj_distrib2)
  then show ?thesis
    by (auto simp: tcp_ack_now_def tcp_output_def Let_def pbuf_alloc_def send_header_Inr)
qed

lemma tcp_ack_returns: "\<exists>pcb' t'. tcp_ack E pcb t = Inr (pcb', t')"
  using tcp_ack_now_returns by (simp add: tcp_ack_def)

lemma tcp_ack_now_rcv: "tcp_ack_now E pcb t = Inr (pcb', t') \<Longrightarrow> rcv_side pcb' = rcv_side pcb"
  by (auto simp: tcp_ack_now_def bindr_Inr_iff rcv_side_eq dest!: tcp_output_rcv)

lemma tcp_ack_rcv: "tcp_ack E pcb t = Inr (pcb', t') \<Longrightarrow> rcv_side pcb' = rcv_side pcb"
  by (auto simp: tcp_ack_def rcv_side_eq split: if_splits dest!: tcp_ack_now_rcv)

lemma tcp_rexmit_seg_rcv: "tcp_rexmit_seg pcb sg t = Inr (pcb', sg', t') \<Longrightarrow> rcv_side pcb' = rcv_side pcb"
  by (auto simp: tcp_rexmit_seg_def Let_def bindr_Inr_iff rcv_side_def split: option.splits if_splits)

lemma inflate_rcv: "rcv_side (inflate pcb) = rcv_side pcb"
  by (simp add: inflate_def rcv_side_def)

lemma grow_cwnd_rcv: "grow_cwnd pcb = Inr pcb' \<Longrightarrow> rcv_side pcb' = rcv_side pcb"
  by (auto simp: grow_cwnd_def Let_def need_Inr_iff inflate_rcv split: if_splits) (simp_all add: rcv_side_def)

lemma duplicate_ack_rcv:
  assumes "duplicate_ack pcb t = Inr (pcb', t')"
  shows "rcv_side pcb' = rcv_side pcb"
proof (cases "unacked pcb")
  case Nil
  then show ?thesis using assms by (auto simp: duplicate_ack_def Let_def rcv_side_upd)
next
  case (Cons sg rest)
  let ?p = "pcb\<lparr>dupacks := dupacks pcb + 1\<rparr>"
  show ?thesis
  proof (cases "dupacks ?p < 3 \<or> flags pcb AND TF_INFR \<noteq> 0")
    case True
    then show ?thesis using assms Cons by (cases "dupacks ?p < 3") (auto simp: duplicate_ack_def Let_def inflate_rcv rcv_side_upd)
  next
    case False
    with assms Cons obtain p sg' where "tcp_rexmit_seg ?p sg t = Inr (p, sg', t')" "rcv_side pcb' = rcv_side p"
      by (simp add: duplicate_ack_def Let_def bindr_Inr_iff split_beta) (metis rcv_side_upd prod.collapse)
    then show ?thesis by (auto simp: rcv_side_upd dest!: tcp_rexmit_seg_rcv)
  qed
qed

lemma ack_unsent_rcv: "rcv_side (fst (ack_unsent ackno segs pcb t)) = rcv_side pcb"
  by (induction segs arbitrary: pcb t) (auto simp: Let_def rcv_side_def split: list.splits)

lemma ack_unacked_rcv: "rcv_side (fst (ack_unacked ackno segs pcb t)) = rcv_side pcb"
  by (induction segs arbitrary: pcb t) (auto simp: rcv_side_def)

lemma account_ack_rcv: "rcv_side (account_ack ackno pcb) = rcv_side pcb"
  by (simp add: account_ack_def Let_def rcv_side_def)

lemma drop_acked_rcv: "rcv_side (fst (drop_acked ackno pcb t)) = rcv_side pcb"
  by (simp add: drop_acked_def Let_def split_beta rcv_side_upd ack_unacked_rcv ack_unsent_rcv)

lemma new_ack_rcv:
  assumes "new_ack ackno pcb t = Inr (pcb', t')"
  shows "rcv_side pcb' = rcv_side pcb"
proof -
  from assms obtain p where p: "grow_cwnd (account_ack ackno pcb) = Inr p" "drop_acked ackno p t = (pcb', t')"
    by (auto simp: new_ack_def bindr_Inr_iff)
  show ?thesis
    using grow_cwnd_rcv [OF p(1)] drop_acked_rcv [of ackno p t] p(2) by (simp add: account_ack_rcv)
qed

lemma update_window_rcv: "rcv_side (update_window sg pcb) = rcv_side pcb"
  by (simp add: update_window_def Let_def rcv_side_def)

lemma rtt_estimate_rcv: "rcv_side (rtt_estimate ackno t pcb) = rcv_side pcb"
  by (simp add: rtt_estimate_def Let_def rcv_side_def)

lemma process_ack_rcv: "process_ack ackno pcb t = Inr (pcb', t') \<Longrightarrow> rcv_side pcb' = rcv_side pcb"
  by (auto simp: process_ack_def split: if_splits dest: duplicate_ack_rcv new_ack_rcv)

lemma receive_ack_rcv: "receive_ack sg pcb t = Inr (pcb', t') \<Longrightarrow> rcv_side pcb' = rcv_side pcb"
  by (auto simp: receive_ack_def bindr_Inr_iff rtt_estimate_rcv update_window_rcv dest!: process_ack_rcv)

section \<open>Sequence numbers\<close>

lemma seq_diff:
  assumes "int a - int b < 2 ^ 31" and "int b - int a \<le> 2 ^ 31"
  shows "sint ((isn + of_nat a) - (isn + of_nat b) :: u32) = int a - int b"
proof -
  have "(isn + of_nat a) - (isn + of_nat b) = (word_of_int (int a - int b) :: u32)" by simp
  moreover have "sint (word_of_int (int a - int b) :: u32) = int a - int b"
    unfolding sint_sbintrunc' by (rule signed_take_bit_int_eq_self) (use assms in simp_all)
  ultimately show ?thesis by (simp only:)
qed

text \<open>Two positions in the stream that are less than \<open>2 ^ 31\<close> apart are compared correctly.\<close>

lemma seq_cmp:
  assumes "a < b + 2 ^ 31" and "b < a + 2 ^ 31"
  shows "TCP_SEQ_LT (isn + of_nat a) (isn + of_nat b) \<longleftrightarrow> a < b"
    and "TCP_SEQ_LEQ (isn + of_nat a) (isn + of_nat b) \<longleftrightarrow> a \<le> b"
    and "TCP_SEQ_GT (isn + of_nat a) (isn + of_nat b) \<longleftrightarrow> b < a"
    and "TCP_SEQ_GEQ (isn + of_nat a) (isn + of_nat b) \<longleftrightarrow> b \<le> a"
    and "isn + of_nat a = isn + of_nat b \<longleftrightarrow> a = b"
proof -
  have d: "sint ((isn + of_nat a) - (isn + of_nat b) :: u32) = int a - int b"
    by (rule seq_diff) (use assms in simp_all)
  show "TCP_SEQ_LT (isn + of_nat a) (isn + of_nat b) \<longleftrightarrow> a < b"
    "TCP_SEQ_LEQ (isn + of_nat a) (isn + of_nat b) \<longleftrightarrow> a \<le> b"
    "TCP_SEQ_GT (isn + of_nat a) (isn + of_nat b) \<longleftrightarrow> b < a"
    "TCP_SEQ_GEQ (isn + of_nat a) (isn + of_nat b) \<longleftrightarrow> b \<le> a"
    by (auto simp only: d TCP_SEQ_LT_def TCP_SEQ_LEQ_def TCP_SEQ_GT_def TCP_SEQ_GEQ_def)
  show "isn + of_nat a = isn + of_nat b \<longleftrightarrow> a = b"
  proof
    assume "isn + of_nat a = isn + of_nat b"
    then have "sint ((isn + of_nat a) - (isn + of_nat b) :: u32) = 0" by simp
    then show "a = b" using d by simp
  qed simp
qed

section \<open>Segments of a stream\<close>

text \<open>
  A segment that carries the \<open>n\<close> bytes of the stream \<open>S\<close> from position \<open>p\<close> on, in one buffer
  as \<open>tcp_input\<close> makes it; position 0 has the sequence number \<open>isn\<close>.
\<close>

definition carries :: "(nat \<Rightarrow> byte) \<Rightarrow> u32 \<Rightarrow> tcp_seg \<Rightarrow> nat \<Rightarrow> nat \<Rightarrow> bool" where
  "carries S isn sg p n \<longleftrightarrow>
     seg_seqno sg = isn + of_nat p \<and> n < 65536 \<and> seg_len sg = of_nat n
     \<and> seg_flags sg AND TCP_FIN = 0 \<and> seg_flags sg AND TCP_SYN = 0
     \<and> seg_p sg = Some \<lparr>p_tot = of_nat n, p_bufs = [map S [p..<p + n]]\<rparr>"

lemma len_32:
  assumes "n < 65536"
  shows "unat (of_nat n :: u16) = n" and "unat (of_nat n :: u32) = n"
    and "ucast (of_nat n :: u16) = (of_nat n :: u32)" and "ucast (of_nat n :: u32) = (of_nat n :: u16)"
  using assms by (simp_all add: unat_of_nat word_unat_eq_iff unat_ucast_u32_u16)

lemma carriesD:
  assumes "carries S isn sg p n"
  shows "seg_seqno sg = isn + of_nat p" "n < 65536" "seg_len sg = of_nat n" "unat (seg_len sg) = n"
    "TCP_TCPLEN sg = of_nat n" "seg_p sg = Some \<lparr>p_tot = of_nat n, p_bufs = [map S [p..<p + n]]\<rparr>"
    "seg_flags sg AND TCP_FIN = 0"
proof -
  show 1: "seg_seqno sg = isn + of_nat p" "n < 65536" "seg_len sg = of_nat n"
    "seg_p sg = Some \<lparr>p_tot = of_nat n, p_bufs = [map S [p..<p + n]]\<rparr>" "seg_flags sg AND TCP_FIN = 0"
    using assms by (simp_all add: carries_def)
  show "unat (seg_len sg) = n" using len_32 [OF 1(2)] by (simp add: 1(3))
  show "TCP_TCPLEN sg = of_nat n" using assms len_32 [OF 1(2)] by (simp add: TCP_TCPLEN_def carries_def)
qed

lemma seq_add: "isn + of_nat p + of_nat n = (isn + of_nat (p + n) :: u32)"
  by simp

lemma seq_sub: "p \<le> q \<Longrightarrow> (isn + of_nat q) - (isn + of_nat p) = (of_nat (q - p) :: u32)"
  by (simp add: of_nat_diff)

text \<open>Cutting a segment at a position inside it.\<close>

lemma trim_to_carries:
  assumes "carries S isn sg p n" and "p \<le> q" and "q \<le> p + n"
  obtains sg' where "trim_to (isn + of_nat q) sg = Inr sg'" and "carries S isn sg' p (q - p)"
proof -
  note c = carriesD [OF assms(1)]
  have le: "q - p \<le> n" using assms(2,3) by linarith
  then have qp: "q - p < 65536" using c(2) by linarith
  have "isn + of_nat q - seg_seqno sg = of_nat (q - p)" unfolding c(1) by (rule seq_sub [OF assms(2)])
  then have len: "ucast (isn + of_nat q - seg_seqno sg) = (of_nat (q - p) :: u16)"
    by (simp only: len_32(4) [OF qp])
  have tk: "take (q - p) (map S [p..<p + n]) = map S [p..<p + (q - p)]"
    using le by (simp add: take_map)
  have "pbuf_realloc \<lparr>p_tot = of_nat n, p_bufs = [map S [p..<p + n]]\<rparr> (of_nat (q - p))
      = Inr \<lparr>p_tot = of_nat (q - p), p_bufs = [map S [p..<p + (q - p)]]\<rparr>"
  proof (cases "q - p = n")
    case True
    then show ?thesis by (simp add: pbuf_realloc_def)
  next
    case False
    with le have "\<not> (of_nat n :: u16) \<le> of_nat (q - p)"
      using len_32(1) [OF qp] len_32(1) [OF c(2)] by (simp add: word_le_nat_alt)
    then show ?thesis using le len_32(1) [OF qp] by (simp add: pbuf_realloc_def tk)
  qed
  then have "trim_to (isn + of_nat q) sg = Inr (sg\<lparr>seg_len := of_nat (q - p),
      seg_p := Some \<lparr>p_tot = of_nat (q - p), p_bufs = [map S [p..<p + (q - p)]]\<rparr>\<rparr>)"
    by (simp add: trim_to_def len with_p_def c(6) Let_def)
  then show ?thesis by (rule that) (use assms(1) qp in \<open>simp add: carries_def\<close>)
qed

lemma trim_first_carries:
  assumes "carries S isn sg p n" and "rcv_nxt pcb = isn + of_nat r"
    and "p < r + 2 ^ 30" and "r < p + 2 ^ 30"
  obtains sg' where "trim_first sg pcb = Inr sg'"
    and "if p < r \<and> r < p + n then carries S isn sg' r (p + n - r) else sg' = sg"
proof -
  note c = carriesD [OF assms(1)]
  have e: "seg_seqno sg + ucast (seg_len sg) = isn + of_nat (p + n)"
    using len_32(3) [OF c(2)] by (simp add: c(1,3))
  have cond: "TCP_SEQ_LT (seg_seqno sg) (rcv_nxt pcb)
      \<and> TCP_SEQ_LT (rcv_nxt pcb) (seg_seqno sg + ucast (seg_len sg)) \<longleftrightarrow> p < r \<and> r < p + n"
    unfolding e unfolding c(1) assms(2) using c(2) assms(3,4) by (simp add: seq_cmp(1) del: of_nat_add)
  show ?thesis
  proof (cases "p < r \<and> r < p + n")
    case False
    then have "trim_first sg pcb = Inr sg" by (simp only: trim_first_def cond if_False)
    then show ?thesis by (rule that) (use False in auto)
  next
    case True
    then obtain k m where k: "r = p + k" "n = k + m"
      by (metis add.assoc le_iff_add less_imp_le nat_add_left_cancel_less)
    have lt: "k < 65536" "m < 65536" "k < n" using True c(2) k by simp_all
    have off: "rcv_nxt pcb - seg_seqno sg = of_nat k" by (simp add: assms(2) c(1) k)
    have dr: "drop k (map S [p..<p + n]) = map S [r..<r + m]" by (simp add: drop_map k add.assoc)
    have front: "trim_front k \<lparr>p_tot = of_nat n, p_bufs = [map S [p..<p + n]]\<rparr>
        = Inr \<lparr>p_tot = of_nat m, p_bufs = [map S [r..<r + m]]\<rparr>"
      using lt by (simp add: trim_front_def pbuf_drop_def dr) (simp add: k)
    have len: "seg_len sg - of_nat k = of_nat m" by (simp add: c(3) k)
    have "trim_first sg pcb = Inr (sg\<lparr>seg_p := Some \<lparr>p_tot = of_nat m, p_bufs = [map S [r..<r + m]]\<rparr>,
        seg_len := of_nat m, seg_seqno := rcv_nxt pcb\<rparr>)"
      using cond True by (simp add: trim_first_def off with_p_def c(6) len_32(2,4) [OF lt(1)] front len Let_def)
    then show ?thesis
      by (rule that) (use True assms(1,2) lt(2) k in \<open>simp add: carries_def\<close>)
  qed
qed

text \<open>
  The segments kept in \<open>ooseq\<close> carry bytes of the stream, are not empty, lie between \<open>lo\<close> and
  \<open>hi\<close>, and follow each other without overlap.
\<close>

fun ooseq_ok :: "(nat \<Rightarrow> byte) \<Rightarrow> u32 \<Rightarrow> nat \<Rightarrow> nat \<Rightarrow> tcp_seg list \<Rightarrow> bool" where
  "ooseq_ok S isn lo hi [] \<longleftrightarrow> True"
| "ooseq_ok S isn lo hi (sg # sgs) \<longleftrightarrow>
     (\<exists>p n. carries S isn sg p n \<and> 0 < n \<and> lo \<le> p \<and> p + n \<le> hi \<and> ooseq_ok S isn (p + n) hi sgs)"

lemma ooseq_okI:
  "carries S isn sg p n \<Longrightarrow> 0 < n \<Longrightarrow> lo \<le> p \<Longrightarrow> p + n \<le> hi \<Longrightarrow> ooseq_ok S isn (p + n) hi sgs \<Longrightarrow>
     ooseq_ok S isn lo hi (sg # sgs)"
  by auto

lemma ooseq_okE:
  assumes "ooseq_ok S isn lo hi (sg # sgs)"
  obtains p n where "carries S isn sg p n" "0 < n" "lo \<le> p" "p + n \<le> hi" "ooseq_ok S isn (p + n) hi sgs"
  using assms by auto

declare ooseq_ok.simps(2) [simp del]

lemma ooseq_ok_mono: "ooseq_ok S isn lo hi sgs \<Longrightarrow> lo' \<le> lo \<Longrightarrow> hi \<le> hi' \<Longrightarrow> ooseq_ok S isn lo' hi' sgs"
proof (induction sgs arbitrary: lo lo')
  case (Cons sg sgs)
  then obtain p n where *: "carries S isn sg p n" "0 < n" "lo \<le> p" "p + n \<le> hi" "ooseq_ok S isn (p + n) hi sgs"
    by (auto elim: ooseq_okE)
  have "ooseq_ok S isn (p + n) hi' sgs" using Cons.IH [OF *(5) order_refl Cons.prems(3)] .
  moreover have "lo' \<le> p" "p + n \<le> hi'" using * Cons.prems(2,3) by linarith+
  ultimately show ?case using *(1,2) by (auto intro: ooseq_okI)
qed simp

text \<open>Cutting a segment in front of a later position, if it reaches beyond it.\<close>

lemma cut_before:
  assumes "carries S isn sg p n" and "0 < n" and "p < q" and "q < p + 2 ^ 30"
  obtains sg' n' where
    "(if TCP_SEQ_GT (seg_seqno sg + ucast (seg_len sg)) (isn + of_nat q) then trim_to (isn + of_nat q) sg else Inr sg) = Inr sg'"
    and "carries S isn sg' p n'" and "0 < n'" and "p + n' \<le> q" and "n' \<le> n"
proof -
  note c = carriesD [OF assms(1)]
  have e: "seg_seqno sg + ucast (seg_len sg) = isn + of_nat (p + n)"
    using len_32(3) [OF c(2)] by (simp add: c(1,3))
  have gt: "TCP_SEQ_GT (seg_seqno sg + ucast (seg_len sg)) (isn + of_nat q) \<longleftrightarrow> q < p + n"
    unfolding e using c(2) assms(3,4) by (simp add: seq_cmp(3) del: of_nat_add)
  show ?thesis
  proof (cases "q < p + n")
    case True
    then have le: "p \<le> q" "q \<le> p + n" using assms(3) by simp_all
    obtain sg' where "trim_to (isn + of_nat q) sg = Inr sg'" "carries S isn sg' p (q - p)"
      by (rule trim_to_carries [OF assms(1) le])
    then show ?thesis by (intro that [of sg' "q - p"]) (use True gt assms(3) in auto)
  next
    case False
    then show ?thesis by (intro that [of sg n]) (use gt assms(1,2) in auto)
  qed
qed

section \<open>Taking buffered segments\<close>

definition delivered :: "tcp_pcb \<Rightarrow> byte list" where
  "delivered pcb = (case recv_data pcb of None \<Rightarrow> [] | Some d \<Rightarrow> concat (p_bufs d))"

lemma take_window_nxt:
  assumes "carries S isn sg q n" and "rcv_nxt pcb = isn + of_nat q"
  shows "rcv_nxt (take_window sg pcb) = isn + of_nat (q + n)"
    and "recv_data (take_window sg pcb) = recv_data pcb" and "ooseq (take_window sg pcb) = ooseq pcb"
  using carriesD [OF assms(1)] assms(2) by (simp_all add: take_window_def)

lemma dequeue_ooseq_ok:
  assumes "ooseq_ok S isn q hi sgs" and "hi < q + 2 ^ 30" and "fl AND TCP_FIN = 0"
    and "rcv_nxt pcb = isn + of_nat q" and "recv_data pcb = Some d" and "concat (p_bufs d) = map S [r..<q]" and "r \<le> q"
  shows "\<exists>q' d' pcb' t'. dequeue_ooseq fl sgs pcb t = Inr (pcb', t') \<and> q \<le> q' \<and> rcv_nxt pcb' = isn + of_nat q'
     \<and> recv_data pcb' = Some d' \<and> concat (p_bufs d') = map S [r..<q'] \<and> ooseq_ok S isn (q' + 1) hi (ooseq pcb')"
  using assms
proof (induction sgs arbitrary: q pcb t d)
  case Nil
  then show ?case by (intro exI [of _ q] exI [of _ d]) simp
next
  case (Cons sg sgs)
  from Cons.prems(1) obtain p n where
    p: "carries S isn sg p n" "0 < n" "q \<le> p" "p + n \<le> hi" "ooseq_ok S isn (p + n) hi sgs"
    by (auto elim: ooseq_okE)
  note c = carriesD [OF p(1)]
  have eq: "seg_seqno sg = rcv_nxt pcb \<longleftrightarrow> p = q"
    unfolding c(1) Cons.prems(4) by (rule seq_cmp(5)) (use p(3,4) Cons.prems(2) in simp_all)
  show ?case
  proof (cases "p = q")
    case True
    let ?p = "\<lparr>p_tot = of_nat n, p_bufs = [map S [p..<p + n]]\<rparr> :: pchain"
    let ?pcb = "(take_window sg pcb)\<lparr>recv_data := Some (pbuf_chain d ?p)\<rparr>"
    note w = take_window_nxt [OF p(1) [unfolded True] Cons.prems(4)]
    have pos: "(0 :: u16) < of_nat n" using len_32(1) [OF c(2)] p(2) by (simp add: word_less_nat_alt)
    have "concat (p_bufs (pbuf_chain d ?p)) = map S [r..<q] @ map S [q..<q + n]"
      using Cons.prems(6) True by (simp add: pbuf_chain_def)
    also have "\<dots> = map S [r..<q + n]" using Cons.prems(7) by (metis map_append upt_add_eq_append)
    finally have cat: "concat (p_bufs (pbuf_chain d ?p)) = map S [r..<q + n]" .
    have step: "dequeue_ooseq fl (sg # sgs) pcb t = dequeue_ooseq fl sgs ?pcb (tcp_seg_free t)"
      using True eq c(6) pos Cons.prems(3,5) w by (simp add: Let_def)
    have hi: "hi < q + n + 2 ^ 30" using Cons.prems(2) by linarith
    have ih: "\<exists>q' d' pcb' t'. dequeue_ooseq fl sgs ?pcb (tcp_seg_free t) = Inr (pcb', t') \<and> q + n \<le> q' \<and> rcv_nxt pcb' = isn + of_nat q'
        \<and> recv_data pcb' = Some d' \<and> concat (p_bufs d') = map S [r..<q'] \<and> ooseq_ok S isn (q' + 1) hi (ooseq pcb')"
      by (rule Cons.IH [OF p(5) [unfolded True] hi Cons.prems(3) _ _ cat]) (use w Cons.prems(7) in simp_all)
    then obtain q' d' pcb' t' where "dequeue_ooseq fl sgs ?pcb (tcp_seg_free t) = Inr (pcb', t')" "q + n \<le> q'"
      "rcv_nxt pcb' = isn + of_nat q'" "recv_data pcb' = Some d'" "concat (p_bufs d') = map S [r..<q']"
      "ooseq_ok S isn (q' + 1) hi (ooseq pcb')" by blast
    then show ?thesis unfolding step by (intro exI [of _ q'] exI [of _ d'] exI [of _ pcb'] exI [of _ t']) simp
  next
    case False
    then have "dequeue_ooseq fl (sg # sgs) pcb t = Inr (pcb\<lparr>ooseq := sg # sgs\<rparr>, t)" using eq by simp
    moreover have "q + 1 \<le> p" using p(3) False by simp
    then have "ooseq_ok S isn (q + 1) hi (sg # sgs)" using p by (auto intro: ooseq_okI)
    ultimately show ?thesis using Cons.prems(4-6) by (intro exI [of _ q] exI [of _ d]) simp
  qed
qed

section \<open>Buffering a segment\<close>

definition opt_list :: "'a option \<Rightarrow> 'a list" where
  "opt_list x = (case x of None \<Rightarrow> [] | Some a \<Rightarrow> [a])"

lemma opt_list_simps [simp]: "opt_list None = []" "opt_list (Some a) = [a]"
  by (simp_all add: opt_list_def)

text \<open>
  A segment that has the position of a buffered one but more bytes replaces it and is not
  cut where the next one begins.  It must not reach that far.
\<close>

definition may_replace :: "tcp_seg \<Rightarrow> tcp_seg list \<Rightarrow> bool" where
  "may_replace sg sgs \<longleftrightarrow>
     (\<forall>x\<in>set sgs. seg_seqno x = seg_seqno sg \<longrightarrow> seg_len sg \<le> seg_len x
        \<or> (\<forall>y\<in>set sgs. TCP_SEQ_GT (seg_seqno y) (seg_seqno sg) \<longrightarrow>
               TCP_SEQ_GEQ (seg_seqno y) (seg_seqno sg + ucast (seg_len sg))))"

lemma may_replace_Cons: "may_replace sg (x # sgs) \<Longrightarrow> may_replace sg sgs"
  by (auto simp: may_replace_def)

lemma replaced_ok:
  assumes "carries S isn sg p n" and "0 < n" and "lo \<le> p" and "p + n \<le> hi" and "hi < lo + 2 ^ 30"
    and "carries S isn x p m" and "0 < m" and "ooseq_ok S isn (p + m) hi rest" and "may_replace sg (x # rest)"
    and "\<not> seg_len sg \<le> seg_len x"
  shows "ooseq_ok S isn lo hi (sg # rest)"
proof (rule ooseq_okI [OF assms(1-4)], cases rest)
  case (Cons y ys)
  then obtain q k where q: "carries S isn y q k" "0 < k" "p + m \<le> q" "q + k \<le> hi" "ooseq_ok S isn (q + k) hi ys"
    using assms(8) by (auto elim: ooseq_okE)
  note c = carriesD [OF assms(1)] and d = carriesD [OF q(1)]
  have "seg_seqno x = seg_seqno sg" using c(1) carriesD(1) [OF assms(6)] by simp
  then have "TCP_SEQ_GT (seg_seqno y) (seg_seqno sg) \<longrightarrow> TCP_SEQ_GEQ (seg_seqno y) (seg_seqno sg + ucast (seg_len sg))"
    using assms(9,10) Cons by (auto simp: may_replace_def)
  moreover have e: "seg_seqno sg + ucast (seg_len sg) = isn + of_nat (p + n)"
    using len_32(3) [OF c(2)] by (simp add: c(1,3))
  moreover have "TCP_SEQ_GT (seg_seqno y) (seg_seqno sg)"
    using q assms(3-5,7) c(1) d(1) by (simp add: seq_cmp(3))
  moreover have "TCP_SEQ_GEQ (isn + of_nat q) (isn + of_nat (p + n)) \<longleftrightarrow> p + n \<le> q"
    by (rule seq_cmp(4)) (use q assms(3-5) in simp_all)
  ultimately have "p + n \<le> q" using d(1) by simp
  then show "ooseq_ok S isn (p + n) hi rest" using Cons by (auto intro: ooseq_okI [OF q(1,2) _ q(4,5)])
qed simp

lemma ooseq_insert_ok:
  assumes "ooseq_ok S isn lo hi (opt_list prev @ sgs)" and "carries S isn sg p n" and "0 < n"
    and "lo \<le> p" and "p + n \<le> hi" and "hi < lo + 2 ^ 30"
    and "prev \<noteq> None \<Longrightarrow> TCP_SEQ_LT (seg_seqno (the prev)) (seg_seqno sg)"
    and "may_replace sg sgs"
  shows "\<exists>sg' k' prev' sgs'. ooseq_insert sg k prev sgs = Inr (sg', k', prev', sgs')
     \<and> (prev' = None \<longleftrightarrow> prev = None) \<and> ooseq_ok S isn lo hi (opt_list prev' @ sgs')"
  using assms
proof (induction sgs arbitrary: prev lo)
  case Nil
  then show ?case by simp
next
  case (Cons x rest)
  note c = carriesD [OF Cons.prems(2)]
  obtain lx q m where q: "carries S isn x q m" "0 < m" "lo \<le> q" "lx \<le> q" "q + m \<le> hi" "ooseq_ok S isn (q + m) hi rest"
    and pv: "\<And>pv. prev = Some pv \<Longrightarrow> \<exists>pp pn. carries S isn pv pp pn \<and> 0 < pn \<and> lo \<le> pp \<and> pp + pn = lx \<and> pp < p"
    and pn: "prev = None \<Longrightarrow> lx = lo" and lx: "lo \<le> lx"
  proof (cases prev)
    case None
    then show ?thesis using Cons.prems(1) that by (auto elim: ooseq_okE)
  next
    case (Some a)
    then obtain pp pn q m where *: "carries S isn a pp pn" "0 < pn" "lo \<le> pp" "pp + pn \<le> hi" "carries S isn x q m"
      "0 < m" "pp + pn \<le> q" "q + m \<le> hi" "ooseq_ok S isn (q + m) hi rest"
      using Cons.prems(1) by (auto elim!: ooseq_okE)
    have "pp < p" using Cons.prems(4-7) Some * carriesD(1) [OF *(1)] c(1) by (simp add: seq_cmp(1))
    then show ?thesis using * Some that [of q m "pp + pn"] by auto
  qed
  note d = carriesD [OF q(1)]
  have near: "p < q + 2 ^ 31" "q < p + 2 ^ 31" using q(2,3,5) Cons.prems(3-6) by simp_all
  note cmp = seq_cmp [OF near, of isn] seq_cmp [OF near(2,1), of isn]
  have lxh: "lx \<le> hi" using q(2,4,5) by simp
  have onto: "ooseq_ok S isn lo hi (opt_list prev @ ys)" if "ooseq_ok S isn lx hi ys" for ys
  proof (cases prev)
    case (Some pv)
    from pv [OF Some] obtain pp pn where "carries S isn pv pp pn" "0 < pn" "lo \<le> pp" "pp + pn = lx" by blast
    then show ?thesis using that lxh Some by (auto intro: ooseq_okI)
  qed (use that pn in simp)
  have cons: "ooseq_ok S isn lo hi (opt_list prev @ x # rest)" by (rule Cons.prems(1))
  consider "p = q" | "prev = None" "p < q" | pv where "prev = Some pv" "p < q" | "rest = []" "q < p" | "rest \<noteq> []" "q < p"
    by (cases prev) fastforce+
  then show ?case
  proof cases
    case 1
    then have e: "seg_seqno sg = seg_seqno x" using c d by simp
    show ?thesis
    proof (cases "seg_len sg > seg_len x \<and> k > 0")
      case True
      have "hi < lx + 2 ^ 30" using Cons.prems(6) lx by simp
      moreover have "lx \<le> p" "carries S isn x p m" "ooseq_ok S isn (p + m) hi rest" using q(1,4,6) 1 by simp_all
      ultimately have "ooseq_ok S isn lx hi (sg # rest)"
        using replaced_ok [OF Cons.prems(2,3) _ Cons.prems(5) _ _ q(2) _ Cons.prems(8)] True by (simp add: not_le)
      then show ?thesis using e True onto by simp
    qed (use e cons in auto)
  next
    case 2
    have "q < p + 2 ^ 30" using q Cons.prems by simp
    obtain sg' n' where cut: "(if TCP_SEQ_GT (seg_seqno sg + ucast (seg_len sg)) (isn + of_nat q) then trim_to (isn + of_nat q) sg else Inr sg) = Inr sg'"
      "carries S isn sg' p n'" "0 < n'" "p + n' \<le> q" "n' \<le> n"
      by (rule cut_before [OF Cons.prems(2,3) 2(2) \<open>q < p + 2 ^ 30\<close>])
    have xr: "ooseq_ok S isn (p + n') hi (x # rest)" by (rule ooseq_okI [OF q(1,2) cut(4) q(5,6)])
    have "p + n' \<le> hi" using cut(5) Cons.prems(5) by simp
    then have "ooseq_ok S isn lo hi (sg' # x # rest)" by (rule ooseq_okI [OF cut(2,3) Cons.prems(4) _ xr])
    then show ?thesis using 2 cut(1) cons cmp c(1) d(1) by (auto simp: Let_def)
  next
    case 3
    from pv [OF 3(1)] obtain pp pn where pp: "carries S isn pv pp pn" "0 < pn" "lo \<le> pp" "pp + pn = lx" "pp < p" by blast
    have "q < p + 2 ^ 30" "p < pp + 2 ^ 30" using q pp Cons.prems by simp_all
    obtain sg' n' where cut: "(if TCP_SEQ_GT (seg_seqno sg + ucast (seg_len sg)) (isn + of_nat q) then trim_to (isn + of_nat q) sg else Inr sg) = Inr sg'"
      "carries S isn sg' p n'" "0 < n'" "p + n' \<le> q" "n' \<le> n"
      by (rule cut_before [OF Cons.prems(2,3) 3(2) \<open>q < p + 2 ^ 30\<close>])
    obtain pv' pn' where cut': "(if TCP_SEQ_GT (seg_seqno pv + ucast (seg_len pv)) (isn + of_nat p) then trim_to (isn + of_nat p) pv else Inr pv) = Inr pv'"
      "carries S isn pv' pp pn'" "0 < pn'" "pp + pn' \<le> p" "pn' \<le> pn"
      by (rule cut_before [OF pp(1,2,5) \<open>p < pp + 2 ^ 30\<close>])
    have le: "p + n' \<le> hi" "pp + pn' \<le> hi" using cut(5) cut'(4) Cons.prems(5) by simp_all
    have xr: "ooseq_ok S isn (p + n') hi (x # rest)" by (rule ooseq_okI [OF q(1,2) cut(4) q(5,6)])
    have "ooseq_ok S isn lo hi (pv' # sg' # x # rest)"
      by (rule ooseq_okI [OF cut'(2,3) pp(3) le(2) ooseq_okI [OF cut(2,3) cut'(4) le(1) xr]])
    moreover have "TCP_SEQ_LT (seg_seqno pv) (seg_seqno sg)" using Cons.prems(7) 3(1) by simp
    ultimately show ?thesis using 3 cut(1) cut'(1) cons cmp c(1) d(1) by (auto simp: Let_def)
  next
    case 4
    have "p < q + 2 ^ 30" using q Cons.prems by simp
    obtain x' m' where cut: "(if TCP_SEQ_GT (seg_seqno x + ucast (seg_len x)) (isn + of_nat p) then trim_to (isn + of_nat p) x else Inr x) = Inr x'"
      "carries S isn x' q m'" "0 < m'" "q + m' \<le> p" "m' \<le> m"
      by (rule cut_before [OF q(1,2) 4(2) \<open>p < q + 2 ^ 30\<close>])
    have "q + m' \<le> hi" using cut(5) q(5) by simp
    then have l: "ooseq_ok S isn lx hi [x', sg]"
      by (rule ooseq_okI [OF cut(2,3) q(4) _ ooseq_okI [OF Cons.prems(2,3) cut(4) Cons.prems(5)]]) simp
    have "ooseq_ok S isn lo hi (opt_list prev @ [x', sg])" by (rule onto [OF l])
    then show ?thesis using 4 cut(1) cons cmp c(1) d(1) by (auto simp: Let_def)
  next
    case 5
    have l: "ooseq_ok S isn lx hi (opt_list (Some x) @ rest)" using q by (auto intro: ooseq_okI)
    have "lx \<le> p" "hi < lx + 2 ^ 30" using q(4) 5(2) Cons.prems(6) lx by simp_all
    then obtain sg' k' x' rest' where ih: "ooseq_insert sg k (Some x) rest = Inr (sg', k', Some x', rest')"
      "ooseq_ok S isn lx hi (x' # rest')"
      using Cons.IH [OF l Cons.prems(2,3) _ Cons.prems(5)] may_replace_Cons [OF Cons.prems(8)] cmp 5(2) c(1) d(1) by fastforce
    have "ooseq_ok S isn lo hi (opt_list prev @ x' # rest')" by (rule onto [OF ih(2)])
    then show ?thesis using 5 ih(1) cmp c(1) d(1) by (auto simp: Let_def)
  qed
qed

section \<open>One segment\<close>

text \<open>
  The receiving side when the application has been given the first \<open>r\<close> bytes of the stream.
  Buffered segments begin inside the window, which is at most 65535 bytes wide.
\<close>

definition rcv_ok :: "(nat \<Rightarrow> byte) \<Rightarrow> u32 \<Rightarrow> nat \<Rightarrow> tcp_pcb \<Rightarrow> bool" where
  "rcv_ok S isn r pcb \<longleftrightarrow> rcv_nxt pcb = isn + of_nat r \<and> ooseq_ok S isn (r + 1) (r + 131072) (ooseq pcb)"

lemma rcv_ok_side: "rcv_side p = rcv_side q \<Longrightarrow> rcv_ok S isn r p \<longleftrightarrow> rcv_ok S isn r q"
  by (simp add: rcv_ok_def rcv_side_eq)

lemma delivered_side: "rcv_side p = rcv_side q \<Longrightarrow> delivered p = delivered q"
  by (simp add: delivered_def rcv_side_eq)

lemma trim_last_ok:
  assumes "carries S isn sg r m" and "0 < m" and "ooseq_ok S isn (r + 1) (r + 131072) oos"
  obtains sg' m' where "trim_last sg oos = Inr sg'" and "carries S isn sg' r m'" and "0 < m'"
    and "ooseq_ok S isn (r + m') (r + 131072) oos"
proof (cases oos)
  case Nil
  then show ?thesis using that [of sg m] assms by (simp add: trim_last_def)
next
  case (Cons x rest)
  then obtain q k where q: "carries S isn x q k" "0 < k" "r + 1 \<le> q" "q + k \<le> r + 131072" "ooseq_ok S isn (q + k) (r + 131072) rest"
    using assms(3) by (auto elim: ooseq_okE)
  note c = carriesD [OF assms(1)] and d = carriesD [OF q(1)]
  have e: "seg_seqno sg + ucast (seg_len sg) = isn + of_nat (r + m)"
    using len_32(3) [OF c(2)] by (simp add: c(1,3))
  have leq: "TCP_SEQ_LEQ (seg_seqno x) (seg_seqno sg + ucast (seg_len sg)) \<longleftrightarrow> q \<le> r + m"
    unfolding e unfolding d(1) using c(2) q by (simp add: seq_cmp(2) del: of_nat_add)
  show ?thesis
  proof (cases "q \<le> r + m")
    case True
    have "r \<le> q" using q(3) by simp
    then obtain sg' where "trim_to (isn + of_nat q) sg = Inr sg'" "carries S isn sg' r (q - r)"
      using trim_to_carries [OF assms(1) _ True] by blast
    moreover have "ooseq_ok S isn (r + (q - r)) (r + 131072) oos" using q Cons by (auto intro: ooseq_okI)
    ultimately show ?thesis
      by (intro that [of sg' "q - r"]) (use True leq Cons q(3) d(1) in \<open>auto simp: trim_last_def\<close>)
  next
    case False
    moreover from this have "ooseq_ok S isn (r + m) (r + 131072) oos" using q Cons by (auto intro: ooseq_okI)
    ultimately show ?thesis
      by (intro that [of sg m]) (use leq Cons assms(1,2) in \<open>auto simp: trim_last_def\<close>)
  qed
qed

lemma receive_in_sequence_ok:
  assumes "rcv_ok S isn r pcb" and "carries S isn sg r m" and "0 < m"
  shows "\<exists>r' sg' pcb' t'. receive_in_sequence E sg pcb t = Inr (sg', pcb', t') \<and> r < r' \<and> rcv_ok S isn r' pcb'
     \<and> delivered pcb' = map S [r..<r']"
proof -
  have ok: "rcv_nxt pcb = isn + of_nat r" "ooseq_ok S isn (r + 1) (r + 131072) (ooseq pcb)"
    using assms(1) by (simp_all add: rcv_ok_def)
  obtain s k where s: "trim_last sg (ooseq pcb) = Inr s" "carries S isn s r k" "0 < k"
    "ooseq_ok S isn (r + k) (r + 131072) (ooseq pcb)"
    by (rule trim_last_ok [OF assms(2,3) ok(2)])
  note c = carriesD [OF s(2)] and w = take_window_nxt [OF s(2) ok(1)]
  let ?d = "\<lparr>p_tot = of_nat k, p_bufs = [map S [r..<r + k]]\<rparr> :: pchain"
  let ?p = "(take_window s pcb)\<lparr>recv_data := Some ?d\<rparr>"
  have pos: "(0 :: u16) < of_nat k" using len_32(1) [OF c(2)] s(3) by (simp add: word_less_nat_alt)
  have "\<exists>q' d' pcb' t'. dequeue_ooseq (seg_flags s) (ooseq pcb) ?p t = Inr (pcb', t') \<and> r + k \<le> q' \<and> rcv_nxt pcb' = isn + of_nat q'
      \<and> recv_data pcb' = Some d' \<and> concat (p_bufs d') = map S [r..<q'] \<and> ooseq_ok S isn (q' + 1) (r + 131072) (ooseq pcb')"
    by (rule dequeue_ooseq_ok [OF s(4) _ c(7), where d = ?d]) (use w in simp_all)
  then obtain q' d' p' t' where dq: "dequeue_ooseq (seg_flags s) (ooseq pcb) ?p t = Inr (p', t')" "r + k \<le> q'"
    "rcv_nxt p' = isn + of_nat q'" "recv_data p' = Some d'" "concat (p_bufs d') = map S [r..<q']"
    "ooseq_ok S isn (q' + 1) (r + 131072) (ooseq p')" by blast
  obtain p2 t2 where a: "tcp_ack E p' t' = Inr (p2, t2)" using tcp_ack_returns by blast
  have "rcv_ok S isn q' p'" using dq(2,3) ooseq_ok_mono [OF dq(6)] by (simp add: rcv_ok_def)
  moreover have "delivered p' = map S [r..<q']" using dq(4,5) by (simp add: delivered_def)
  moreover have "receive_in_sequence E sg pcb t = Inr (s\<lparr>seg_p := None\<rparr>, p2, t2)"
    using s(1) c(6,7) pos dq(1) a w by (simp add: receive_in_sequence_def Let_def)
  ultimately show ?thesis
    using rcv_ok_side [OF tcp_ack_rcv [OF a]] delivered_side [OF tcp_ack_rcv [OF a]] dq(2) s(3)
    by (intro exI [of _ q'] exI [of _ "s\<lparr>seg_p := None\<rparr>"] exI [of _ p2] exI [of _ t2]) simp
qed

lemma receive_out_of_sequence_ok:
  assumes "rcv_ok S isn r pcb" and "carries S isn sg p n" and "0 < n" and "r < p" and "p < r + 65536"
    and "may_replace sg (ooseq pcb)"
  shows "\<exists>sg' pcb' t'. receive_out_of_sequence E sg pcb t = Inr (sg', pcb', t') \<and> rcv_ok S isn r pcb'
     \<and> recv_data pcb' = recv_data pcb"
proof -
  obtain p1 t1 where a: "tcp_ack_now E pcb t = Inr (p1, t1)" using tcp_ack_now_returns by blast
  note side = tcp_ack_now_rcv [OF a, unfolded rcv_side_eq]
  have n: "n < 65536" using carriesD(2) [OF assms(2)] .
  show ?thesis
  proof (cases "ooseq pcb = []")
    case True
    moreover have "ooseq_ok S isn (r + 1) (r + 131072) [sg]"
      using assms(2-5) n by (auto intro!: ooseq_okI)
    ultimately show ?thesis
      using a side assms(1) by (auto simp: receive_out_of_sequence_def rcv_ok_def)
  next
    case False
    have "\<exists>sg' k' prev' sgs'. ooseq_insert sg (t_seg_free t1) None (ooseq pcb) = Inr (sg', k', prev', sgs')
       \<and> (prev' = None \<longleftrightarrow> (None :: tcp_seg option) = None) \<and> ooseq_ok S isn (r + 1) (r + 131072) (opt_list prev' @ sgs')"
      by (rule ooseq_insert_ok [OF _ assms(2,3)]) (use assms n in \<open>auto simp: rcv_ok_def\<close>)
    then show ?thesis
      using a side assms(1) False by (auto simp: receive_out_of_sequence_def rcv_ok_def)
  qed
qed

lemma receive_data_ok:
  assumes "rcv_ok S isn r pcb" and "recv_data pcb = None" and "carries S isn sg p n"
    and "p < r + 2 ^ 30" and "r < p + 2 ^ 30"
    and "may_replace sg (ooseq pcb)"
  shows "\<exists>r' sg' pcb' t'. receive_data E sg pcb t = Inr (sg', pcb', t') \<and> r \<le> r' \<and> rcv_ok S isn r' pcb'
     \<and> delivered pcb' = map S [r..<r'] \<and> (p \<le> r \<longrightarrow> r < p + n \<longrightarrow> rcv_wnd pcb \<noteq> 0 \<longrightarrow> r < r')"
proof (cases "n = 0")
  case True
  then have z: "TCP_TCPLEN sg = 0" using carriesD(5) [OF assms(3)] by simp
  obtain p1 t1 where a: "tcp_ack_now E pcb t = Inr (p1, t1)" using tcp_ack_now_returns by blast
  have "\<exists>pcb' t'. receive_data E sg pcb t = Inr (sg, pcb', t') \<and> rcv_side pcb' = rcv_side pcb"
    using z a tcp_ack_now_rcv [OF a] by (auto simp: receive_data_def)
  then obtain pcb' t' where *: "receive_data E sg pcb t = Inr (sg, pcb', t')" "rcv_side pcb' = rcv_side pcb" by blast
  have "rcv_ok S isn r pcb'" "delivered pcb' = []"
    using rcv_ok_side [OF *(2)] delivered_side [OF *(2)] assms(1,2) by (simp_all add: delivered_def)
  then show ?thesis using *(1) True by (intro exI [of _ r]) auto
next
  case False
  note c = carriesD [OF assms(3)]
  have nx: "rcv_nxt pcb = isn + of_nat r" using assms(1) by (simp add: rcv_ok_def)
  have z: "TCP_TCPLEN sg > 0" using False len_32(2) [OF c(2)] by (simp add: c(5) word_less_nat_alt)
  obtain s where s: "trim_first sg pcb = Inr s" "if p < r \<and> r < p + n then carries S isn s r (p + n - r) else s = sg"
    by (rule trim_first_carries [OF assms(3) nx assms(4,5)])
  obtain q m where q: "carries S isn s q m" "0 < m" "q < r + 2 ^ 30" "r < q + 2 ^ 30"
    "q \<noteq> r \<Longrightarrow> s = sg \<and> q = p" "p \<le> r \<Longrightarrow> r < p + n \<Longrightarrow> q = r"
  proof (cases "p < r \<and> r < p + n")
    case True
    then show ?thesis using s(2) by (intro that [of r "p + n - r"]) simp_all
  next
    case no: False
    then show ?thesis using s(2) assms(3-5) False by (intro that [of p n]) auto
  qed
  note d = carriesD [OF q(1)]
  have win: "TCP_SEQ_GEQ (seg_seqno s) (rcv_nxt pcb) \<and> TCP_SEQ_LT (seg_seqno s) (rcv_nxt pcb + ucast (rcv_wnd pcb))
      \<longleftrightarrow> r \<le> q \<and> q < r + unat (rcv_wnd pcb)"
  proof -
    have w: "rcv_nxt pcb + ucast (rcv_wnd pcb) = isn + of_nat (r + unat (rcv_wnd pcb))"
      by (simp add: nx add.assoc)
    show ?thesis unfolding w unfolding nx d(1)
      using q(3,4) unat_u16_less [of "rcv_wnd pcb"] by (simp add: seq_cmp del: of_nat_add)
  qed
  consider "q = r" "0 < unat (rcv_wnd pcb)" | "r < q" "q < r + unat (rcv_wnd pcb)" | "\<not> (r \<le> q \<and> q < r + unat (rcv_wnd pcb))"
    by linarith
  then show ?thesis
  proof cases
    case 1
    have "receive_data E sg pcb t = receive_in_sequence E s pcb t"
      using z s(1) win 1 nx d(1) by (simp add: receive_data_def)
    then show ?thesis using receive_in_sequence_ok [OF assms(1) q(1) [unfolded 1(1)] q(2), of E t]
      by (metis less_imp_le)
  next
    case 2
    then have eq: "s = sg" "q = p" using q(5) by auto
    have "isn + of_nat r = isn + of_nat q \<longleftrightarrow> r = q" by (rule seq_cmp(5)) (use 2 q(3) in simp_all)
    then have "rcv_nxt pcb \<noteq> seg_seqno s" unfolding nx d(1) using 2(1) by simp
    then have rd: "receive_data E sg pcb t = receive_out_of_sequence E sg pcb t"
      using z s(1) win 2 eq by (simp add: receive_data_def)
    have "q < r + 65536" using 2(2) unat_u16_less [of "rcv_wnd pcb"] by simp
    then show ?thesis
      using receive_out_of_sequence_ok [OF assms(1) q(1,2) 2(1) _ assms(6) [folded eq(1)], of E t] eq 2 assms(2)
      unfolding rd by (intro exI [of _ r]) (auto simp: delivered_def)
  next
    case 3
    then have "receive_data E sg pcb t = Inr (s, pcb, t)" using z s(1) win by (auto simp: receive_data_def)
    moreover have "q = r \<Longrightarrow> rcv_wnd pcb = 0" using 3 by (simp add: unat_eq_zero)
    ultimately show ?thesis using assms(1,2) q(6) by (intro exI [of _ r]) (auto simp: delivered_def)
  qed
qed

section \<open>A connection\<close>

lemma tcp_receive_ok:
  assumes "rcv_ok S isn r pcb" and "carries S isn sg p n" and "p < r + 2 ^ 30" and "r < p + 2 ^ 30"
    and "may_replace sg (ooseq pcb)"
    and "tcp_receive E sg (pcb\<lparr>recv_data := None\<rparr>) t = Inr (sg', pcb', t')"
  shows "\<exists>r'\<ge>r. rcv_ok S isn r' pcb' \<and> delivered pcb' = map S [r..<r']
     \<and> (p \<le> r \<longrightarrow> r < p + n \<longrightarrow> rcv_wnd pcb \<noteq> 0 \<longrightarrow> r < r')"
proof -
  let ?p0 = "pcb\<lparr>recv_data := None\<rparr>"
  from assms(6) obtain p1 t1 where p1: "rcv_side p1 = rcv_side ?p0" "receive_data E sg p1 t1 = Inr (sg', pcb', t')"
    by (auto simp: tcp_receive_def bindr_Inr_iff split: if_splits dest: receive_ack_rcv)
  have "rcv_ok S isn r p1" "recv_data p1 = None" "ooseq p1 = ooseq pcb" "rcv_wnd p1 = rcv_wnd pcb"
    using p1(1) assms(1) by (simp_all add: rcv_side_eq rcv_ok_def)
  then show ?thesis
    using receive_data_ok [OF _ _ assms(2-4), of p1 E t1] assms(5) p1(2) by auto
qed

lemma tcp_recved_rcv:
  assumes "tcp_recved E len pcb t = Inr (pcb', t')"
  shows "rcv_nxt pcb' = rcv_nxt pcb" and "ooseq pcb' = ooseq pcb"
  using assms by (auto simp: tcp_recved_def Let_def rcv_side_eq split: if_splits dest!: tcp_ack_rcv)

text \<open>
  What can happen to the receiving side of a connection whose peer sends the stream \<open>S\<close>, the
  byte 0 with sequence number \<open>isn\<close>.  The last component is what the application has been
  given so far.  Segments may be lost, duplicated, reordered and cut differently by a
  retransmission; they are not \<open>2 ^ 30\<close> bytes away from what has been received, and none that
  replaces a shorter buffered one reaches into the buffered one behind it.
\<close>

inductive rx_step ::
  "tcp_env \<Rightarrow> (nat \<Rightarrow> byte) \<Rightarrow> u32 \<Rightarrow> tcp_pcb \<times> tcp \<times> byte list \<Rightarrow> tcp_pcb \<times> tcp \<times> byte list \<Rightarrow> bool"
  for E S isn where
  segment: "carries S isn sg p n \<Longrightarrow> p < length d + 2 ^ 30 \<Longrightarrow> length d < p + 2 ^ 30 \<Longrightarrow>
      may_replace sg (ooseq pcb) \<Longrightarrow>
      tcp_receive E sg (pcb\<lparr>recv_data := None\<rparr>) t = Inr (sg', pcb', t') \<Longrightarrow>
      rx_step E S isn (pcb, t, d) (pcb', t', d @ delivered pcb')"
| recved: "tcp_recved E len pcb t = Inr (pcb', t') \<Longrightarrow> rx_step E S isn (pcb, t, d) (pcb', t', d)"
| sending: "tcp_output E pcb t = Inr (e, pcb', t') \<Longrightarrow> rx_step E S isn (pcb, t, d) (pcb', t', d)"

lemma rx_step_ok:
  assumes "rx_step E S isn s s'" and "rcv_ok S isn (length (snd (snd s))) (fst s)"
    and "snd (snd s) = map S [0..<length (snd (snd s))]"
  shows "rcv_ok S isn (length (snd (snd s'))) (fst s') \<and> snd (snd s') = map S [0..<length (snd (snd s'))]"
  using assms
proof cases
  case (segment sg p n d pcb t sg' pcb' t')
  then obtain r' where r': "length d \<le> r'" "rcv_ok S isn r' pcb'" "delivered pcb' = map S [length d..<r']"
    using tcp_receive_ok [OF _ segment(3-7)] assms(2) by auto
  have "d @ delivered pcb' = map S ([0..<length d] @ [length d..<r'])" using assms(3) segment(1) r'(3) by simp
  also have "[0..<length d] @ [length d..<r'] = [0..<r']" using r'(1) by (metis le0 le_iff_add upt_add_eq_append)
  finally show ?thesis using segment r' by simp
next
  case (recved len pcb t pcb' t' d)
  then show ?thesis using assms(2,3) tcp_recved_rcv [OF recved(3)] by (simp add: rcv_ok_def)
next
  case (sending pcb t e pcb' t' d)
  then show ?thesis using assms(2,3) rcv_ok_side [OF tcp_output_rcv [OF sending(3)]] by simp
qed

lemma rx_steps_ok:
  assumes "(rx_step E S isn)\<^sup>*\<^sup>* s s'" and "rcv_ok S isn (length (snd (snd s))) (fst s)"
    and "snd (snd s) = map S [0..<length (snd (snd s))]"
  shows "rcv_ok S isn (length (snd (snd s'))) (fst s') \<and> snd (snd s') = map S [0..<length (snd (snd s'))]"
  using assms by (induction rule: rtranclp_induct) (use rx_step_ok in blast)+


definition ex_tcp_env :: tcp_env where
  "ex_tcp_env = \<lparr>findsrcip = (\<lambda>_. 0x0101000a), room = (\<lambda>_. True), netif_mask = 0x00ffffff\<rparr>"

definition ex_data :: "nat \<Rightarrow> byte" where
  "ex_data i = of_nat i + 5"

definition ex_segment :: tcp_seg where
  "ex_segment = \<lparr>seg_p = Some \<lparr>p_tot = 2, p_bufs = [[5, 6]]\<rparr>, seg_len = 2, seg_src = 1000, seg_dest = 23,
     seg_seqno = 7, seg_ackno = 0, seg_offset = 0x50, seg_flags = TCP_PSH, seg_wnd = 1024\<rparr>"

lemma ex_segment_carries: "carries ex_data 7 ex_segment 0 2"
  by (simp add: carries_def ex_segment_def ex_data_def TCP_PSH_def TCP_FIN_def TCP_SYN_def upt_rec)

lemma ex_segment_received:
  "\<exists>sg pcb. tcp_receive ex_tcp_env ex_segment ((new_pcb 0 0)\<lparr>state := ESTABLISHED, rcv_nxt := 7, recv_data := None\<rparr>) tcp_boot
     = Inr (sg, pcb, tcp_boot) \<and> delivered pcb = [5, 6] \<and> rcv_nxt pcb = 9"
  by (simp add: tcp_receive_def receive_data_def trim_first_def TCP_TCPLEN_def ex_segment_def new_pcb_def
      TCP_PSH_def TCP_FIN_def TCP_SYN_def TCP_ACK_def TCP_SEQ_LT_def TCP_SEQ_GEQ_def TCP_WND_def
      receive_in_sequence_def trim_last_def take_window_def tcp_ack_def TF_ACK_DELAY_def delivered_def)


end
