(* ===== verification/LwTcpSend.thy ===== *)
theory LwTcpSend
  imports LwTcpRecv
begin

text \<open>
  The sending side of a connection.  The bytes the application has written stay in the
  queues \<open>unacked\<close> and \<open>unsent\<close> until they are acknowledged, and every datagram that is
  sent carries bytes of what was written at the place its sequence number says.
\<close>

section \<open>Datagrams\<close>

lemma ntohl_masks:
  "ntohl x = push_bit 24 x OR push_bit 8 (x AND push_bit 8 (mask 8)) OR drop_bit 8 (x AND push_bit 16 (mask 8)) OR drop_bit 24 x"
  by (simp add: ntohl_def mask_eq_exp_minus_1 push_bit_eq_mult)

lemma ntohl_swaps:
  assumes y: "\<And>m. bit y m \<longleftrightarrow> m < 32 \<and> bit (x :: u32)
     (if m < 8 then 24 + m else if m < 16 then 8 + m else if m < 24 then m - 8 else m - 24)"
  shows "ntohl y = x"
proof (rule bit_word_eqI)
  fix n :: nat assume n: "n < LENGTH(32)"
  consider "n < 8" | "8 \<le> n" "n < 16" | "16 \<le> n" "n < 24" | "24 \<le> n" "n < 32" using n by force
  then show "bit (ntohl y) n \<longleftrightarrow> bit x n" by cases (auto simp: ntohl_masks bit_simps y)
qed

lemma ntohl_bytes:
  "ntohl (ucast (ucast (ucast (drop_bit 24 x) :: byte) OR push_bit 8 (ucast (ucast (drop_bit 16 x) :: byte)) :: u16)
     OR push_bit 16 (ucast (ucast (ucast (drop_bit 8 x) :: byte) OR push_bit 8 (ucast (ucast x :: byte)) :: u16))) = (x :: u32)"
  (is "ntohl ?y = x")
proof (rule ntohl_swaps)
  show "bit ?y m \<longleftrightarrow> m < 32 \<and> bit x (if m < 8 then 24 + m else if m < 16 then 8 + m else if m < 24 then m - 8 else m - 24)" for m
    by (cases "m < 8"; cases "m < 16"; cases "m < 24"; cases "m < 32") (simp_all add: bit_simps, auto simp: add.commute)
qed

lemma ntohl_be32: "ntohl (u32_at (be32 x @ bs) 0) = x"
  using ntohl_bytes [of x] by (simp add: u32_at_def u16_at_def u8_at_def be32_def)

lemma u32_at_append: "u32_at (xs @ ys) (length xs + i) = u32_at ys i"
  by (simp add: u32_at_def u16_at_def u8_at_def nth_append add.assoc numeral_3_eq_3)

lemma tcp_hdr_nth: "(tcp_hdr src dest seqno ackno off fl wnd cs @ d) ! 12 = off"
  "(tcp_hdr src dest seqno ackno off fl wnd cs @ d) ! 13 = fl"
  by (simp_all add: tcp_hdr_def be16_def be32_def nth_append)

lemma tcp_hdr_seqno: "ntohl (u32_at (tcp_hdr src dest seqno ackno off fl wnd cs @ d) 4) = seqno"
proof -
  have "tcp_hdr src dest seqno ackno off fl wnd cs @ d
      = (be16 src @ be16 dest) @ be32 seqno @ be32 ackno @ [off, fl] @ be16 wnd @ [ucast cs, ucast (drop_bit 8 cs)] @ [0, 0] @ d"
    by (simp add: tcp_hdr_def)
  moreover have "length (be16 src @ be16 dest) = 4" by (simp add: be16_def)
  ultimately show ?thesis using u32_at_append [of "be16 src @ be16 dest" _ 0] ntohl_be32 by simp
qed

lemma tcp_hdr_put: "put16 16 c (tcp_hdr src dest seqno ackno off fl wnd c' @ d) = tcp_hdr src dest seqno ackno off fl wnd c @ d"
  by (simp add: tcp_hdr_def be16_def be32_def put16_def put8_def numeral_eq_Suc)

lemma tcp_wire_checksum:
  assumes "length (concat (p_bufs p)) < 65000" and "p_tot p = of_nat (length (concat (p_bufs p)) + 20)"
  shows "inet_chksum_pseudo [tcp_wire src dest (tcp_hdr sp dp seqno ackno off fl wnd) p] src dest IP_PROTO_TCP
     (of_nat (length (tcp_wire src dest (tcp_hdr sp dp seqno ackno off fl wnd) p))) = 0"
proof -
  let ?h = "tcp_hdr sp dp seqno ackno off fl wnd" and ?d = "concat (p_bufs p)"
  let ?qs = "(?h 0 @ concat (take 1 (p_bufs p))) # drop 1 (p_bufs p)"
  define c where "c = inet_chksum_pseudo ?qs src dest IP_PROTO_TCP (p_tot p)"
  have cat: "concat ?qs = ?h 0 @ ?d" by (cases "p_bufs p") simp_all
  have "c = inet_chksum_pseudo [put16 16 0 (?h 0 @ ?d)] src dest IP_PROTO_TCP (p_tot p)"
    unfolding c_def tcp_hdr_put using assms(1) cat
    by (simp add: inet_chksum_pseudo_eq del: concat.simps) (simp add: inet_chksum_pseudo_eq)
  then have "inet_chksum_pseudo [?h c @ ?d] src dest IP_PROTO_TCP (p_tot p) = 0"
    by (rule pseudo_fill_verifies [rotated 2]) (use assms(1) in \<open>simp_all add: tcp_hdr_put\<close>)
  then show ?thesis using assms(2) by (simp add: tcp_wire_def c_def add.commute)
qed

section \<open>Queued segments\<close>

text \<open>
  A queued segment holds the \<open>n\<close> bytes of \<open>w\<close>, all that was written so far, from position
  \<open>p\<close> on.  Position 0 has the sequence number \<open>iss\<close>.
\<close>

definition loaded :: "byte list \<Rightarrow> u32 \<Rightarrow> tcp_seg \<Rightarrow> nat \<Rightarrow> nat \<Rightarrow> bool" where
  "loaded w iss sg p n \<longleftrightarrow>
     0 < n \<and> n \<le> unat TCP_MSS \<and> p + n \<le> length w \<and> seg_seqno sg = iss + of_nat p \<and> seg_len sg = of_nat n
     \<and> seg_flags sg AND 7 = 0 \<and> seg_offset sg = 0x50
     \<and> (\<exists>c. seg_p sg = Some c \<and> p_tot c = of_nat (n + 20) \<and> concat (p_bufs c) = take n (drop p w))"

lemma loaded_mono: "loaded w iss sg p n \<Longrightarrow> loaded (w @ d) iss sg p n"
  by (auto simp: loaded_def)

lemma loaded_header:
  assumes "loaded w iss sg p n" and "seg_p sg' = seg_p sg" and "seg_len sg' = seg_len sg"
    and "seg_seqno sg' = seg_seqno sg" and "seg_offset sg' = seg_offset sg" and "seg_flags sg' AND 7 = seg_flags sg AND 7"
  shows "loaded w iss sg' p n"
  using assms by (simp add: loaded_def)

lemma loaded_len: "loaded w iss sg p n \<Longrightarrow> unat (seg_len sg) = n \<and> n < 65536"
  by (auto simp: loaded_def TCP_MSS_def unat_of_nat)

lemma flags_and:
  assumes "x AND 7 = (0 :: byte)"
  shows "x AND TCP_FIN = 0" "x AND TCP_SYN = 0" "x AND TCP_RST = 0"
proof -
  have "(x AND 7) AND 1 = x AND 1" "(x AND 7) AND 2 = x AND 2" "(x AND 7) AND 4 = x AND 4"
    by (simp_all add: and.assoc)
  then show "x AND TCP_FIN = 0" "x AND TCP_SYN = 0" "x AND TCP_RST = 0"
    unfolding assms by (simp_all add: TCP_FIN_def TCP_SYN_def TCP_RST_def)
qed

lemma loaded_tcplen: "loaded w iss sg p n \<Longrightarrow> TCP_TCPLEN sg = of_nat n"
  using len_32(3) [of n] loaded_len [of w iss sg p n] flags_and [of "seg_flags sg"] by (simp add: TCP_TCPLEN_def loaded_def)

fun queued :: "byte list \<Rightarrow> u32 \<Rightarrow> nat \<Rightarrow> tcp_seg list \<Rightarrow> nat \<Rightarrow> bool" where
  "queued w iss p [] e \<longleftrightarrow> p = e"
| "queued w iss p (sg # sgs) e \<longleftrightarrow>
     loaded w iss sg p (unat (seg_len sg)) \<and> queued w iss (p + unat (seg_len sg)) sgs e"

primrec parts :: "nat \<Rightarrow> tcp_seg list \<Rightarrow> (nat \<times> nat) list" where
  "parts p [] = []"
| "parts p (sg # sgs) = (p, unat (seg_len sg)) # parts (p + unat (seg_len sg)) sgs"

lemma queued_append: "queued w iss p (xs @ ys) e \<longleftrightarrow> (\<exists>m. queued w iss p xs m \<and> queued w iss m ys e)"
  by (induction xs arbitrary: p) auto

lemma parts_append: "queued w iss p xs m \<Longrightarrow> parts p (xs @ ys) = parts p xs @ parts m ys"
  by (induction xs arbitrary: p) auto

lemma queued_mono: "queued w iss p sgs e \<Longrightarrow> queued (w @ d) iss p sgs e"
  by (induction sgs arbitrary: p) (auto intro: loaded_mono)

lemma queued_le: "queued w iss p sgs e \<Longrightarrow> p \<le> e"
  by (induction sgs arbitrary: p) fastforce+

lemma parts_bounds: "queued w iss p sgs e \<Longrightarrow> r \<in> set (parts p sgs) \<Longrightarrow> 0 < snd r \<and> p \<le> fst r \<and> fst r + snd r \<le> e"
proof (induction sgs arbitrary: p)
  case (Cons sg sgs)
  let ?p = "p + unat (seg_len sg)"
  have q: "queued w iss ?p sgs e" "0 < unat (seg_len sg)" using Cons.prems(1) by (auto simp: loaded_def)
  show ?case
  proof (cases "r = (p, unat (seg_len sg))")
    case False
    then have "r \<in> set (parts ?p sgs)" using Cons.prems(2) by simp
    from Cons.IH [OF q(1) this] show ?thesis by simp
  qed (use q queued_le [OF q(1)] in simp)
qed simp

text \<open>Two ranges that begin at the same position or do not overlap.\<close>

definition apart :: "nat \<times> nat \<Rightarrow> nat \<times> nat \<Rightarrow> bool" where
  "apart r r' \<longleftrightarrow> fst r = fst r' \<or> fst r + snd r \<le> fst r' \<or> fst r' + snd r' \<le> fst r"

lemma apart_sym: "apart r r' \<Longrightarrow> apart r' r"
  by (auto simp: apart_def)

lemma parts_apart:
  "queued w iss p sgs e \<Longrightarrow> r \<in> set (parts p sgs) \<Longrightarrow> r' \<in> set (parts p sgs) \<Longrightarrow> apart r r'"
proof (induction sgs arbitrary: p)
  case (Cons sg sgs)
  let ?p = "p + unat (seg_len sg)"
  have q: "queued w iss ?p sgs e" using Cons.prems(1) by simp
  have "apart (p, unat (seg_len sg)) x" if "x \<in> set (parts ?p sgs)" for x
    using parts_bounds [OF q that] by (simp add: apart_def)
  moreover have "apart (p, unat (seg_len sg)) (p, unat (seg_len sg))" by (simp add: apart_def)
  ultimately show ?case
    using Cons.prems(2,3) Cons.IH [OF q] apart_sym unfolding parts.simps list.set insert_iff by blast
qed simp

text \<open>A segment in the queue is replaced by one with other header fields.\<close>

lemma queued_replace:
  assumes "queued w iss p (xs @ sg # ys) e"
    and "\<And>q n. loaded w iss sg q n \<Longrightarrow> loaded w iss sg' q n"
  shows "queued w iss p (xs @ sg' # ys) e \<and> parts p (xs @ sg' # ys) = parts p (xs @ sg # ys)
     \<and> (\<exists>q n. loaded w iss sg q n \<and> (q, n) \<in> set (parts p (xs @ sg # ys)))"
proof -
  from assms(1) obtain m where m: "queued w iss p xs m" "loaded w iss sg m (unat (seg_len sg))"
    "queued w iss (m + unat (seg_len sg)) ys e"
    by (auto simp: queued_append)
  have l: "loaded w iss sg' m (unat (seg_len sg))" by (rule assms(2) [OF m(2)])
  then have "unat (seg_len sg') = unat (seg_len sg)" using loaded_len by blast
  then show ?thesis using m l by (auto simp: queued_append parts_append [OF m(1)])
qed

section \<open>Acknowledged segments\<close>

lemma ack_unsent_eq:
  "unsent (fst (ack_unsent ackno sgs pcb t)) = dropWhile (seg_acked ackno) sgs"
  "unacked (fst (ack_unsent ackno sgs pcb t)) = unacked pcb"
  by (induction sgs arbitrary: pcb t) (auto simp: Let_def split: list.splits)

lemma ack_unacked_eq:
  "unacked (fst (ack_unacked ackno sgs pcb t)) = dropWhile (seg_acked ackno) sgs"
  "unsent (fst (ack_unacked ackno sgs pcb t)) = unsent pcb"
  by (induction sgs arbitrary: pcb t) auto

lemma seg_acked_iff:
  assumes "loaded w iss sg p n" and "p + n < b + 2 ^ 31" and "b < p + n + 2 ^ 31"
  shows "seg_acked (iss + of_nat b) sg \<longleftrightarrow> p + n \<le> b"
proof -
  have e: "seg_seqno sg + TCP_TCPLEN sg = iss + of_nat (p + n)"
    using loaded_tcplen [OF assms(1)] assms(1) by (simp add: loaded_def)
  show ?thesis unfolding seg_acked_def e by (rule seq_cmp(2) [OF assms(2,3)])
qed

lemma drop_acked_queue:
  assumes "queued w iss p sgs e" and "p \<le> b" and "b \<le> e" and "e < p + 2 ^ 31"
  shows "\<exists>p'. queued w iss p' (dropWhile (seg_acked (iss + of_nat b)) sgs) e \<and> p \<le> p' \<and> p' \<le> b
     \<and> b \<le> p' + 65536 \<and> set (parts p' (dropWhile (seg_acked (iss + of_nat b)) sgs)) \<subseteq> set (parts p sgs)
     \<and> (dropWhile (seg_acked (iss + of_nat b)) sgs \<noteq> [] \<longrightarrow> b < e)"
  using assms
proof (induction sgs arbitrary: p)
  case (Cons sg sgs)
  let ?n = "unat (seg_len sg)"
  have l: "loaded w iss sg p ?n" "queued w iss (p + ?n) sgs e" using Cons.prems(1) by simp_all
  have le: "p + ?n \<le> e" by (rule queued_le [OF l(2)])
  have iff: "seg_acked (iss + of_nat b) sg \<longleftrightarrow> p + ?n \<le> b"
    by (rule seg_acked_iff [OF l(1)]) (use le Cons.prems(2-4) in simp_all)
  show ?case
  proof (cases "p + ?n \<le> b")
    case True
    have "e < p + ?n + 2 ^ 31" using Cons.prems(4) by simp
    from Cons.IH [OF l(2) True Cons.prems(3) this] True iff show ?thesis by fastforce
  next
    case False
    then show ?thesis using iff Cons.prems loaded_len [OF l(1)] le by (intro exI [of _ p]) simp
  qed
qed simp

text \<open>The two queues are cut separately, with the same result as cutting them as one.\<close>

lemma drop_acked_split:
  assumes "queued w iss p (xs @ ys) e" and "p \<le> b" and "b \<le> e" and "e < p + 2 ^ 31"
  shows "dropWhile (seg_acked (iss + of_nat b)) xs @ dropWhile (seg_acked (iss + of_nat b)) ys
     = dropWhile (seg_acked (iss + of_nat b)) (xs @ ys)"
proof (cases "\<forall>x\<in>set xs. seg_acked (iss + of_nat b) x")
  case True
  then show ?thesis by (simp add: dropWhile_append)
next
  case False
  from assms(1) obtain m where m: "queued w iss p xs m" "queued w iss m ys e" by (auto simp: queued_append)
  have le: "p \<le> m" "m \<le> e" using m queued_le by blast+
  have "b < m"
  proof (rule ccontr)
    assume "\<not> b < m"
    have "\<forall>x\<in>set xs. seg_acked (iss + of_nat b) x"
      using m(1) assms(2-4) le \<open>\<not> b < m\<close>
    proof (induction xs arbitrary: p)
      case (Cons x xs)
      have "p + unat (seg_len x) \<le> m" using Cons.prems(1) queued_le by auto
      then have "seg_acked (iss + of_nat b) x"
        using Cons.prems by (subst seg_acked_iff [of w iss x p "unat (seg_len x)"]) auto
      then show ?case using Cons.IH [of "p + unat (seg_len x)"] Cons.prems \<open>p + unat (seg_len x) \<le> m\<close> by auto
    qed simp
    with False show False by simp
  qed
  have "dropWhile (seg_acked (iss + of_nat b)) ys = ys"
  proof (cases ys)
    case (Cons y zs)
    then have l: "loaded w iss y m (unat (seg_len y))" "queued w iss (m + unat (seg_len y)) zs e" using m(2) by simp_all
    have "\<not> seg_acked (iss + of_nat b) y"
      using \<open>b < m\<close> queued_le [OF l(2)] assms(2-4) le by (subst seg_acked_iff [OF l(1)]) simp_all
    then show ?thesis using Cons by simp
  qed simp
  then show ?thesis using False by (auto simp: dropWhile_append1)
qed

section \<open>What is on the wire\<close>

text \<open>
  A datagram that a receiver accepts as a segment with the \<open>snd r\<close> bytes of \<open>w\<close> from \<open>fst r\<close> on: header length
  and checksum pass the tests of \<open>tcp_input\<close>.
\<close>

definition emitted :: "byte list \<Rightarrow> u32 \<Rightarrow> addr_ip \<times> addr_ip \<times> byte list \<Rightarrow> nat \<times> nat \<Rightarrow> bool" where
  "emitted w iss d r \<longleftrightarrow>
     (case d of (src, dst, s) \<Rightarrow>
        20 \<le> length s \<and> s ! 12 = 0x50 \<and> inet_chksum_pseudo [s] src dst IP_PROTO_TCP (of_nat (length s)) = 0
        \<and> seg_flags (parse_segment s) AND TCP_RST = 0 \<and> fst r + snd r \<le> length w
        \<and> carries (nth w) iss (parse_segment s) (fst r) (snd r))"

lemma carries_cong:
  assumes "\<And>i. p \<le> i \<Longrightarrow> i < p + n \<Longrightarrow> S i = S' i"
  shows "carries S iss sg p n \<longleftrightarrow> carries S' iss sg p n"
proof -
  have e: "map S [p..<p + n] = map S' [p..<p + n]" using assms by simp
  show ?thesis unfolding carries_def e ..
qed

lemma emitted_mono: "emitted w iss d r \<Longrightarrow> emitted (w @ v) iss d r"
  using carries_cong [of "fst r" "snd r" "nth w" "nth (w @ v)"] by (auto simp: emitted_def nth_append split: prod.splits)

lemma wire_emitted:
  assumes "concat (p_bufs c) = take n (drop q w)" and "p_tot c = of_nat (n + 20)" and "n < 65000"
    and "q + n \<le> length w" and "fl AND 7 = 0"
  shows "emitted w iss (src, dst, tcp_wire src dst (tcp_hdr sp dp (iss + of_nat q) ackno 0x50 fl wnd) c) (q, n)"
proof -
  let ?h = "tcp_hdr sp dp (iss + of_nat q) ackno 0x50 fl wnd"
  define s where "s = tcp_wire src dst ?h c"
  have len: "length (concat (p_bufs c)) = n" using assms(1,4) by simp
  then obtain k where s: "s = ?h k @ concat (p_bufs c)" by (auto simp: s_def tcp_wire_def)
  have dat: "take n (drop q w) = map (nth w) [q..<q + n]"
    by (rule nth_equalityI) (use assms(4) in auto)
  have "s ! 12 = 0x50" "s ! 13 = fl" "ntohl (u32_at s 4) = iss + of_nat q"
    unfolding s by (rule tcp_hdr_nth tcp_hdr_seqno)+
  then have "carries (nth w) iss (parse_segment s) q n" "seg_flags (parse_segment s) = fl"
    using assms(1,3) flags_and [OF assms(5)] len dat by (simp_all add: carries_def parse_segment_def Let_def s)
  moreover have "inet_chksum_pseudo [s] src dst IP_PROTO_TCP (of_nat (length s)) = 0"
    unfolding s_def by (rule tcp_wire_checksum) (use len assms(2,3) in simp_all)
  ultimately show ?thesis
    using \<open>s ! 12 = 0x50\<close> assms(4,5) flags_and [OF assms(5)] unfolding s_def [symmetric]
    by (simp add: emitted_def) (simp add: s)
qed

definition wire_of :: "addr_ip \<Rightarrow> addr_ip \<Rightarrow> tcp_seg \<Rightarrow> pchain \<Rightarrow> byte list" where
  "wire_of src dst sg c = tcp_wire src dst
     (tcp_hdr (seg_src sg) (seg_dest sg) (seg_seqno sg) (seg_ackno sg) (seg_offset sg) (seg_flags sg) (seg_wnd sg)) c"

lemma loaded_emitted:
  assumes "loaded w iss sg q n" and "seg_p sg = Some c"
  shows "emitted w iss (src, dst, wire_of src dst sg c) (q, n)"
  using wire_emitted [of c n q w "seg_flags sg" iss src dst] assms by (simp add: loaded_def wire_of_def TCP_MSS_def)

section \<open>The state of a sender\<close>

definition queue_ok :: "byte list \<Rightarrow> u32 \<Rightarrow> nat \<Rightarrow> (nat \<times> nat) set \<Rightarrow> tcp_seg list \<Rightarrow> bool" where
  "queue_ok w iss a R sgs \<longleftrightarrow>
     (\<exists>p\<le>a. a \<le> p + 65536 \<and> queued w iss p sgs (length w) \<and> (\<forall>r\<in>R. \<forall>r'\<in>set (parts p sgs). apart r r'))"

text \<open>
  The acknowledged bytes are the first \<open>a\<close>; those behind are in the queues.  The send buffer
  and the bytes that are not acknowledged are together \<open>B\<close>.  \<open>R\<close> are the ranges that were sent.
\<close>

definition sender_ok :: "byte list \<Rightarrow> u32 \<Rightarrow> nat \<Rightarrow> (nat \<times> nat) set \<Rightarrow> nat \<Rightarrow> tcp_pcb \<Rightarrow> bool" where
  "sender_ok w iss B R a pcb \<longleftrightarrow>
     state pcb \<noteq> SYN_SENT \<and> 0 < mss pcb \<and> mss pcb \<le> TCP_MSS \<and> snd_lbb pcb = iss + of_nat (length w)
     \<and> (\<exists>x\<le>length w. snd_nxt pcb = iss + of_nat x)
     \<and> (\<exists>m\<le>length w. snd_max pcb = iss + of_nat m \<and> a \<le> m) \<and> lastack pcb = iss + of_nat a
     \<and> length w - a + unat (snd_buf pcb) = B \<and> B < 65536 \<and> queue_ok w iss a R (unacked pcb @ unsent pcb)
     \<and> (\<forall>r\<in>R. 0 < snd r \<and> fst r + snd r \<le> length w) \<and> (\<forall>r\<in>R. \<forall>r'\<in>R. apart r r')"

text \<open>The datagrams \<open>L\<close> were sent, and every one that was sent is empty or carries a range in \<open>R\<close>.\<close>

definition out_ok :: "(addr_ip \<times> addr_ip \<times> byte list) set \<Rightarrow> byte list \<Rightarrow> u32 \<Rightarrow> (nat \<times> nat) set \<Rightarrow> (addr_ip \<times> addr_ip \<times> byte list) list \<Rightarrow> bool" where
  "out_ok L w iss R out \<longleftrightarrow> L \<subseteq> set out \<and> (\<forall>d\<in>set out. (\<exists>q. emitted w iss d (q, 0)) \<or> (\<exists>r\<in>R. emitted w iss d r))"

definition tx_ok :: "(addr_ip \<times> addr_ip \<times> byte list) set \<Rightarrow> byte list \<Rightarrow> u32 \<Rightarrow> nat \<Rightarrow> tcp_pcb \<Rightarrow> tcp \<Rightarrow> bool" where
  "tx_ok L w iss B pcb t \<longleftrightarrow> (\<exists>R a. sender_ok w iss B R a pcb \<and> out_ok L w iss R (t_out t))"

definition snd_side :: "tcp_pcb \<Rightarrow> tcp_state \<times> u16 \<times> u32 \<times> u32 \<times> u32 \<times> u32 \<times> u16 \<times> tcp_seg list \<times> tcp_seg list" where
  "snd_side pcb = (state pcb, mss pcb, snd_lbb pcb, snd_nxt pcb, snd_max pcb, lastack pcb, snd_buf pcb, unacked pcb, unsent pcb)"

lemma sender_ok_side: "snd_side p = snd_side q \<Longrightarrow> sender_ok w iss B R a p = sender_ok w iss B R a q"
  by (simp add: sender_ok_def snd_side_def)

lemma tx_ok_side: "tx_ok L w iss B pcb t \<Longrightarrow> snd_side pcb' = snd_side pcb \<Longrightarrow> t_out t' = t_out t \<Longrightarrow> tx_ok L w iss B pcb' t'"
  using sender_ok_side [of pcb' pcb] by (auto simp: tx_ok_def)

lemma out_ok_snoc:
  "out_ok L w iss R out \<Longrightarrow> (\<exists>q. emitted w iss d (q, 0)) \<or> (\<exists>r\<in>R. emitted w iss d r) \<Longrightarrow> out_ok L w iss R (out @ [d])"
  by (auto simp: out_ok_def)

lemma out_ok_mono: "out_ok L w iss R out \<Longrightarrow> R \<subseteq> R' \<Longrightarrow> out_ok L w iss R' out"
  unfolding out_ok_def by blast

text \<open>A segment of the queue is sent, with an updated header.\<close>

lemma sender_emit:
  assumes "sender_ok w iss B R a pcb" and "unacked pcb @ unsent pcb = us @ sg # vs"
    and "seg_p sg' = seg_p sg" "seg_len sg' = seg_len sg" "seg_seqno sg' = seg_seqno sg"
      "seg_offset sg' = seg_offset sg" "seg_flags sg' AND 7 = seg_flags sg AND 7"
  shows "\<exists>r. a \<le> fst r + 65536 \<and> loaded w iss sg (fst r) (snd r) \<and> loaded w iss sg' (fst r) (snd r)
     \<and> sender_ok w iss B (insert r R) a (pcb\<lparr>unacked := us @ [sg'], unsent := vs\<rparr>)"
proof -
  from assms(1,2) obtain p where p: "p \<le> a" "a \<le> p + 65536" "queued w iss p (us @ sg # vs) (length w)"
    "\<forall>r\<in>R. \<forall>r'\<in>set (parts p (us @ sg # vs)). apart r r'"
    by (auto simp: sender_ok_def queue_ok_def)
  note q = queued_replace [OF p(3), of sg', OF loaded_header [OF _ assms(3-7)]]
  then obtain r where r: "loaded w iss sg (fst r) (snd r)" "r \<in> set (parts p (us @ sg # vs))" by fastforce
  have "queue_ok w iss a (insert r R) (us @ sg' # vs)"
    unfolding queue_ok_def using p q parts_apart [OF p(3) r(2)] by (intro exI [of _ p]) auto
  moreover have b: "0 < snd r" "fst r + snd r \<le> length w" "p \<le> fst r" using parts_bounds [OF p(3) r(2)] by simp_all
  moreover have "\<forall>x\<in>insert r R. \<forall>y\<in>insert r R. apart x y"
    using p(4) r(2) assms(1) apart_sym parts_apart [OF p(3) r(2) r(2)] by (auto simp: sender_ok_def)
  ultimately have "sender_ok w iss B (insert r R) a (pcb\<lparr>unacked := us @ [sg'], unsent := vs\<rparr>)"
    using assms(1) by (simp add: sender_ok_def)
  moreover have "a \<le> fst r + 65536" using p(2) b(3) by simp
  ultimately show ?thesis using r(1) loaded_header [OF r(1) assms(3-7)] by blast
qed

section \<open>Transmission\<close>

lemma tcp_output_segment_emits:
  assumes "tcp_output_segment E sg pcb t = Inr (sg', pcb', t')"
  shows "snd_side pcb' = snd_side pcb"
    and "seg_p sg' = seg_p sg" "seg_len sg' = seg_len sg" "seg_seqno sg' = seg_seqno sg"
      "seg_offset sg' = seg_offset sg" "seg_flags sg' = seg_flags sg"
    and "\<exists>c src dst. seg_p sg' = Some c \<and> t_out t' = t_out t @ [(src, dst, wire_of src dst sg' c)]"
  using assms by (auto simp: tcp_output_segment_def Let_def need_Inr_iff bindr_Inr_iff snd_side_def wire_of_def sr_lwip_output_def
      split: option.splits if_splits)

lemma snd_side_eq:
  "snd_side p = snd_side q \<longleftrightarrow> state p = state q \<and> mss p = mss q \<and> snd_lbb p = snd_lbb q \<and> snd_nxt p = snd_nxt q
     \<and> snd_max p = snd_max q \<and> lastack p = lastack q \<and> snd_buf p = snd_buf q \<and> unacked p = unacked q \<and> unsent p = unsent q"
  by (simp add: snd_side_def)

text \<open>The sequence numbers of what was sent last and farthest move to the end of the segment.\<close>

definition advance :: "u32 \<Rightarrow> tcp_pcb \<Rightarrow> tcp_pcb" where
  "advance e pcb =
     (let pcb = pcb\<lparr>snd_nxt := e\<rparr> in
      if TCP_SEQ_LT (snd_max pcb) (snd_nxt pcb) then pcb\<lparr>snd_max := snd_nxt pcb\<rparr> else pcb)"

lemma advance_queues: "unacked (advance e pcb) = unacked pcb" "unsent (advance e pcb) = unsent pcb"
  by (simp_all add: advance_def Let_def)

lemma advance_side:
  "snd_side (advance e p) = (state p, mss p, snd_lbb p, e, if TCP_SEQ_LT (snd_max p) e then e else snd_max p,
     lastack p, snd_buf p, unacked p, unsent p)"
  by (simp add: advance_def Let_def snd_side_def)

lemma advance_unacked: "(advance e p)\<lparr>unacked := us\<rparr> = advance e (p\<lparr>unacked := us\<rparr>)"
  by (simp add: advance_def Let_def)

lemma advance_ok:
  assumes "sender_ok w iss B R a pcb" and "e \<le> length w" and "a \<le> e + 65536"
  shows "sender_ok w iss B R a (advance (iss + of_nat e) pcb)"
proof -
  from assms(1) obtain m where m: "snd_max pcb = iss + of_nat m" "a \<le> m" "m \<le> length w"
    and b: "length w - a < 65536"
    by (auto simp: sender_ok_def)
  have "TCP_SEQ_LT (iss + of_nat m) (iss + of_nat e) \<longleftrightarrow> m < e"
    by (rule seq_cmp(1)) (use m b assms(2,3) in simp_all)
  then show ?thesis
    using assms(1,2) m by (auto simp: sender_ok_def advance_def Let_def intro: exI [of _ e] exI [of _ m])
qed

text \<open>One iteration of the loop in \<open>tcp_output\<close>.\<close>

lemma output_step_ok:
  assumes "sender_ok w iss B R a pcb" and "out_ok L w iss R (t_out t)" and "unsent pcb = sg # sgs"
    and "tcp_output_segment E (sg\<lparr>seg_flags := seg_flags sg OR TCP_ACK\<rparr>)
          (pcb\<lparr>rtime := 0, unsent := sgs, flags := fl'\<rparr>) t = Inr (sg2, p2, t2)"
    and "p4 = (advance (seg_seqno sg2 + TCP_TCPLEN sg2) p2)\<lparr>unacked := unacked p2 @ [sg2]\<rparr>"
  shows "TCP_TCPLEN sg2 > 0" and "tx_ok L w iss B p4 t2" and "unsent p4 = sgs"
proof -
  note o = tcp_output_segment_emits [OF assms(4)]
  have fl: "seg_flags sg2 AND 7 = seg_flags sg AND 7"
    by (simp add: o(6) TCP_ACK_def bit.conj_disj_distrib2)
  have q: "unacked pcb @ unsent pcb = unacked pcb @ sg # sgs" using assms(3) by simp
  let ?q = "pcb\<lparr>unacked := unacked pcb @ [sg2], unsent := sgs\<rparr>"
  obtain r where r: "a \<le> fst r + 65536" "loaded w iss sg2 (fst r) (snd r)" "sender_ok w iss B (insert r R) a ?q"
    using sender_emit [OF assms(1) q _ _ _ _ fl] o(2-5) by auto
  obtain c src dst where c: "seg_p sg2 = Some c" "t_out t2 = t_out t @ [(src, dst, wire_of src dst sg2 c)]"
    using o(7) by blast
  have out: "out_ok L w iss (insert r R) (t_out t2)"
    unfolding c(2)
    by (rule out_ok_snoc [OF out_ok_mono [OF assms(2)]]) (use loaded_emitted [OF r(2) c(1), of src dst] in auto)
  have e: "seg_seqno sg2 + TCP_TCPLEN sg2 = iss + of_nat (fst r + snd r)" "fst r + snd r \<le> length w"
    using r(2) loaded_tcplen [OF r(2)] by (simp_all add: loaded_def)
  show "TCP_TCPLEN sg2 > 0"
    using r(2) loaded_tcplen [OF r(2)] len_32(2) [of "snd r"] loaded_len [OF r(2)]
    by (simp add: loaded_def word_less_nat_alt)
  have "a \<le> fst r + snd r + 65536" using r(1) by simp
  then have ok: "sender_ok w iss B (insert r R) a (advance (iss + of_nat (fst r + snd r)) ?q)"
    by (rule advance_ok [OF r(3) e(2)])
  have "snd_side p4 = snd_side (advance (iss + of_nat (fst r + snd r)) ?q)"
    using o(1) unfolding assms(5) e(1) advance_unacked advance_side by (simp add: snd_side_eq)
  from sender_ok_side [OF this] ok have "sender_ok w iss B (insert r R) a p4" by blast
  with out show "tx_ok L w iss B p4 t2" unfolding tx_ok_def by blast
  show "unsent p4 = sgs" using o(1) by (simp add: assms(5) snd_side_eq advance_queues)
qed

lemma tcp_output_loop_ok:
  assumes "tx_ok L w iss B pcb t" and "unsent pcb = sgs" and "tcp_output_loop E wnd sgs pcb t = Inr (pcb', t')"
  shows "tx_ok L w iss B pcb' t'"
  using assms
proof (induction sgs arbitrary: pcb t)
  case (Cons sg sgs)
  show ?case
  proof (cases "seg_fits wnd pcb sg")
    case True
    from Cons.prems(1) obtain R a where ok: "sender_ok w iss B R a pcb" "out_ok L w iss R (t_out t)" by (auto simp: tx_ok_def)
    have st: "state pcb \<noteq> SYN_SENT" using ok(1) by (simp add: sender_ok_def)
    from Cons.prems(3) True st obtain sg2 p2 t2 where
      s: "tcp_output_segment E (sg\<lparr>seg_flags := seg_flags sg OR TCP_ACK\<rparr>)
            (pcb\<lparr>rtime := 0, unsent := sgs, flags := flags pcb AND NOT (TF_ACK_DELAY OR TF_ACK_NOW)\<rparr>) t = Inr (sg2, p2, t2)"
      and rest: "(let p = advance (seg_seqno sg2 + TCP_TCPLEN sg2) p2;
          (p, t) = (if TCP_TCPLEN sg2 > 0 then (p\<lparr>unacked := unacked p @ [sg2]\<rparr>, t2) else (p, tcp_seg_free t2)) in
        tcp_output_loop E wnd sgs p t) = Inr (pcb', t')"
      by (auto simp: Let_def bindr_Inr_iff advance_def split: if_splits)
    note o = output_step_ok [OF ok Cons.prems(2) s refl]
    from rest o(1) have "tcp_output_loop E wnd sgs
        ((advance (seg_seqno sg2 + TCP_TCPLEN sg2) p2)\<lparr>unacked := unacked p2 @ [sg2]\<rparr>) t2 = Inr (pcb', t')"
      by (simp add: Let_def advance_queues)
    then show ?thesis by (rule Cons.IH [OF o(2,3)])
  qed (use Cons.prems in simp)
qed simp

lemma ack_header_ok:
  assumes "tx_ok L w iss B pcb t" and "snd_side pcb' = snd_side pcb"
    and "t_out t' = t_out t @ [(src, dst, tcp_wire src dst (tcp_hdr sp dp (snd_nxt pcb) ackno 0x50 TCP_ACK wnd)
           \<lparr>p_tot = TCP_HLEN, p_bufs = [[]]\<rparr>)]"
  shows "tx_ok L w iss B pcb' t'"
proof -
  from assms(1) obtain R a where ok: "sender_ok w iss B R a pcb" "out_ok L w iss R (t_out t)" by (auto simp: tx_ok_def)
  then obtain x where x: "x \<le> length w" "snd_nxt pcb = iss + of_nat x" by (auto simp: sender_ok_def)
  have "emitted w iss (src, dst, tcp_wire src dst (tcp_hdr sp dp (iss + of_nat x) ackno 0x50 TCP_ACK wnd)
           \<lparr>p_tot = TCP_HLEN, p_bufs = [[]]\<rparr>) (x, 0)"
    by (rule wire_emitted) (use x(1) in \<open>simp_all add: TCP_HLEN_def TCP_ACK_def\<close>)
  then have "out_ok L w iss R (t_out t')" using ok(2) assms(3) x(2) by (auto intro: out_ok_snoc)
  moreover have "sender_ok w iss B R a pcb'" using ok(1) sender_ok_side [OF assms(2)] by simp
  ultimately show ?thesis by (auto simp: tx_ok_def)
qed

lemma tcp_output_ok:
  assumes "tx_ok L w iss B pcb t" and "tcp_output E pcb t = Inr (e, pcb', t')"
  shows "tx_ok L w iss B pcb' t'"
proof (cases "flags pcb AND TF_ACK_NOW \<noteq> 0")
  case True
  let ?p = "pcb\<lparr>flags := flags pcb AND NOT (TF_ACK_DELAY OR TF_ACK_NOW)\<rparr>"
  show ?thesis
  proof (cases "room E (t_allocs t)")
    case room: True
    have "pcb' = ?p" "t' = t\<lparr>t_allocs := Suc (t_allocs t), t_out := t_out t @ [(local_ip pcb, remote_ip pcb,
        tcp_wire (local_ip pcb) (remote_ip pcb) (tcp_hdr (local_port pcb) (remote_port pcb) (snd_nxt pcb) (rcv_nxt pcb) 0x50 TCP_ACK
          (rcv_wnd pcb)) \<lparr>p_tot = TCP_HLEN, p_bufs = [[]]\<rparr>)]\<rparr>"
      using assms(2) True room by (simp_all add: tcp_output_def Let_def pbuf_alloc_def send_header_Inr)
    then show ?thesis by (intro ack_header_ok [OF assms(1)]) (simp_all add: snd_side_eq)
  next
    case False
    have "pcb' = ?p" "t_out t' = t_out t"
      using assms(2) True False by (auto simp: tcp_output_def Let_def pbuf_alloc_def)
    then show ?thesis by (intro tx_ok_side [OF assms(1)]) (simp_all add: snd_side_eq)
  qed
next
  case False
  then have "tcp_output_loop E (snd_window pcb) (unsent pcb) pcb t = Inr (pcb', t')"
    using assms(2) by (auto simp: tcp_output_def Let_def bindr_Inr_iff)
  then show ?thesis by (rule tcp_output_loop_ok [OF assms(1) refl])
qed

lemma tcp_ack_now_ok:
  assumes "tx_ok L w iss B pcb t" and "tcp_ack_now E pcb t = Inr (pcb', t')"
  shows "tx_ok L w iss B pcb' t'"
proof -
  let ?p = "pcb\<lparr>flags := flags pcb OR TF_ACK_NOW\<rparr>"
  have "tx_ok L w iss B ?p t" by (rule tx_ok_side [OF assms(1)]) (simp_all add: snd_side_eq)
  moreover obtain e where "tcp_output E ?p t = Inr (e, pcb', t')"
    using assms(2) by (auto simp: tcp_ack_now_def bindr_Inr_iff)
  ultimately show ?thesis by (rule tcp_output_ok)
qed

lemma tcp_ack_ok:
  assumes "tx_ok L w iss B pcb t" and "tcp_ack E pcb t = Inr (pcb', t')"
  shows "tx_ok L w iss B pcb' t'"
proof (cases "flags pcb AND TF_ACK_DELAY \<noteq> 0")
  case True
  then show ?thesis using assms(2) by (auto simp: tcp_ack_def intro: tcp_ack_now_ok [OF assms(1)])
next
  case False
  then have "pcb' = pcb\<lparr>flags := flags pcb OR TF_ACK_DELAY\<rparr>" "t' = t" using assms(2) by (simp_all add: tcp_ack_def)
  then show ?thesis by (intro tx_ok_side [OF assms(1)]) (simp_all add: snd_side_eq)
qed


section \<open>Retransmission\<close>

lemma tcp_rexmit_seg_emits:
  assumes "tcp_rexmit_seg pcb sg t = Inr (pcb', sg', t')"
  shows "snd_side pcb' = snd_side pcb"
    and "seg_p sg' = seg_p sg" "seg_len sg' = seg_len sg" "seg_seqno sg' = seg_seqno sg"
      "seg_offset sg' = seg_offset sg" "seg_flags sg' = seg_flags sg"
    and "t_out t' = t_out t \<or> (\<exists>c src dst. seg_p sg' = Some c \<and> t_out t' = t_out t @ [(src, dst, wire_of src dst sg' c)])"
  using assms by (auto simp: tcp_rexmit_seg_def Let_def need_Inr_iff bindr_Inr_iff snd_side_def wire_of_def sr_lwip_output_def
      split: option.splits if_splits)

text \<open>The queues before a retransmission and after it, which may have moved segments back to \<open>unsent\<close>.\<close>

lemma rexmit_ok:
  assumes "sender_ok w iss B R a pcb" and "out_ok L w iss R (t_out t)"
    and "unacked pcb @ unsent pcb = sg # vs" and "tcp_rexmit_seg p1 sg t = Inr (p2, sg2, t2)"
  shows "\<exists>R'. sender_ok w iss B R' a (pcb\<lparr>unacked := [sg2], unsent := vs\<rparr>) \<and> out_ok L w iss R' (t_out t2)"
proof -
  note o = tcp_rexmit_seg_emits [OF assms(4)]
  have q: "unacked pcb @ unsent pcb = [] @ sg # vs" using assms(3) by simp
  have fl: "seg_flags sg2 AND 7 = seg_flags sg AND 7" by (simp add: o(6))
  obtain r where r: "loaded w iss sg2 (fst r) (snd r)"
    "sender_ok w iss B (insert r R) a (pcb\<lparr>unacked := [sg2], unsent := vs\<rparr>)"
    using sender_emit [OF assms(1) q o(2-5) fl] by auto
  have "out_ok L w iss (insert r R) (t_out t)" by (rule out_ok_mono [OF assms(2)]) blast
  then have "out_ok L w iss (insert r R) (t_out t2)"
    using o(7) loaded_emitted [OF r(1)] out_ok_snoc [of L w iss "insert r R" "t_out t"] by (metis insertI1 prod.collapse)
  with r(2) show ?thesis by blast
qed

text \<open>Only the concatenation of the two queues matters.\<close>

lemma sender_ok_cat:
  assumes "sender_ok w iss B R a p" and "unacked q @ unsent q = unacked p @ unsent p"
    and "state q = state p" "mss q = mss p" "snd_lbb q = snd_lbb p" "snd_max q = snd_max p" "lastack q = lastack p"
      "snd_buf q = snd_buf p"
    and "snd_nxt q = snd_nxt p \<or> (\<exists>x\<le>length w. snd_nxt q = iss + of_nat x)"
  shows "sender_ok w iss B R a q"
proof -
  have "\<exists>x\<le>length w. snd_nxt q = iss + of_nat x" using assms(1,9) by (auto simp: sender_ok_def)
  then show ?thesis using assms(1-8) unfolding sender_ok_def by simp
qed

lemma queue_head_seqno:
  assumes "sender_ok w iss B R a pcb" and "sg \<in> set (unacked pcb @ unsent pcb)"
  shows "\<exists>x\<le>length w. seg_seqno sg = iss + of_nat x"
proof -
  from assms(1) obtain p where "queued w iss p (unacked pcb @ unsent pcb) (length w)"
    by (auto simp: sender_ok_def queue_ok_def)
  moreover have "\<exists>x\<le>length w. seg_seqno s = iss + of_nat x" if "queued w iss p ss e" "s \<in> set ss" for p ss e s
    using that
  proof (induction ss arbitrary: p)
    case (Cons y ys)
    show ?case
    proof (cases "s = y")
      case True
      then show ?thesis using Cons.prems(1) by (intro exI [of _ p]) (auto simp: loaded_def)
    qed (use Cons in auto)
  qed simp
  ultimately show ?thesis using assms(2) by blast
qed

lemma duplicate_ack_ok:
  assumes "tx_ok L w iss B pcb t" and "duplicate_ack pcb t = Inr (pcb', t')"
  shows "tx_ok L w iss B pcb' t'"
proof (cases "unacked pcb = [] \<or> dupacks pcb + 1 < 3 \<or> flags pcb AND TF_INFR \<noteq> 0")
  case True
  then have "snd_side pcb' = snd_side pcb" "t' = t"
    using assms(2) by (auto simp: duplicate_ack_def Let_def inflate_def snd_side_eq split: list.splits if_splits)
  then show ?thesis by (intro tx_ok_side [OF assms(1)]) simp_all
next
  case False
  let ?p = "pcb\<lparr>dupacks := dupacks pcb + 1\<rparr>"
  from False obtain sg rest where u: "unacked pcb = sg # rest" by (auto simp: neq_Nil_conv)
  with False assms(2) obtain p2 sg2 where
    r: "tcp_rexmit_seg ?p sg t = Inr (p2, sg2, t')"
    and side: "unacked pcb' = sg2 # rest" "unsent pcb' = unsent p2" "state pcb' = state p2" "mss pcb' = mss p2"
      "snd_lbb pcb' = snd_lbb p2" "snd_nxt pcb' = snd_nxt p2" "snd_max pcb' = snd_max p2" "lastack pcb' = lastack p2"
      "snd_buf pcb' = snd_buf p2"
    by (auto simp: duplicate_ack_def Let_def bindr_Inr_iff)
  from assms(1) obtain R a where ok: "sender_ok w iss B R a pcb" "out_ok L w iss R (t_out t)" by (auto simp: tx_ok_def)
  have "unacked pcb @ unsent pcb = sg # rest @ unsent pcb" using u by simp
  from rexmit_ok [OF ok this r] obtain R' where
    R': "sender_ok w iss B R' a (pcb\<lparr>unacked := [sg2], unsent := rest @ unsent pcb\<rparr>)" "out_ok L w iss R' (t_out t')" by blast
  have "sender_ok w iss B R' a pcb'"
    by (rule sender_ok_cat [OF R'(1)])
      (use side tcp_rexmit_seg_emits(1) [OF r] in \<open>simp_all add: snd_side_eq\<close>)
  with R'(2) show ?thesis unfolding tx_ok_def by blast
qed

lemma reduce_cwnd_side: "snd_side (reduce_cwnd pcb) = snd_side pcb"
  by (simp add: reduce_cwnd_def Let_def snd_side_def)

lemma back_off_side: "snd_side (back_off pcb) = snd_side pcb"
  by (simp add: back_off_def snd_side_def)

lemma move_to_unsent_side:
  "state (move_to_unsent rest p) = state p" "mss (move_to_unsent rest p) = mss p" "snd_lbb (move_to_unsent rest p) = snd_lbb p"
  "snd_max (move_to_unsent rest p) = snd_max p" "lastack (move_to_unsent rest p) = lastack p"
  "snd_buf (move_to_unsent rest p) = snd_buf p" "unsent (move_to_unsent rest p) = rest @ unsent p"
  "snd_nxt (move_to_unsent rest p) = (if rest = [] then snd_nxt p else seg_seqno (hd rest))"
  by (simp_all add: move_to_unsent_def)

lemma slow_rexmit_ok:
  assumes "tx_ok L w iss B pcb t" and "unacked pcb = sg # rest" and "slow_rexmit pcb sg rest t = Inr (pcb', t')"
  shows "tx_ok L w iss B pcb' t'"
proof -
  let ?p = "move_to_unsent rest (back_off pcb)"
  obtain p2 sg2 where r: "tcp_rexmit_seg ?p sg t = Inr (p2, sg2, t')"
    and e: "pcb' = reduce_cwnd (p2\<lparr>unacked := [sg2]\<rparr>)"
    using assms(3) by (auto simp: slow_rexmit_def bindr_Inr_iff need_Inr_iff)
  from assms(1) obtain R a where ok: "sender_ok w iss B R a pcb" "out_ok L w iss R (t_out t)" by (auto simp: tx_ok_def)
  have q: "unacked pcb @ unsent pcb = sg # rest @ unsent pcb" using assms(2) by simp
  from rexmit_ok [OF ok q r] obtain R' where
    R': "sender_ok w iss B R' a (pcb\<lparr>unacked := [sg2], unsent := rest @ unsent pcb\<rparr>)" "out_ok L w iss R' (t_out t')" by blast
  have nx: "rest \<noteq> [] \<Longrightarrow> \<exists>x\<le>length w. seg_seqno (hd rest) = iss + of_nat x"
    using queue_head_seqno [OF ok(1), of "hd rest"] assms(2) by (cases rest) auto
  have "sender_ok w iss B R' a (p2\<lparr>unacked := [sg2]\<rparr>)"
    by (rule sender_ok_cat [OF R'(1)])
      (use tcp_rexmit_seg_emits(1) [OF r] back_off_side [of pcb] nx in \<open>auto simp: snd_side_eq move_to_unsent_side\<close>)
  then have "sender_ok w iss B R' a pcb'" unfolding e using sender_ok_side [OF reduce_cwnd_side] by blast
  with R'(2) show ?thesis unfolding tx_ok_def by blast
qed

section \<open>Acknowledgements\<close>

text \<open>
  An acknowledgement that passes the two comparisons lies in what was sent, unless it is
  exactly \<open>2 ^ 31\<close> ahead of \<open>lastack\<close>.
\<close>

lemma ack_range:
  assumes "TCP_SEQ_LT (iss + of_nat a) ackno" and "TCP_SEQ_LEQ ackno (iss + of_nat m)" and "a \<le> m" and "m < a + 65536"
    and "ackno - (iss + of_nat a) \<noteq> 0x80000000"
  obtains b where "ackno = iss + of_nat b" and "a < b" and "b \<le> m"
proof -
  let ?l = "iss + of_nat a :: u32"
  define d where "d = unat (ackno - ?l)"
  have lt: "d < 4294967296" unfolding d_def by (rule unat_u32_less)
  have dw: "ackno = ?l + of_nat d" by (simp add: d_def)
  have ne: "d \<noteq> 2 ^ 31" using assms(5) by (auto simp: dw)
  have "\<not> 2 ^ 31 < d"
  proof
    assume big: "2 ^ 31 < d"
    have "(of_nat d + of_nat (4294967296 - d) :: u32) = of_nat 4294967296" using lt unfolding of_nat_add [symmetric] by simp
    then have "?l = ackno + of_nat (4294967296 - d)" by (simp add: dw add.assoc)
    moreover have "\<not> TCP_SEQ_LT (ackno + of_nat (4294967296 - d)) (ackno + of_nat 0)"
      using seq_cmp(1) [of "4294967296 - d" 0 ackno] big lt by simp
    ultimately show False using assms(1) by simp
  qed
  then have d: "d < 2 ^ 31" using ne by simp
  have e: "ackno = iss + of_nat (a + d)" by (simp add: dw add.assoc)
  have "a < a + d" using assms(1) unfolding e using seq_cmp(1) [of a "a + d" iss] d by simp
  moreover have "a + d \<le> m" using assms(2) unfolding e using seq_cmp(2) [of "a + d" m iss] d assms(3,4) by simp
  ultimately show ?thesis using that e by blast
qed

definition fixed_side :: "tcp_pcb \<Rightarrow> tcp_state \<times> u16 \<times> u32 \<times> u32 \<times> u32 \<times> u16" where
  "fixed_side p = (state p, mss p, snd_lbb p, snd_max p, lastack p, snd_buf p)"

lemma fixed_side_upd:
  "fixed_side (p\<lparr>unsent := x0\<rparr>) = fixed_side p" "fixed_side (p\<lparr>unacked := x1\<rparr>) = fixed_side p"
  "fixed_side (p\<lparr>snd_queuelen := x2\<rparr>) = fixed_side p" "fixed_side (p\<lparr>snd_nxt := x3\<rparr>) = fixed_side p"
  "fixed_side (p\<lparr>polltmr := x4\<rparr>) = fixed_side p"
  by (simp_all add: fixed_side_def)

lemma ack_unsent_fixed: "fixed_side (fst (ack_unsent ackno sgs pcb t)) = fixed_side pcb"
proof (induction sgs arbitrary: pcb t)
  case (Cons sg sgs)
  then show ?case by (cases sgs) (simp_all add: Let_def fixed_side_upd)
qed (simp add: fixed_side_upd)

lemma ack_unsent_nxt:
  "snd_nxt (fst (ack_unsent ackno sgs pcb t)) = snd_nxt pcb
     \<or> snd_nxt (fst (ack_unsent ackno sgs pcb t)) \<in> seg_seqno ` set sgs"
proof (induction sgs arbitrary: pcb t)
  case (Cons sg sgs)
  show ?case
  proof (cases sgs)
    case Nil
    then show ?thesis by (simp add: Let_def)
  next
    case (Cons y ys)
    show ?thesis
    proof (cases "seg_acked ackno sg")
      case True
      let ?p = "pcb\<lparr>snd_queuelen := snd_queuelen pcb - seg_clen sg, snd_nxt := seg_seqno y\<rparr>"
      have "ack_unsent ackno (sg # sgs) pcb t = ack_unsent ackno sgs ?p (tcp_seg_free t)"
        using True Cons by (simp add: Let_def)
      moreover have "snd_nxt ?p \<in> seg_seqno ` set sgs" using Cons by simp
      ultimately show ?thesis using Cons.IH [of ?p "tcp_seg_free t"] by (metis image_mono list.set_intros(2) subsetD subsetI)
    qed simp
  qed
qed simp

lemma ack_unacked_fixed:
  "fixed_side (fst (ack_unacked ackno sgs pcb t)) = fixed_side pcb"
  "snd_nxt (fst (ack_unacked ackno sgs pcb t)) = snd_nxt pcb"
  by (induction sgs arbitrary: pcb t) (simp_all add: fixed_side_upd)

lemma ack_frees_only: "t_out (snd (ack_unsent ackno sgs pcb t)) = t_out t" "t_out (snd (ack_unacked ackno sgs pcb t)) = t_out t"
  by (induction sgs arbitrary: pcb t) (simp_all add: Let_def tcp_seg_free_def split: list.splits)

lemma drop_acked_fields:
  assumes "drop_acked ackno pcb t = (p, t')"
  shows "fixed_side p = fixed_side pcb"
    "snd_nxt p = snd_nxt pcb \<or> snd_nxt p \<in> seg_seqno ` set (unsent pcb)"
    "unacked p = dropWhile (seg_acked ackno) (unacked pcb)" "unsent p = dropWhile (seg_acked ackno) (unsent pcb)"
    "t_out t' = t_out t"
proof -
  let ?u = "ack_unsent ackno (unsent pcb) pcb t"
  let ?v = "ack_unacked ackno (unacked (fst ?u)) (fst ?u) (snd ?u)"
  have e: "p = (fst ?v)\<lparr>polltmr := 0\<rparr>" "t' = snd ?v" using assms by (simp_all add: drop_acked_def Let_def split_beta)
  show "fixed_side p = fixed_side pcb" by (simp add: e fixed_side_upd ack_unacked_fixed ack_unsent_fixed)
  show "snd_nxt p = snd_nxt pcb \<or> snd_nxt p \<in> seg_seqno ` set (unsent pcb)"
    using ack_unsent_nxt [of ackno "unsent pcb" pcb t] by (simp add: e ack_unacked_fixed)
  show "unacked p = dropWhile (seg_acked ackno) (unacked pcb)" "unsent p = dropWhile (seg_acked ackno) (unsent pcb)"
    "t_out t' = t_out t"
    by (simp_all add: e ack_unsent_eq ack_unacked_eq ack_frees_only)
qed

lemma grow_cwnd_side: "grow_cwnd pcb = Inr pcb' \<Longrightarrow> snd_side pcb' = snd_side pcb"
  by (auto simp: grow_cwnd_def Let_def need_Inr_iff inflate_def snd_side_eq split: if_splits)

lemma account_ack_fields:
  "state (account_ack ackno p) = state p" "mss (account_ack ackno p) = mss p" "snd_lbb (account_ack ackno p) = snd_lbb p"
  "snd_max (account_ack ackno p) = snd_max p" "lastack (account_ack ackno p) = ackno"
  "snd_buf (account_ack ackno p) = snd_buf p + ucast (ackno - lastack p)" "snd_nxt (account_ack ackno p) = snd_nxt p"
  "unacked (account_ack ackno p) = unacked p" "unsent (account_ack ackno p) = unsent p"
  by (simp_all add: account_ack_def Let_def)

lemma new_ack_ok:
  assumes "sender_ok w iss B R a pcb" and "ackno = iss + of_nat b" and "a < b" and "snd_max pcb = iss + of_nat m"
    and "b \<le> m" "m \<le> length w" and "new_ack ackno pcb t = Inr (pcb', t')"
  shows "sender_ok w iss B R b pcb'" and "t_out t' = t_out t"
proof -
  obtain p where p: "grow_cwnd (account_ack ackno pcb) = Inr p" "drop_acked ackno p t = (pcb', t')"
    using assms(7) by (auto simp: new_ack_def bindr_Inr_iff)
  note f = drop_acked_fields [OF p(2)] drop_acked_fields(1) [OF p(2), unfolded fixed_side_def prod.inject]
  note g = grow_cwnd_side [OF p(1), unfolded snd_side_eq account_ack_fields]
  show "t_out t' = t_out t" by (rule f(5))
  from assms(1) obtain s where s: "s \<le> a" "a \<le> s + 65536" "queued w iss s (unacked pcb @ unsent pcb) (length w)"
    "\<forall>r\<in>R. \<forall>r'\<in>set (parts s (unacked pcb @ unsent pcb)). apart r r'" "length w - a + unat (snd_buf pcb) = B" "B < 65536"
    by (auto simp: sender_ok_def queue_ok_def)
  have b: "s \<le> b" "b \<le> length w" "length w < s + 2 ^ 31" using s assms(3,5,6) by simp_all
  have "unacked pcb' @ unsent pcb' = dropWhile (seg_acked (iss + of_nat b)) (unacked pcb @ unsent pcb)"
    using drop_acked_split [OF s(3) b] f(3,4) g assms(2) by simp
  with drop_acked_queue [OF s(3) b] have q: "queue_ok w iss b R (unacked pcb' @ unsent pcb')"
    unfolding queue_ok_def using s(4) by (metis subsetD)
  have "ackno - lastack pcb = of_nat (b - a)"
    using assms(1-3) by (simp add: sender_ok_def of_nat_diff)
  then have "unat (ucast (ackno - lastack pcb) :: u16) = b - a"
    using len_32(1,4) [of "b - a"] b(2) s(5,6) assms(3) by simp
  then have "unat (snd_buf pcb') = unat (snd_buf pcb) + (b - a)"
    using s(5,6) b(2) assms(3) by (simp add: f(6) g unat_word_ariths)
  then have buf: "length w - b + unat (snd_buf pcb') = B" using s(5) b(2) assms(3) by simp
  have "\<exists>x\<le>length w. snd_nxt pcb' = iss + of_nat x"
    using f(2) g assms(1) queue_head_seqno [OF assms(1)] by (auto simp: sender_ok_def)
  moreover have "state pcb' \<noteq> SYN_SENT" "0 < mss pcb'" "mss pcb' \<le> TCP_MSS" "snd_lbb pcb' = iss + of_nat (length w)"
    "snd_max pcb' = iss + of_nat m" "lastack pcb' = iss + of_nat b"
    using assms(1,2,4) f(6) g by (simp_all add: sender_ok_def)
  moreover have "\<forall>r\<in>R. 0 < snd r \<and> fst r + snd r \<le> length w" "\<forall>r\<in>R. \<forall>r'\<in>R. apart r r'"
    using assms(1) unfolding sender_ok_def by blast+
  ultimately show "sender_ok w iss B R b pcb'"
    using q buf s(6) assms(5,6) unfolding sender_ok_def by blast
qed

lemma receive_ack_ok:
  assumes "tx_ok L w iss B pcb t" and "seg_ackno sg - lastack pcb \<noteq> 0x80000000" and "receive_ack sg pcb t = Inr (pcb', t')"
  shows "tx_ok L w iss B pcb' t'"
proof -
  let ?p = "update_window sg pcb"
  obtain p where p: "process_ack (seg_ackno sg) ?p t = Inr (p, t')" "pcb' = rtt_estimate (seg_ackno sg) t' p"
    using assms(3) by (auto simp: receive_ack_def bindr_Inr_iff)
  have side: "snd_side ?p = snd_side pcb" "snd_side pcb' = snd_side p"
    by (simp_all add: update_window_def rtt_estimate_def p(2) Let_def snd_side_def)
  have ok: "tx_ok L w iss B ?p t" by (rule tx_ok_side [OF assms(1) side(1) refl])
  then obtain R a m where R: "sender_ok w iss B R a ?p" "out_ok L w iss R (t_out t)" "lastack ?p = iss + of_nat a"
    "snd_max ?p = iss + of_nat m" "a \<le> m" "m \<le> length w" "m < a + 65536"
    by (fastforce simp: tx_ok_def sender_ok_def)
  have "tx_ok L w iss B p t'"
  proof (cases "lastack ?p \<noteq> seg_ackno sg \<and> TCP_SEQ_LT (lastack ?p) (seg_ackno sg) \<and> TCP_SEQ_LEQ (seg_ackno sg) (snd_max ?p)")
    case True
    then have "TCP_SEQ_LT (iss + of_nat a) (seg_ackno sg)" "TCP_SEQ_LEQ (seg_ackno sg) (iss + of_nat m)"
      using R(3,4) by simp_all
    moreover have "seg_ackno sg - (iss + of_nat a) \<noteq> 0x80000000" using assms(2) R(3) side(1) by (simp add: snd_side_eq)
    ultimately obtain b where b: "seg_ackno sg = iss + of_nat b" "a < b" "b \<le> m"
      using ack_range [of iss a "seg_ackno sg" m] R(5,7) by blast
    have "new_ack (seg_ackno sg) ?p t = Inr (p, t')" using p(1) True by (simp add: process_ack_def)
    from new_ack_ok [OF R(1) b(1,2) R(4) b(3) R(6) this] R(2) show ?thesis unfolding tx_ok_def by metis
  next
    case False
    then show ?thesis
      using p(1) ok duplicate_ack_ok [OF ok] by (auto simp: process_ack_def split: if_splits)
  qed
  then show ?thesis by (rule tx_ok_side [OF _ side(2) refl])
qed

section \<open>Incoming segments and the timer\<close>

lemma take_window_side: "snd_side (take_window sg pcb) = snd_side pcb"
  by (simp add: take_window_def snd_side_def)

lemma dequeue_ooseq_side:
  "dequeue_ooseq fl sgs pcb t = Inr (pcb', t') \<Longrightarrow> snd_side pcb' = snd_side pcb \<and> t_out t' = t_out t"
proof (induction sgs arbitrary: pcb t)
  case Nil
  then show ?case by (auto simp: snd_side_def)
next
  case (Cons sg sgs)
  show ?case
  proof (cases "seg_seqno sg = rcv_nxt pcb")
    case True
    then obtain p where "dequeue_ooseq fl sgs p (tcp_seg_free t) = Inr (pcb', t')" "snd_side p = snd_side (take_window sg pcb)"
      using Cons.prems
      by (auto simp: Let_def bindr_Inr_iff snd_side_def split: option.splits if_splits)
    then show ?thesis using Cons.IH take_window_side by (simp add: tcp_seg_free_def)
  qed (use Cons.prems in \<open>auto simp: snd_side_def\<close>)
qed

lemma snd_side_upd:
  "snd_side (p\<lparr>flags := x0\<rparr>) = snd_side p" "snd_side (p\<lparr>recv_data := x1\<rparr>) = snd_side p"
  "snd_side (p\<lparr>ooseq := x2\<rparr>) = snd_side p" "snd_side (p\<lparr>rtime := x3\<rparr>) = snd_side p"
  by (simp_all add: snd_side_def)

lemma receive_in_sequence_Inr:
  assumes "receive_in_sequence E sg pcb t = Inr (sg', pcb', t')"
  obtains fl q q' u where "dequeue_ooseq fl (ooseq q) q t = Inr (q', u)" and "tcp_ack E q' u = Inr (pcb', t')"
    and "snd_side q = snd_side pcb" and "ooseq q = ooseq pcb"
proof -
  from assms obtain s where s: "trim_last sg (ooseq pcb) = Inr s"
    by (auto simp: receive_in_sequence_def bindr_Inr_iff)
  obtain d where d: "seg_p s = Some d" using assms s by (cases "seg_p s") (simp_all add: receive_in_sequence_def)
  define p where "p = (if p_tot d > 0 then (take_window s pcb)\<lparr>recv_data := Some d\<rparr> else take_window s pcb)"
  define q where "q = (if seg_flags s AND TCP_FIN \<noteq> 0 then p\<lparr>flags := flags p OR TF_GOT_FIN\<rparr> else p)"
  have "receive_in_sequence E sg pcb t = bindr (dequeue_ooseq (seg_flags s) (ooseq q) q t) (\<lambda>(pcb, t).
      bindr (tcp_ack E pcb t) (\<lambda>(pcb, t). Inr (if p_tot d > 0 then s\<lparr>seg_p := None\<rparr> else s, pcb, t)))"
    unfolding receive_in_sequence_def s q_def p_def by (cases "p_tot d > 0") (simp_all add: d Let_def)
  with assms obtain q' u where r: "dequeue_ooseq (seg_flags s) (ooseq q) q t = Inr (q', u)" "tcp_ack E q' u = Inr (pcb', t')"
    by (auto simp: bindr_Inr_iff)
  then show ?thesis by (rule that) (simp_all add: q_def p_def snd_side_upd take_window_side, simp_all add: take_window_def)
qed

lemma receive_in_sequence_tx:
  assumes "tx_ok L w iss B pcb t" and "receive_in_sequence E sg pcb t = Inr (sg', pcb', t')"
  shows "tx_ok L w iss B pcb' t'"
proof -
  obtain fl q q' u where r: "dequeue_ooseq fl (ooseq q) q t = Inr (q', u)" "tcp_ack E q' u = Inr (pcb', t')"
    "snd_side q = snd_side pcb"
    using assms(2) by (rule receive_in_sequence_Inr)
  have "tx_ok L w iss B q' u" using dequeue_ooseq_side [OF r(1)] r(3) by (intro tx_ok_side [OF assms(1)]) simp_all
  then show ?thesis by (rule tcp_ack_ok [OF _ r(2)])
qed

lemma receive_out_of_sequence_tx:
  assumes "tx_ok L w iss B pcb t" and "receive_out_of_sequence E sg pcb t = Inr (sg', pcb', t')"
  shows "tx_ok L w iss B pcb' t'"
proof -
  obtain p u where a: "tcp_ack_now E pcb t = Inr (p, u)" using tcp_ack_now_returns by blast
  then consider oos n where "pcb' = p\<lparr>ooseq := oos\<rparr>" "t' = u\<lparr>t_seg_free := n\<rparr>" | "pcb' = p" "t' = u"
    using assms(2) by (auto simp: receive_out_of_sequence_def bindr_Inr_iff simp del: tcp_pcb.update_convs split: if_splits)
  then have "snd_side pcb' = snd_side p \<and> t_out t' = t_out u" by cases (simp_all add: snd_side_upd)
  then show ?thesis by (intro tx_ok_side [OF tcp_ack_now_ok [OF assms(1) a]]) simp_all
qed

lemma receive_data_tx:
  assumes "tx_ok L w iss B pcb t" and "receive_data E sg pcb t = Inr (sg', pcb', t')"
  shows "tx_ok L w iss B pcb' t'"
  using assms(2) receive_in_sequence_tx [OF assms(1)] receive_out_of_sequence_tx [OF assms(1)]
    tcp_ack_now_ok [OF assms(1)] assms(1)
  by (auto simp: receive_data_def bindr_Inr_iff split: if_splits)

lemma tcp_receive_tx:
  assumes "tx_ok L w iss B pcb t" and "seg_ackno sg - lastack pcb \<noteq> 0x80000000" and "tcp_receive E sg pcb t = Inr (sg', pcb', t')"
  shows "tx_ok L w iss B pcb' t'"
proof -
  from assms(3) obtain p u where "receive_data E sg p u = Inr (sg', pcb', t')"
    and "receive_ack sg pcb t = Inr (p, u) \<or> p = pcb \<and> u = t"
    by (auto simp: tcp_receive_def bindr_Inr_iff split: if_splits)
  then show ?thesis using receive_ack_ok [OF assms(1,2)] receive_data_tx assms(1) by blast
qed

lemma tcp_segs_free_out: "t_out (tcp_segs_free ss t) = t_out t"
  by (induction ss arbitrary: t) (simp_all add: tcp_seg_free_def)

lemma slow_expire_side:
  "slow_expire rm pcb t = (rm', pcb', t') \<Longrightarrow> snd_side pcb' = snd_side pcb \<and> t_out t' = t_out t"
  by (auto simp: slow_expire_def Let_def snd_side_upd tcp_segs_free_out split: if_splits)

lemma slow_rtime_tx:
  assumes "tx_ok L w iss B pcb t" and "slow_rtime pcb t = Inr (rm, pcb', t')"
  shows "tx_ok L w iss B pcb' t'"
proof (cases "state pcb = SYN_SENT \<and> nrtx pcb = TCP_SYNMAXRTX \<or> nrtx pcb = TCP_MAXRTX")
  case True
  then show ?thesis using assms by (simp add: slow_rtime_def)
next
  case False
  let ?p = "pcb\<lparr>rtime := rtime pcb + 1\<rparr>"
  have ok: "tx_ok L w iss B ?p t" by (rule tx_ok_side [OF assms(1)]) (simp_all add: snd_side_upd)
  show ?thesis
  proof (cases "unacked pcb")
    case Nil
    then show ?thesis using assms(2) False ok by (simp add: slow_rtime_def Let_def)
  next
    case (Cons sg rest)
    then have u: "unacked ?p = sg # rest" by simp
    show ?thesis
      using assms(2) False Cons ok slow_rexmit_ok [OF ok u]
      by (auto simp: slow_rtime_def Let_def bindr_Inr_iff split: if_splits)
  qed
qed

lemma slow_pcb_tx:
  assumes "tx_ok L w iss B pcb t" and "slow_pcb pcb t = Inr (rm, pcb', t')"
  shows "tx_ok L w iss B pcb' t'"
proof -
  from assms(2) obtain rm1 p u where p: "slow_rtime pcb t = Inr (rm1, p, u)" "slow_expire rm1 p u = (rm, pcb', t')"
    by (auto simp: slow_pcb_def bindr_Inr_iff)
  show ?thesis using slow_expire_side [OF p(2)] by (intro tx_ok_side [OF slow_rtime_tx [OF assms(1) p(1)]]) simp_all
qed


section \<open>Writing\<close>

lemma seg_bufs_data:
  assumes "seg_bufs E copy None d t = (bufs, k, t')"
  shows "t_out t' = t_out t" and "bufs = Some bs \<Longrightarrow> concat bs = d"
  using assms by (auto simp: seg_bufs_def pbuf_alloc_def Let_def split: if_splits)

lemma new_seg_loaded:
  assumes "concat bs = take n (drop p W)" and "0 < n" "n \<le> unat TCP_MSS" and "p + n \<le> length W"
  shows "loaded W iss (new_seg pcb (iss + of_nat p) 0 None (of_nat n) bs) p n"
  using assms by (simp add: loaded_def new_seg_def TCP_HLEN_def)

lemma enqueue_loop_queued:
  assumes "enqueue_loop n E pcb 0 copy None dat queue (iss + of_nat p) ql t = (ok, queue', ql', sl, t')"
    and "drop p W = dat" and "dat \<noteq> []" and "0 < mss pcb" and "mss pcb \<le> TCP_MSS"
  shows "t_out t' = t_out t \<and> (ok \<longrightarrow> (\<exists>new. queue' = queue @ new \<and> new \<noteq> [] \<and> queued W iss p new (length W)))"
  using assms(1-3)
proof (induction n arbitrary: dat queue p ql t)
  case (Suc n)
  define m where "m = (if length dat > unat (mss pcb) then unat (mss pcb) else length dat)"
  have m: "0 < m" "m \<le> unat TCP_MSS" "m \<le> length dat"
    using Suc.prems(3) assms(4,5) by (auto simp: m_def word_le_nat_alt word_less_nat_alt)
  have len: "p + length dat = length W"
    using Suc.prems(2,3) by (cases "p \<le> length W") auto
  obtain bufs k u where b: "seg_bufs E copy None (take m dat) (t\<lparr>t_seg_free := n\<rparr>) = (bufs, k, u)" by (metis prod_cases3)
  have u: "t_out u = t_out t" using seg_bufs_data(1) [OF b] by simp
  show ?case
  proof (cases bufs)
    case None
    then show ?thesis using Suc.prems(1) b u by (auto simp: m_def Let_def)
  next
    case (Some bs)
    let ?sg = "new_seg pcb (iss + of_nat p) 0 None (of_nat m) bs"
    have "concat bs = take m (drop p W)" using seg_bufs_data(2) [OF b Some] Suc.prems(2) by simp
    then have l: "loaded W iss ?sg p m" by (rule new_seg_loaded) (use m len in simp_all)
    then have um: "unat (seg_len ?sg) = m" using loaded_len by blast
    have step: "enqueue_loop (Suc n) E pcb 0 copy None dat queue (iss + of_nat p) ql t =
       (if ql + k > TCP_SND_QUEUELEN then (False, queue @ [?sg], ql + k, 0, u)
        else if drop m dat = [] then (True, queue @ [?sg], ql + k, of_nat m, u)
        else enqueue_loop n E pcb 0 copy None (drop m dat) (queue @ [?sg]) (iss + of_nat (p + m)) (ql + k) u)"
      using b Some by (simp add: m_def [symmetric] add.assoc)
    consider "ql + k > TCP_SND_QUEUELEN" | "\<not> ql + k > TCP_SND_QUEUELEN" "drop m dat = []"
      | "\<not> ql + k > TCP_SND_QUEUELEN" "drop m dat \<noteq> []" by blast
    then show ?thesis
    proof cases
      case 1
      then show ?thesis using Suc.prems(1) step u by auto
    next
      case 2
      then have "p + m = length W" using len m(3) by simp
      then have "queued W iss p [?sg] (length W)" using l um by simp
      then show ?thesis using Suc.prems(1) step u 2 by auto
    next
      case 3
      have "drop (p + m) W = drop m dat" using Suc.prems(2) by (simp add: add.commute flip: drop_drop)
      with Suc.IH [OF _ this 3(2), of "queue @ [?sg]" "ql + k" u] Suc.prems(1) step 3
      have "t_out t' = t_out u \<and> (ok \<longrightarrow> (\<exists>new. queue' = (queue @ [?sg]) @ new \<and> new \<noteq> [] \<and> queued W iss (p + m) new (length W)))"
        by simp
      then have "t_out t' = t_out t" "ok \<Longrightarrow> \<exists>new. queue' = queue @ ?sg # new \<and> queued W iss p (?sg # new) (length W)"
        using l um u by auto
      then show ?thesis by blast
    qed
  qed
qed auto

lemma set_psh_loaded: "loaded w iss sg p n \<Longrightarrow> loaded w iss (set_psh sg) p n"
  by (rule loaded_header) (simp_all add: set_psh_def TCP_PSH_def bit.conj_disj_distrib2)

lemma psh_last_queued:
  assumes "queued w iss p ss e" and "ss \<noteq> []"
  shows "queued w iss p (butlast ss @ [set_psh (last ss)]) e \<and> parts p (butlast ss @ [set_psh (last ss)]) = parts p ss"
  using queued_replace [of w iss p "butlast ss" "last ss" "[]" e "set_psh (last ss)"] set_psh_loaded assms by simp

lemma queue_ok_append:
  assumes "queue_ok w iss a R xs" and "queued (w @ v) iss (length w) ys (length (w @ v))"
    and "\<forall>r\<in>R. 0 < snd r \<and> fst r + snd r \<le> length w"
  shows "queue_ok (w @ v) iss a R (xs @ ys)"
proof -
  from assms(1) obtain p where p: "p \<le> a" "a \<le> p + 65536" "queued w iss p xs (length w)" "\<forall>r\<in>R. \<forall>r'\<in>set (parts p xs). apart r r'"
    by (auto simp: queue_ok_def)
  have q: "queued (w @ v) iss p xs (length w)" by (rule queued_mono [OF p(3)])
  have "apart r r'" if "r \<in> R" "r' \<in> set (parts (length w) ys)" for r r'
    using parts_bounds [OF assms(2) that(2)] assms(3) that(1) by (fastforce simp: apart_def)
  then show ?thesis
    unfolding queue_ok_def using p(1,2,4) q assms(2)
    by (intro exI [of _ p]) (auto simp: queued_append parts_append [OF q])
qed

lemma chain_seg_loaded:
  assumes "loaded w iss x p n" and "p + n = length w" and "loaded (w @ v) iss y (length w) k" and "n + k \<le> unat TCP_MSS"
  shows "loaded (w @ v) iss (chain_seg x y) p (n + k)"
proof -
  from assms(1) obtain c where c: "seg_p x = Some c" "p_tot c = of_nat (n + 20)" "concat (p_bufs c) = take n (drop p w)"
    by (auto simp: loaded_def)
  from assms(3) obtain d where d: "seg_p y = Some d" "p_tot d = of_nat (k + 20)" "concat (p_bufs d) = take k (drop (length w) (w @ v))"
    by (auto simp: loaded_def)
  have "n + k + p - length w = k" using assms(2) by simp
  then have "take (n + k) (drop p (w @ v)) = take n (drop p w) @ take k (drop (length w) (w @ v))"
    using assms(2) by auto
  moreover have "seg_p (chain_seg x y) = Some (pbuf_chain c (d\<lparr>p_tot := p_tot d - TCP_HLEN\<rparr>))"
    by (simp add: chain_seg_def c(1) d(1))
  ultimately show ?thesis
    using assms c d by (simp add: loaded_def chain_seg_def pbuf_chain_def TCP_HLEN_def)
qed

lemma queue_ok_chain:
  assumes "queue_ok w iss a R (xs @ [x])" and "queued (w @ v) iss (length w) (y # ys) (length (w @ v))"
    and "\<forall>r\<in>R. 0 < snd r \<and> fst r + snd r \<le> length w" and "unat (seg_len x) + unat (seg_len y) \<le> unat TCP_MSS"
  shows "queue_ok (w @ v) iss a R (xs @ chain_seg x y # ys)"
proof -
  let ?n = "unat (seg_len x)" and ?k = "unat (seg_len y)"
  from assms(1) obtain p where p: "p \<le> a" "a \<le> p + 65536" "queued w iss p (xs @ [x]) (length w)"
    "\<forall>r\<in>R. \<forall>r'\<in>set (parts p (xs @ [x])). apart r r'"
    by (auto simp: queue_ok_def)
  then obtain m where m: "queued w iss p xs m" "loaded w iss x m ?n" "m + ?n = length w" by (auto simp: queued_append)
  have q: "queued (w @ v) iss p xs m" by (rule queued_mono [OF m(1)])
  have l: "loaded (w @ v) iss (chain_seg x y) m (?n + ?k)"
    by (rule chain_seg_loaded [OF m(2,3) _ assms(4)]) (use assms(2) in simp)
  then have len: "unat (seg_len (chain_seg x y)) = ?n + ?k" using loaded_len by blast
  have ys: "queued (w @ v) iss (length w + ?k) ys (length (w @ v))" using assms(2) by simp
  have "apart r r'" if "r \<in> R" "r' \<in> set (parts (length w + ?k) ys)" for r r'
    using parts_bounds [OF ys that(2)] assms(3) that(1) by (fastforce simp: apart_def)
  moreover have "apart r (m, ?n + ?k)" if "r \<in> R" for r
  proof -
    have "apart r (m, ?n)" using p(4) that by (simp add: parts_append [OF m(1)])
    then show ?thesis using assms(3) that m(3) by (fastforce simp: apart_def)
  qed
  moreover have e: "m + (?n + ?k) = length w + ?k" using m(3) by simp
  moreover have "apart r r'" if "r \<in> R" "r' \<in> set (parts p xs)" for r r'
    using p(4) that by (simp add: parts_append [OF m(1)])
  moreover have "parts p (xs @ chain_seg x y # ys) = parts p xs @ (m, ?n + ?k) # parts (length w + ?k) ys"
    by (simp add: parts_append [OF q] len e)
  ultimately have "\<forall>r\<in>R. \<forall>r'\<in>set (parts p (xs @ chain_seg x y # ys)). apart r r'" by auto
  moreover have "queued (w @ v) iss p (xs @ chain_seg x y # ys) (length (w @ v))"
    unfolding queued_append using q l ys by (intro exI [of _ m]) (simp add: len e)
  ultimately show ?thesis unfolding queue_ok_def using p(1,2) by blast
qed

lemma append_unsent_ok:
  assumes "append_unsent pcb 0 sl queue t = (us, t')" and "queue \<noteq> []"
    and "queued (w @ v) iss (length w) queue (length (w @ v))" and "queue_ok w iss a R (unacked pcb @ unsent pcb)"
    and "\<forall>r\<in>R. 0 < snd r \<and> fst r + snd r \<le> length w" and "mss pcb \<le> TCP_MSS"
  shows "queue_ok (w @ v) iss a R (unacked pcb @ us) \<and> t_out t' = t_out t"
proof -
  define psh where "psh = (\<lambda>ss. if ss \<noteq> [] \<and> sl > 0 then butlast ss @ [set_psh (last ss)] else ss)"
  have psh: "queued (w @ v) iss p (psh ss) e" if "queued (w @ v) iss p ss e" for p ss e
    using psh_last_queued [OF that] that by (simp add: psh_def)
  show ?thesis
  proof (cases "unsent pcb \<noteq> [] \<and> may_chain pcb 0 (last (unsent pcb)) (hd queue)")
    case True
    let ?x = "last (unsent pcb)" and ?y = "hd queue"
    have us: "us = butlast (unsent pcb) @ chain_seg ?x ?y # psh (tl queue)" "t' = tcp_seg_free t"
      using assms(1) True by (simp_all add: append_unsent_def psh_def Let_def)
    have "queued (w @ v) iss (length w) (?y # psh (tl queue)) (length (w @ v))"
      using assms(2,3) psh by (cases queue) simp_all
    moreover have "queue_ok w iss a R ((unacked pcb @ butlast (unsent pcb)) @ [?x])" using assms(4) True by simp
    moreover have "unat (seg_len ?x) + unat (seg_len ?y) \<le> unat TCP_MSS"
      using True assms(6) by (simp add: may_chain_def word_le_nat_alt)
    ultimately have "queue_ok (w @ v) iss a R ((unacked pcb @ butlast (unsent pcb)) @ chain_seg ?x ?y # psh (tl queue))"
      using queue_ok_chain assms(5) by blast
    then show ?thesis using us by (simp add: tcp_seg_free_def)
  next
    case False
    then have "us = unsent pcb @ psh queue" "t' = t" using assms(1) by (auto simp: append_unsent_def psh_def Let_def)
    then show ?thesis using queue_ok_append [OF assms(4) psh [OF assms(3)] assms(5)] by simp
  qed
qed

lemma out_ok_write: "out_ok L w iss R out \<Longrightarrow> out_ok L (w @ v) iss R out"
  unfolding out_ok_def using emitted_mono by blast

lemma sender_ok_write:
  assumes "sender_ok w iss B R a pcb" and "length dat \<le> unat (snd_buf pcb)" and "queue_ok (w @ dat) iss a R (unacked pcb @ us)"
  shows "sender_ok (w @ dat) iss B R a (pcb\<lparr>unsent := us, snd_lbb := snd_lbb pcb + ucast (of_nat (length dat) :: u16),
     snd_buf := snd_buf pcb - of_nat (length dat), snd_queuelen := ql\<rparr>)" (is "sender_ok _ _ _ _ _ ?p")
proof -
  have small: "length dat < 65536" using assms(2) unat_u16_less [of "snd_buf pcb"] by simp
  then have "of_nat (length dat) \<le> snd_buf pcb" using assms(2) by (simp add: word_le_nat_alt len_32)
  then have "unat (snd_buf ?p) = unat (snd_buf pcb) - length dat" using small by (simp add: unat_sub len_32)
  moreover from assms(1) obtain x m where x: "x \<le> length w" "snd_nxt pcb = iss + of_nat x"
    and m: "m \<le> length w" "snd_max pcb = iss + of_nat m" "a \<le> m"
    by (auto simp: sender_ok_def)
  ultimately have buf: "length (w @ dat) - a + unat (snd_buf ?p) = B"
    using assms(1,2) by (simp add: sender_ok_def)
  have lbb: "snd_lbb ?p = iss + of_nat (length (w @ dat))"
    using assms(1) small by (simp add: sender_ok_def len_32 add.assoc)
  have "\<exists>x\<le>length (w @ dat). snd_nxt ?p = iss + of_nat x" using x by (intro exI [of _ x]) simp
  moreover have "\<exists>m\<le>length (w @ dat). snd_max ?p = iss + of_nat m \<and> a \<le> m" using m by (intro exI [of _ m]) simp
  moreover have "state ?p \<noteq> SYN_SENT" "0 < mss ?p" "mss ?p \<le> TCP_MSS" "lastack ?p = iss + of_nat a" "B < 65536"
    using assms(1) by (simp_all add: sender_ok_def)
  moreover have "\<forall>r\<in>R. 0 < snd r \<and> fst r + snd r \<le> length (w @ dat)" "\<forall>r\<in>R. \<forall>r'\<in>R. apart r r'"
    using assms(1) by (auto simp: sender_ok_def)
  moreover have "queue_ok (w @ dat) iss a R (unacked ?p @ unsent ?p)" using assms(3) by simp
  ultimately show ?thesis using lbb buf unfolding sender_ok_def by blast
qed

lemma tcp_enqueue_ok:
  assumes "tx_ok L w iss B pcb t" and "dat \<noteq> []" and "tcp_enqueue E dat 0 copy None pcb t = Inr (e, pcb', t')"
  shows "if e = ERR_OK then tx_ok L (w @ dat) iss B pcb' t' else pcb' = pcb \<and> t_out t' = t_out t"
proof -
  from assms(1) obtain R a where ok: "sender_ok w iss B R a pcb" "out_ok L w iss R (t_out t)" by (auto simp: tx_ok_def)
  obtain good queue ql sl u where
    loop: "enqueue_loop (t_seg_free t) E pcb 0 copy None dat [] (snd_lbb pcb) (snd_queuelen pcb) t = (good, queue, ql, sl, u)"
    by (metis prod_cases5)
  have s: "snd_lbb pcb = iss + of_nat (length w)" "0 < mss pcb" "mss pcb \<le> TCP_MSS"
    "queue_ok w iss a R (unacked pcb @ unsent pcb)" "\<forall>r\<in>R. 0 < snd r \<and> fst r + snd r \<le> length w"
    using ok(1) by (simp_all add: sender_ok_def)
  have q: "t_out u = t_out t" "good \<Longrightarrow> queue \<noteq> [] \<and> queued (w @ dat) iss (length w) queue (length (w @ dat))"
    using enqueue_loop_queued [OF loop [unfolded s(1)] _ assms(2) s(2,3), of "w @ dat"] by auto
  show ?thesis
  proof (cases "length dat \<le> unat (snd_buf pcb) \<and> snd_queuelen pcb < TCP_SND_QUEUELEN \<and> good")
    case True
    then have fits: "\<not> length dat > unat (snd_buf pcb)" "\<not> snd_queuelen pcb \<ge> TCP_SND_QUEUELEN"
      by (simp_all add: not_le)
    obtain us u' where us: "append_unsent pcb 0 sl queue u = (us, u')" by fastforce
    from True q(2) have "queue \<noteq> []" "queued (w @ dat) iss (length w) queue (length (w @ dat))" by simp_all
    from append_unsent_ok [OF us this s(4,5,3)]
    have qo: "queue_ok (w @ dat) iss a R (unacked pcb @ us)" "t_out u' = t_out t" using q(1) by simp_all
    have "e = ERR_OK" "t' = u'" "pcb' = pcb\<lparr>unsent := us, snd_lbb := snd_lbb pcb + ucast (of_nat (length dat) :: u16),
        snd_buf := snd_buf pcb - of_nat (length dat), snd_queuelen := ql\<rparr>"
      using assms(3) fits loop us True by (simp_all add: tcp_enqueue_def Let_def)
    moreover have "sender_ok (w @ dat) iss B R a (pcb\<lparr>unsent := us, snd_lbb := snd_lbb pcb + ucast (of_nat (length dat) :: u16),
        snd_buf := snd_buf pcb - of_nat (length dat), snd_queuelen := ql\<rparr>)"
      by (rule sender_ok_write [OF ok(1) _ qo(1)]) (use True in simp)
    moreover have "out_ok L (w @ dat) iss R (t_out u')" using out_ok_write [OF ok(2)] qo(2) by simp
    ultimately show ?thesis unfolding tx_ok_def by auto
  next
    case False
    then have "e = ERR_MEM \<and> pcb' = pcb \<and> (t' = t \<or> t' = tcp_segs_free queue u)"
      using assms(3) loop by (cases good) (auto simp: tcp_enqueue_def split: if_splits)
    then show ?thesis using q(1) tcp_segs_free_out by auto
  qed
qed

lemma tcp_write_ok:
  assumes "tx_ok L w iss B pcb t" and "tcp_write E dat copy pcb t = Inr (e, pcb', t')"
  shows "tx_ok L (if e = ERR_OK then w @ dat else w) iss B pcb' t'"
proof (cases "state pcb \<in> {SYN_SENT, SYN_RCVD, ESTABLISHED, CLOSE_WAIT} \<and> dat \<noteq> []")
  case True
  then have "tcp_enqueue E dat 0 copy None pcb t = Inr (e, pcb', t')" using assms(2) by (simp add: tcp_write_def)
  from tcp_enqueue_ok [OF assms(1) _ this] True show ?thesis
    using tx_ok_side [OF assms(1)] by (auto split: if_splits)
next
  case False
  then have "pcb' = pcb" "t' = t" "e = ERR_OK \<Longrightarrow> dat = []" using assms(2) by (auto simp: tcp_write_def split: if_splits)
  then show ?thesis using assms(1) by auto
qed

section \<open>A run of the sender\<close>

text \<open>
  What can happen to the sending side of an open connection: the application writes, the timers
  run, segments arrive, and the rest of the system changes the clock and the pools.  The segments
  that arrive are arbitrary, except that none acknowledges the byte \<open>2 ^ 31\<close> ahead of \<open>lastack\<close>.
  The first component is what has been written so far.
\<close>

inductive tx_step ::
  "tcp_env \<Rightarrow> byte list \<times> tcp_pcb \<times> tcp \<Rightarrow> byte list \<times> tcp_pcb \<times> tcp \<Rightarrow> bool"
  for E where
  writes: "tcp_write E dat copy pcb t = Inr (e, pcb', t') \<Longrightarrow>
      tx_step E (w, pcb, t) (if e = ERR_OK then w @ dat else w, pcb', t')"
| sends: "tcp_output E pcb t = Inr (e, pcb', t') \<Longrightarrow> tx_step E (w, pcb, t) (w, pcb', t')"
| receives: "seg_ackno sg - lastack pcb \<noteq> 0x80000000 \<Longrightarrow>
      tcp_receive E sg (pcb\<lparr>recv_data := None\<rparr>) t = Inr (sg', pcb', t') \<Longrightarrow> tx_step E (w, pcb, t) (w, pcb', t')"
| reads: "tcp_recved E len pcb t = Inr (pcb', t') \<Longrightarrow> tx_step E (w, pcb, t) (w, pcb', t')"
| slow_timer: "slow_pcb pcb t = Inr (rm, pcb', t') \<Longrightarrow> tx_step E (w, pcb, t) (w, pcb', t')"
| fast_timer: "fast_pcb E pcb t = Inr ((), pcb', t') \<Longrightarrow> tx_step E (w, pcb, t) (w, pcb', t')"
| others: "t_out t' = t_out t \<Longrightarrow> tx_step E (w, pcb, t) (w, pcb, t')"

lemma tcp_recved_tx:
  assumes "tx_ok L w iss B pcb t" and "tcp_recved E len pcb t = Inr (pcb', t')"
  shows "tx_ok L w iss B pcb' t'"
proof -
  obtain x where x: "(if flags pcb AND TF_ACK_DELAY = 0 \<or> flags pcb AND TF_ACK_NOW = 0
      then tcp_ack E (pcb\<lparr>rcv_wnd := x\<rparr>) t else Inr (pcb\<lparr>rcv_wnd := x\<rparr>, t)) = Inr (pcb', t')"
    using assms(2) by (auto simp: tcp_recved_def Let_def split: if_splits)
  have "tx_ok L w iss B (pcb\<lparr>rcv_wnd := x\<rparr>) t" by (rule tx_ok_side [OF assms(1)]) (simp_all add: snd_side_def)
  with x tcp_ack_ok show ?thesis by (auto split: if_splits)
qed

lemma fast_pcb_tx:
  assumes "tx_ok L w iss B pcb t" and "fast_pcb E pcb t = Inr ((), pcb', t')"
  shows "tx_ok L w iss B pcb' t'"
proof (cases "flags pcb AND TF_ACK_DELAY \<noteq> 0")
  case True
  then obtain p where p: "tcp_ack_now E pcb t = Inr (p, t')" "pcb' = p\<lparr>flags := flags p AND NOT (TF_ACK_DELAY OR TF_ACK_NOW)\<rparr>"
    using assms(2) by (auto simp: fast_pcb_def bindr_Inr_iff)
  show ?thesis by (rule tx_ok_side [OF tcp_ack_now_ok [OF assms(1) p(1)]]) (simp_all only: p(2) snd_side_upd)
qed (use assms in \<open>simp add: fast_pcb_def\<close>)

lemma tx_step_ok:
  assumes "tx_step E (w, pcb, t) (w', pcb', t')" and "tx_ok L w iss B pcb t"
  shows "tx_ok L w' iss B pcb' t' \<and> (\<exists>v. w' = w @ v)"
  using assms(1)
proof cases
  case (writes dat copy e)
  then show ?thesis using tcp_write_ok [OF assms(2)] by auto
next
  case (receives sg sg')
  have "tx_ok L w iss B (pcb\<lparr>recv_data := None\<rparr>) t" by (rule tx_ok_side [OF assms(2)]) (simp_all add: snd_side_upd)
  then show ?thesis using tcp_receive_tx receives by fastforce
next
  case others
  then show ?thesis using tx_ok_side [OF assms(2)] by auto
next
  case (sends e)
  then show ?thesis using tcp_output_ok [OF assms(2)] by simp
next
  case (reads len)
  then show ?thesis using tcp_recved_tx [OF assms(2)] by simp
next
  case (slow_timer rm)
  then show ?thesis using slow_pcb_tx [OF assms(2)] by simp
next
  case fast_timer
  then show ?thesis using fast_pcb_tx [OF assms(2)] by simp
qed

end
