(* ===== verification/LwTcpNet.thy ===== *)
theory LwTcpNet
  imports LwTcpSend
begin

text \<open>
  Two ends of a connection and the network between them.  The network may lose, repeat and
  reorder the datagrams of the sender.  What the application of the receiver is given is
  a prefix of what the application of the sender has written.
\<close>

section \<open>Where buffered segments begin\<close>

lemma trim_to_seqno: "trim_to e sg = Inr sg' \<Longrightarrow> seg_seqno sg' = seg_seqno sg"
  by (auto simp: trim_to_def with_p_def Let_def bindr_Inr_iff split: option.splits)

lemma trim_first_seqno: "trim_first sg pcb = Inr sg' \<Longrightarrow> sg' = sg \<or> seg_seqno sg' = rcv_nxt pcb"
  by (auto simp: trim_first_def Let_def bindr_Inr_iff split: if_splits)

lemma ooseq_insert_seqnos:
  "ooseq_insert sg n prev sgs = Inr (sg', n', prev', sgs') \<Longrightarrow>
     seg_seqno ` set sgs' \<subseteq> insert (seg_seqno sg) (seg_seqno ` set sgs)
     \<and> map_option seg_seqno prev' = map_option seg_seqno prev"
proof (induction sg n prev sgs arbitrary: sg' n' prev' sgs' rule: ooseq_insert.induct)
  case (2 sg n prev x rest)
  let ?s = "seg_seqno sg"
  consider (same) "?s = seg_seqno x" | (front) "?s \<noteq> seg_seqno x" "prev = None" "TCP_SEQ_LT ?s (seg_seqno x)"
    | (mid) pv where "?s \<noteq> seg_seqno x" "prev = Some pv" "TCP_SEQ_LT (seg_seqno pv) ?s" "TCP_SEQ_LT ?s (seg_seqno x)"
    | (behind) "?s \<noteq> seg_seqno x" "\<not> (prev = None \<and> TCP_SEQ_LT ?s (seg_seqno x))"
        "\<not> (prev \<noteq> None \<and> TCP_SEQ_LT (seg_seqno (the prev)) ?s \<and> TCP_SEQ_LT ?s (seg_seqno x))" "rest = []" "TCP_SEQ_GT ?s (seg_seqno x)"
    | (later) "?s \<noteq> seg_seqno x" "\<not> (prev = None \<and> TCP_SEQ_LT ?s (seg_seqno x))"
        "\<not> (prev \<noteq> None \<and> TCP_SEQ_LT (seg_seqno (the prev)) ?s \<and> TCP_SEQ_LT ?s (seg_seqno x))" "\<not> (rest = [] \<and> TCP_SEQ_GT ?s (seg_seqno x))"
    by (cases prev) auto
  then show ?case
  proof cases
    case same
    then show ?thesis using 2(2) by (auto split: if_splits)
  next
    case front
    then show ?thesis using 2(2) by (auto simp: Let_def bindr_Inr_iff split: if_splits dest!: trim_to_seqno)
  next
    case mid
    then show ?thesis using 2(2) by (auto simp: Let_def bindr_Inr_iff split: if_splits dest!: trim_to_seqno)
  next
    case behind
    then show ?thesis using 2(2) by (auto simp: Let_def bindr_Inr_iff split: if_splits dest!: trim_to_seqno)
  next
    case later
    then obtain nx rs where r: "ooseq_insert sg n (Some x) rest = Inr (sg', n', nx, rs)" "prev' = prev" "sgs' = the nx # rs"
      using 2(2) by (auto simp: Let_def bindr_Inr_iff)
    have ih: "seg_seqno ` set rs \<subseteq> insert ?s (seg_seqno ` set rest)" "map_option seg_seqno nx = Some (seg_seqno x)"
      using 2(1) [OF refl refl refl later(1-4) r(1)] by simp_all
    then show ?thesis using r(2,3) by auto
  qed
qed auto

lemma dequeue_ooseq_subset: "dequeue_ooseq fl sgs pcb t = Inr (pcb', t') \<Longrightarrow> set (ooseq pcb') \<subseteq> set sgs"
proof (induction sgs arbitrary: pcb t)
  case (Cons sg sgs)
  show ?case
  proof (cases "seg_seqno sg = rcv_nxt pcb")
    case True
    then obtain p where "dequeue_ooseq fl sgs p (tcp_seg_free t) = Inr (pcb', t')"
      using Cons.prems by (auto simp: Let_def bindr_Inr_iff split: option.splits)
    from Cons.IH [OF this] show ?thesis by auto
  qed (use Cons.prems in auto)
qed auto

lemma receive_in_sequence_ooseq:
  assumes "receive_in_sequence E sg pcb t = Inr (sg', pcb', t')"
  shows "set (ooseq pcb') \<subseteq> set (ooseq pcb)"
proof -
  obtain fl q q' u where r: "dequeue_ooseq fl (ooseq q) q t = Inr (q', u)" "tcp_ack E q' u = Inr (pcb', t')" "ooseq q = ooseq pcb"
    using assms by (rule receive_in_sequence_Inr)
  show ?thesis using dequeue_ooseq_subset [OF r(1)] tcp_ack_rcv [OF r(2)] r(3) by (simp add: rcv_side_eq)
qed

lemma receive_data_seqnos:
  assumes "receive_data E sg pcb t = Inr (sg', pcb', t')"
  shows "seg_seqno ` set (ooseq pcb') \<subseteq> (if TCP_TCPLEN sg = 0 then {} else {seg_seqno sg}) \<union> seg_seqno ` set (ooseq pcb)"
proof (cases "TCP_TCPLEN sg = 0")
  case True
  then have "ooseq pcb' = ooseq pcb"
    using assms by (auto simp: receive_data_def bindr_Inr_iff rcv_side_eq split: if_splits dest!: tcp_ack_now_rcv)
  then show ?thesis by simp
next
  case False
  then obtain s where s: "trim_first sg pcb = Inr s"
    using assms by (auto simp: receive_data_def bindr_Inr_iff word_neq_0_conv)
  consider "receive_in_sequence E s pcb t = Inr (sg', pcb', t')"
    | "receive_out_of_sequence E s pcb t = Inr (sg', pcb', t')" "rcv_nxt pcb \<noteq> seg_seqno s" | "pcb' = pcb"
    using assms False s by (auto simp: receive_data_def word_neq_0_conv split: if_splits)
  then show ?thesis
  proof cases
    case 1
    then show ?thesis using receive_in_sequence_ooseq by blast
  next
    case 2
    then have e: "s = sg" using trim_first_seqno [OF s] by auto
    obtain p u where a: "tcp_ack_now E pcb t = Inr (p, u)" using tcp_ack_now_returns by blast
    have "ooseq p = ooseq pcb" using tcp_ack_now_rcv [OF a] by (simp add: rcv_side_eq)
    then have "seg_seqno ` set (ooseq pcb') \<subseteq> insert (seg_seqno sg) (seg_seqno ` set (ooseq pcb))"
      using 2(1) a unfolding e
      by (auto simp: receive_out_of_sequence_def bindr_Inr_iff split: if_splits dest!: ooseq_insert_seqnos) blast
    then show ?thesis using False by simp
  qed simp
qed

section \<open>The network\<close>

lemma tx_ok_log: "tx_ok L w iss B pcb t \<Longrightarrow> L \<subseteq> set (t_out t) \<and> tx_ok (set (t_out t)) w iss B pcb t"
  unfolding tx_ok_def out_ok_def by blast

text \<open>The segments buffered by the receiver begin where a segment with data was sent.\<close>

definition from_log :: "(addr_ip \<times> addr_ip \<times> byte list) set \<Rightarrow> tcp_seg list \<Rightarrow> bool" where
  "from_log L sgs \<longleftrightarrow>
     (\<forall>x\<in>set sgs. \<exists>(src, dst, s)\<in>L. seg_len (parse_segment s) \<noteq> 0 \<and> seg_seqno x = seg_seqno (parse_segment s))"

lemma from_log_mono: "from_log L sgs \<Longrightarrow> L \<subseteq> L' \<Longrightarrow> from_log L' sgs"
  unfolding from_log_def by blast

lemma emitted_len:
  assumes "emitted w iss (src, dst, s) (p, n)"
  shows "seg_len (parse_segment s) = 0 \<longleftrightarrow> n = 0" and "seg_seqno (parse_segment s) = iss + of_nat p"
    and "unat (seg_len (parse_segment s)) = n" and "n < 65536" and "p + n \<le> length w"
    and "carries (nth w) iss (parse_segment s) p n"
proof -
  show c: "carries (nth w) iss (parse_segment s) p n" and "p + n \<le> length w" using assms by (simp_all add: emitted_def)
  note d = carriesD [OF c]
  show "seg_seqno (parse_segment s) = iss + of_nat p" "unat (seg_len (parse_segment s)) = n" "n < 65536" by (rule d)+
  then show "seg_len (parse_segment s) = 0 \<longleftrightarrow> n = 0" by (metis unat_eq_zero)
qed

lemma log_may_replace:
  assumes "tx_ok L w iss B pcb t" and "(src, dst, s) \<in> set (t_out t)" and "from_log (set (t_out t)) sgs" and "length w < 2 ^ 30"
  shows "may_replace (parse_segment s) sgs"
proof (cases "seg_len (parse_segment s) = 0")
  case True
  then show ?thesis by (simp add: may_replace_def)
next
  case False
  from assms(1) obtain R a where R: "sender_ok w iss B R a pcb" "out_ok L w iss R (t_out t)" by (auto simp: tx_ok_def)
  have get: "\<exists>r\<in>R. emitted w iss d r" if "d \<in> set (t_out t)" "seg_len (parse_segment (snd (snd d))) \<noteq> 0" for d
  proof -
    have "\<not> emitted w iss d (q, 0)" for q
      using emitted_len(1) [of w iss "fst d" "fst (snd d)" "snd (snd d)" q 0] that(2) by auto
    then show ?thesis using R(2) that(1) unfolding out_ok_def by blast
  qed
  obtain p n where pn: "(p, n) \<in> R" "emitted w iss (src, dst, s) (p, n)" using get [OF assms(2)] False by auto
  note e = emitted_len [OF pn(2)]
  have "TCP_SEQ_GEQ (seg_seqno y) (seg_seqno (parse_segment s) + ucast (seg_len (parse_segment s)))"
    if "y \<in> set sgs" "TCP_SEQ_GT (seg_seqno y) (seg_seqno (parse_segment s))" for y
  proof -
    from assms(3) that(1) obtain src' dst' s' where s': "(src', dst', s') \<in> set (t_out t)" "seg_len (parse_segment s') \<noteq> 0"
      "seg_seqno y = seg_seqno (parse_segment s')"
      by (fastforce simp: from_log_def)
    then obtain p' n' where pn': "(p', n') \<in> R" "emitted w iss (src', dst', s') (p', n')" using get [OF s'(1)] by auto
    note e' = emitted_len [OF pn'(2)]
    have "p < p'" using that(2) s'(3) e(2,5) e'(2,5) assms(4) by (simp add: seq_cmp(3))
    moreover have "apart (p, n) (p', n')" using R(1) pn(1) pn'(1) by (auto simp: sender_ok_def)
    ultimately have "p + n \<le> p'" by (auto simp: apart_def)
    moreover have "seg_seqno (parse_segment s) + ucast (seg_len (parse_segment s)) = iss + of_nat (p + n)"
      using carriesD(3) [OF e(6)] len_32(3) [OF e(4)] e(2) by simp
    moreover have "TCP_SEQ_GEQ (iss + of_nat p') (iss + of_nat (p + n)) \<longleftrightarrow> p + n \<le> p'"
      by (rule seq_cmp(4)) (use e(5) e'(5) assms(4) in simp_all)
    ultimately show ?thesis using s'(3) e'(2) by simp
  qed
  then show ?thesis by (auto simp: may_replace_def)
qed

text \<open>
  One step of the two ends.  A datagram of the sender may arrive whenever and as often as the
  network likes.  The last component is what the application of the receiver has been given.
\<close>

type_synonym net = "(byte list \<times> tcp_pcb \<times> tcp) \<times> tcp_pcb \<times> tcp \<times> byte list"

inductive net_step :: "tcp_env \<Rightarrow> tcp_env \<Rightarrow> net \<Rightarrow> net \<Rightarrow> bool" for E E' where
  sender: "tx_step E (w, pcb, t) (w', pcb', t') \<Longrightarrow> net_step E E' ((w, pcb, t), q, u, d) ((w', pcb', t'), q, u, d)"
| arrives: "(src, dst, s) \<in> set (t_out t) \<Longrightarrow>
      tcp_receive E' (parse_segment s) (q\<lparr>recv_data := None\<rparr>) u = Inr (sg, q', u') \<Longrightarrow>
      net_step E E' ((w, pcb, t), q, u, d) ((w, pcb, t), q', u', d @ delivered q')"
| reader: "tcp_recved E' len q u = Inr (q', u') \<Longrightarrow> net_step E E' ((w, pcb, t), q, u, d) ((w, pcb, t), q', u', d)"
| replies: "tcp_output E' q u = Inr (e, q', u') \<Longrightarrow> net_step E E' ((w, pcb, t), q, u, d) ((w, pcb, t), q', u', d)"
| slow: "slow_pcb q u = Inr (rm, q', u') \<Longrightarrow> net_step E E' ((w, pcb, t), q, u, d) ((w, pcb, t), q', u', d)"
| elsewhere: "net_step E E' ((w, pcb, t), q, u, d) ((w, pcb, t), q, u', d)"

lemma slow_pcb_rcv:
  assumes "slow_pcb pcb t = Inr (rm, pcb', t')"
  shows "rcv_nxt pcb' = rcv_nxt pcb" and "ooseq pcb' = ooseq pcb \<or> ooseq pcb' = []"
proof -
  from assms obtain rm1 p u where p: "slow_rtime pcb t = Inr (rm1, p, u)" "slow_expire rm1 p u = (rm, pcb', t')"
    by (auto simp: slow_pcb_def bindr_Inr_iff)
  have rx: "rcv_side y = rcv_side x" if h: "slow_rexmit x sg rest t = Inr (y, u)" for x y sg rest
  proof -
    obtain z sg2 where z: "tcp_rexmit_seg (move_to_unsent rest (back_off x)) sg t = Inr (z, sg2, u)"
      "y = reduce_cwnd (z\<lparr>unacked := [sg2]\<rparr>)"
      using h by (auto simp: slow_rexmit_def bindr_Inr_iff need_Inr_iff)
    have "rcv_side y = rcv_side z" by (simp add: z(2) reduce_cwnd_def Let_def rcv_side_def)
    also have "\<dots> = rcv_side (move_to_unsent rest (back_off x))" by (rule tcp_rexmit_seg_rcv [OF z(1)])
    also have "\<dots> = rcv_side x" by (simp add: move_to_unsent_def back_off_def rcv_side_def)
    finally show ?thesis .
  qed
  have "rcv_side p = rcv_side pcb"
    using p(1) rx by (auto simp: slow_rtime_def Let_def bindr_Inr_iff rcv_side_upd split: if_splits list.splits)
  then show "rcv_nxt pcb' = rcv_nxt pcb" "ooseq pcb' = ooseq pcb \<or> ooseq pcb' = []"
    using p(2) by (auto simp: slow_expire_def Let_def rcv_side_eq split: if_splits)
qed

definition rx_ok :: "byte list \<Rightarrow> u32 \<Rightarrow> (addr_ip \<times> addr_ip \<times> byte list) set \<Rightarrow> tcp_pcb \<Rightarrow> byte list \<Rightarrow> bool" where
  "rx_ok W iss L q d \<longleftrightarrow>
     rcv_ok (nth W) iss (length d) q \<and> d = map (nth W) [0..<length d] \<and> from_log L (ooseq q)"

text \<open>
  The state of the two ends.  The receiver is right for every continuation of what has been
  written, so that it cannot have more than that.
\<close>

definition net_ok :: "u32 \<Rightarrow> nat \<Rightarrow> net \<Rightarrow> bool" where
  "net_ok iss B s \<longleftrightarrow>
     (case s of ((w, pcb, t), q, u, d) \<Rightarrow>
        tx_ok (set (t_out t)) w iss B pcb t \<and> (\<forall>v. rx_ok (w @ v) iss (set (t_out t)) q d))"

lemma net_ok_prefix:
  assumes "net_ok iss B ((w, pcb, t), q, u, d)"
  shows "\<exists>rest. w = d @ rest"
proof -
  have d: "d = map (nth (w @ v)) [0..<length d]" for v using assms by (simp add: net_ok_def rx_ok_def)
  have "\<not> length w < length d"
  proof
    assume l: "length w < length d"
    have "d ! length w = (w @ [b]) ! length w" for b by (subst d [of "[b]"]) (use l in simp)
    from this [of 0] this [of 1] show False by simp
  qed
  then have "take (length d) w = map (nth (w @ [])) [0..<length d]" by (intro nth_equalityI) auto
  then have "d = take (length d) w" using d [of "[]"] by simp
  then show ?thesis by (metis append_take_drop_id)
qed

lemma arrival_ok:
  assumes "net_ok iss B ((w, pcb, t), q, u, d)" and "length w < 2 ^ 30" and "(src, dst, s) \<in> set (t_out t)"
  obtains p n where "carries (nth (w @ v)) iss (parse_segment s) p n" and "p < length d + 2 ^ 30" and "length d < p + 2 ^ 30"
    and "may_replace (parse_segment s) (ooseq q)" and "seg_len (parse_segment s) = 0 \<longleftrightarrow> n = 0"
    and "inet_chksum_pseudo [s] src dst IP_PROTO_TCP (of_nat (length s)) = 0"
proof -
  have ok: "tx_ok (set (t_out t)) w iss B pcb t" "rx_ok (w @ v) iss (set (t_out t)) q d"
    using assms(1) by (simp_all add: net_ok_def)
  obtain R a where R: "sender_ok w iss B R a pcb" "out_ok (set (t_out t)) w iss R (t_out t)" using ok(1) by (auto simp: tx_ok_def)
  then obtain p n where em: "emitted w iss (src, dst, s) (p, n)" using assms(3) unfolding out_ok_def by (metis prod.collapse)
  have "length d < 2 ^ 30" using net_ok_prefix [OF assms(1)] assms(2) by auto
  moreover note e = emitted_len [OF em] emitted_len [OF emitted_mono [OF em, of v]]
  moreover have "may_replace (parse_segment s) (ooseq q)"
    by (rule log_may_replace [OF ok(1) assms(3) _ assms(2)]) (use ok(2) in \<open>simp add: rx_ok_def\<close>)
  ultimately show ?thesis using em assms(2) by (intro that [of p n]) (auto simp: emitted_def)
qed

lemma from_log_receive:
  assumes "tcp_receive E sg (q\<lparr>recv_data := None\<rparr>) u = Inr (sg', q', u')" and "sg = parse_segment s" and "(src, dst, s) \<in> L"
    and "TCP_TCPLEN sg = 0 \<longleftrightarrow> seg_len sg = 0" and "from_log L (ooseq q)"
  shows "from_log L (ooseq q')"
proof -
  obtain p1 u1 where p1: "rcv_side p1 = rcv_side (q\<lparr>recv_data := None\<rparr>)" "receive_data E sg p1 u1 = Inr (sg', q', u')"
    using assms(1) by (auto simp: tcp_receive_def bindr_Inr_iff split: if_splits dest: receive_ack_rcv)
  have sub: "seg_seqno ` set (ooseq q') \<subseteq> (if seg_len sg = 0 then {} else {seg_seqno sg}) \<union> seg_seqno ` set (ooseq q)"
    using receive_data_seqnos [OF p1(2)] p1(1) assms(4) by (simp add: rcv_side_eq)
  show ?thesis
    unfolding from_log_def
  proof
    fix x assume "x \<in> set (ooseq q')"
    then have "seg_len sg \<noteq> 0 \<and> seg_seqno x = seg_seqno sg \<or> (\<exists>y\<in>set (ooseq q). seg_seqno x = seg_seqno y)"
      using sub by (auto split: if_splits)
    then show "\<exists>(src, dst, s)\<in>L. seg_len (parse_segment s) \<noteq> 0 \<and> seg_seqno x = seg_seqno (parse_segment s)"
      using assms(2,3,5) unfolding from_log_def by fastforce
  qed
qed

lemma receiver_ok:
  assumes "net_ok iss B ((w, pcb, t), q, u, d)" and "length w < 2 ^ 30" and "(src, dst, s) \<in> set (t_out t)"
    and "tcp_receive E (parse_segment s) (q\<lparr>recv_data := None\<rparr>) u = Inr (sg, q', u')"
  shows "rx_ok (w @ v) iss (set (t_out t)) q' (d @ delivered q')"
proof -
  have ok: "rx_ok (w @ v) iss (set (t_out t)) q d" using assms(1) by (simp add: net_ok_def)
  obtain p n where c: "carries (nth (w @ v)) iss (parse_segment s) p n" "p < length d + 2 ^ 30" "length d < p + 2 ^ 30"
    "may_replace (parse_segment s) (ooseq q)" "seg_len (parse_segment s) = 0 \<longleftrightarrow> n = 0"
    using arrival_ok [OF assms(1-3), where v = v] by blast
  have rk: "rcv_ok (nth (w @ v)) iss (length d) q" using ok by (simp add: rx_ok_def)
  from tcp_receive_ok [OF rk c(1-4) assms(4)] obtain r' where r': "length d \<le> r'" "rcv_ok (nth (w @ v)) iss r' q'"
    "delivered q' = map (nth (w @ v)) [length d..<r']" by blast
  have "d @ delivered q' = map (nth (w @ v)) ([0..<length d] @ [length d..<r'])"
    using ok r'(3) by (simp add: rx_ok_def)
  also have "[0..<length d] @ [length d..<r'] = [0..<r']" using r'(1) by (metis le0 le_iff_add upt_add_eq_append)
  finally have d: "d @ delivered q' = map (nth (w @ v)) [0..<r']" .
  have "TCP_TCPLEN (parse_segment s) = 0 \<longleftrightarrow> seg_len (parse_segment s) = 0"
  proof -
    have "n = 0 \<longleftrightarrow> of_nat n = (0 :: u32)" using len_32(2) [OF carriesD(2) [OF c(1)]] by (cases "n = 0") auto
    then show ?thesis using c(5) by (simp add: carriesD(5) [OF c(1)])
  qed
  then have "from_log (set (t_out t)) (ooseq q')"
    using from_log_receive [OF assms(4) refl assms(3)] ok by (simp add: rx_ok_def)
  then show ?thesis using r'(2) d by (simp add: rx_ok_def)
qed

lemma net_step_ok:
  assumes "net_step E E' s s'" and "net_ok iss B s" and "length (fst (fst s)) < 2 ^ 30"
  shows "net_ok iss B s'"
  using assms(1)
proof cases
  case (sender w pcb t w' pcb' t' q u d)
  have ok: "tx_ok (set (t_out t)) w iss B pcb t" "\<And>v. rx_ok (w @ v) iss (set (t_out t)) q d"
    using assms(2) sender by (simp_all add: net_ok_def)
  obtain v where v: "w' = w @ v" "tx_ok (set (t_out t)) w' iss B pcb' t'" using tx_step_ok [OF sender(3) ok(1)] by blast
  note log = tx_ok_log [OF v(2)]
  have "rx_ok (w' @ x) iss (set (t_out t')) q d" for x
    using ok(2) [of "v @ x"] from_log_mono log unfolding rx_ok_def v(1) append_assoc by blast
  then show ?thesis using sender log by (simp add: net_ok_def)
next
  case (arrives src dst s0 t q u sg q' u' w pcb d)
  have "rx_ok (w @ v) iss (set (t_out t)) q' (d @ delivered q')" for v
    by (rule receiver_ok [OF assms(2) [unfolded arrives(1)] _ arrives(3,4)]) (use assms(3) arrives(1) in simp)
  then show ?thesis using assms(2) arrives by (simp add: net_ok_def)
next
  case (reader len q u q' u' w pcb t d)
  have "rcv_nxt q' = rcv_nxt q" "ooseq q' = ooseq q" using tcp_recved_rcv [OF reader(3)] by blast+
  then show ?thesis using assms(2) reader by (simp add: net_ok_def rx_ok_def rcv_ok_def)
next
  case (replies q u e q' u' w pcb t d)
  have "rcv_nxt q' = rcv_nxt q" "ooseq q' = ooseq q" using tcp_output_rcv [OF replies(3)] by (simp_all add: rcv_side_eq)
  then show ?thesis using assms(2) replies by (simp add: net_ok_def rx_ok_def rcv_ok_def)
next
  case (slow q u rm q' u' w pcb t d)
  have "rcv_nxt q' = rcv_nxt q" "ooseq q' = ooseq q \<or> ooseq q' = []" using slow_pcb_rcv [OF slow(3)] by blast+
  then show ?thesis using assms(2) slow by (auto simp: net_ok_def rx_ok_def rcv_ok_def from_log_def)
next
  case (elsewhere w pcb t q u d u')
  then show ?thesis using assms(2) by (simp add: net_ok_def)
qed

section \<open>A connection between two ends\<close>

definition queue_bytes :: "tcp_seg list \<Rightarrow> byte list" where
  "queue_bytes sgs = concat (map (\<lambda>sg. concat (p_bufs (the (seg_p sg)))) sgs)"

lemma queued_bytes: "queued w iss p sgs (length w) \<Longrightarrow> queue_bytes sgs = drop p w"
proof (induction sgs arbitrary: p)
  case (Cons sg sgs)
  let ?n = "unat (seg_len sg)"
  have "concat (p_bufs (the (seg_p sg))) = take ?n (drop p w)" using Cons.prems by (auto simp: loaded_def)
  moreover have "queue_bytes sgs = drop ?n (drop p w)" using Cons by (simp add: add.commute)
  ultimately have "queue_bytes (sg # sgs) = take ?n (drop p w) @ drop ?n (drop p w)" by (simp add: queue_bytes_def)
  then show ?case by (simp only: append_take_drop_id)
qed (simp add: queue_bytes_def)

lemma tx_step_grows: "tx_step E s s' \<Longrightarrow> length (fst s) \<le> length (fst s')"
  by (induction rule: tx_step.induct) (simp_all del: length_0_conv)

lemma net_step_grows: "net_step E E' s s' \<Longrightarrow> length (fst (fst s)) \<le> length (fst (fst s'))"
proof (induction rule: net_step.induct)
  case (sender w pcb t w' pcb' t' q u d)
  then show ?case using tx_step_grows by fastforce
qed simp_all

lemma net_steps_ok:
  assumes "(net_step E E')\<^sup>*\<^sup>* s s'" and "net_ok iss B s" and "length (fst (fst s')) < 2 ^ 30"
  shows "net_ok iss B s'"
  using assms
proof (induction rule: rtranclp_induct)
  case (step y z)
  have "length (fst (fst y)) < 2 ^ 30" using net_step_grows [OF step.hyps(2)] step.prems(2) by simp
  then show ?case using net_step_ok [OF step.hyps(2)] step.IH [OF step.prems(1)] by blast
qed

lemma net_ok_start:
  assumes "state pcb \<noteq> SYN_SENT" and "0 < mss pcb" "mss pcb \<le> TCP_MSS"
    and "snd_lbb pcb = iss" "snd_nxt pcb = iss" "snd_max pcb = iss" "lastack pcb = iss"
    and "unacked pcb = []" "unsent pcb = []" and "t_out t = []" and "rcv_nxt q = iss" "ooseq q = []"
  shows "net_ok iss (unat (snd_buf pcb)) (([], pcb, t), q, u, [])"
proof -
  have "queue_ok [] iss 0 {} []" by (simp add: queue_ok_def)
  then have "sender_ok [] iss (unat (snd_buf pcb)) {} 0 pcb"
    using assms(1-9) unat_u16_less by (simp add: sender_ok_def)
  then have "tx_ok {} [] iss (unat (snd_buf pcb)) pcb t"
    using assms(10) unfolding tx_ok_def out_ok_def by (intro exI [of _ "{}"] exI [of _ 0]) simp
  then show ?thesis using assms(10-12) by (simp add: net_ok_def rx_ok_def rcv_ok_def from_log_def)
qed

text \<open>
  C4: TCP is a reliable byte stream.  From an open connection on which nothing has been
  written, whatever the applications, the timers, and the network do, what the receiving
  application has been given is a prefix of what the sending one has written; the bytes that
  are not acknowledged are still in the queues of the sender, in order; every datagram that was sent
  passes the checksum test; and the reassembly never fails on one.
\<close>

theorem tcp_end_to_end:
  assumes "(net_step E E')\<^sup>*\<^sup>* (([], pcb0, t0), q0, u0, []) ((w, pcb, t), q, u, d)" and "length w < 2 ^ 30"
    and "state pcb0 \<noteq> SYN_SENT" and "0 < mss pcb0" "mss pcb0 \<le> TCP_MSS"
    and "snd_lbb pcb0 = iss" "snd_nxt pcb0 = iss" "snd_max pcb0 = iss" "lastack pcb0 = iss"
    and "unacked pcb0 = []" "unsent pcb0 = []" and "t_out t0 = []" and "rcv_nxt q0 = iss" "ooseq q0 = []"
  shows "(\<exists>rest. w = d @ rest) \<and> rcv_nxt q = iss + of_nat (length d)
     \<and> (\<exists>a\<le>length w. lastack pcb = iss + of_nat a \<and> (\<exists>p\<le>a. queue_bytes (unacked pcb @ unsent pcb) = drop p w))
     \<and> (\<forall>(src, dst, s)\<in>set (t_out t). inet_chksum_pseudo [s] src dst IP_PROTO_TCP (of_nat (length s)) = 0
          \<and> (\<exists>r. receive_data E' (parse_segment s) (q\<lparr>recv_data := None\<rparr>) u = Inr r))"
proof -
  let ?B = "unat (snd_buf pcb0)"
  have ok: "net_ok iss ?B ((w, pcb, t), q, u, d)"
    by (rule net_steps_ok [OF assms(1) net_ok_start [OF assms(3-14)]]) (use assms(2) in simp)
  have rk: "rcv_ok (nth (w @ [])) iss (length d) q" using ok unfolding net_ok_def rx_ok_def prod.case by blast
  obtain R a where R: "sender_ok w iss ?B R a pcb" using ok by (auto simp: net_ok_def tx_ok_def)
  then obtain p where "p \<le> a" "queue_bytes (unacked pcb @ unsent pcb) = drop p w"
    using queued_bytes by (auto simp: sender_ok_def queue_ok_def)
  moreover have "lastack pcb = iss + of_nat a" "a \<le> length w" using R by (auto simp: sender_ok_def)
  moreover have "inet_chksum_pseudo [s] src dst IP_PROTO_TCP (of_nat (length s)) = 0
      \<and> (\<exists>r. receive_data E' (parse_segment s) (q\<lparr>recv_data := None\<rparr>) u = Inr r)" if log: "(src, dst, s) \<in> set (t_out t)" for src dst s
  proof -
    obtain m n where c: "carries (nth (w @ [])) iss (parse_segment s) m n" "m < length d + 2 ^ 30" "length d < m + 2 ^ 30"
      "may_replace (parse_segment s) (ooseq q)" "inet_chksum_pseudo [s] src dst IP_PROTO_TCP (of_nat (length s)) = 0"
      using arrival_ok [OF ok assms(2) log, where v = "[]"] by blast
    have "rcv_ok (nth (w @ [])) iss (length d) (q\<lparr>recv_data := None\<rparr>)" using rk by (simp add: rcv_ok_def)
    from receive_data_ok [OF this _ c(1-3), of E' u] c(4,5) show ?thesis by auto
  qed
  ultimately show ?thesis using net_ok_prefix [OF ok] rk by (auto simp: rcv_ok_def)
qed

definition ex_end :: tcp_pcb where
  "ex_end = (new_pcb 0 0)\<lparr>state := ESTABLISHED, local_ip := 1, remote_ip := 2, local_port := 23, remote_port := 1000,
     snd_wnd := 4096, cwnd := 4096\<rparr>"

definition ex_written :: "(err \<times> tcp_pcb \<times> tcp) result" where
  "ex_written = tcp_write ex_tcp_env [65, 66] True ex_end tcp_boot"

definition ex_sent :: "(err \<times> tcp_pcb \<times> tcp) result" where
  "ex_sent = bindr ex_written (\<lambda>(_, pcb, t). tcp_output ex_tcp_env pcb t)"

definition ex_arrived :: "(tcp_seg \<times> tcp_pcb \<times> tcp) result" where
  "ex_arrived = bindr ex_sent (\<lambda>(_, _, t).
     tcp_receive ex_tcp_env (parse_segment (snd (snd (hd (t_out t))))) (ex_end\<lparr>recv_data := None\<rparr>) tcp_boot)"

lemma ex_written_ok: "case ex_written of Inl _ \<Rightarrow> False | Inr (e, _, _) \<Rightarrow> e = ERR_OK"
  by code_simp

lemma ex_sent_ok: "case ex_sent of Inl _ \<Rightarrow> False | Inr (_, _, t) \<Rightarrow> t_out t \<noteq> []"
  by code_simp

lemma ex_arrived_ok: "case ex_arrived of Inl _ \<Rightarrow> False | Inr (_, q, _) \<Rightarrow> delivered q = [65, 66]"
  by code_simp

lemma ex_run:
  "\<exists>pcb t q u. (net_step ex_tcp_env ex_tcp_env)\<^sup>*\<^sup>* (([], ex_end, tcp_boot), ex_end, tcp_boot, []) (([65, 66], pcb, t), q, u, [65, 66])"
proof -
  obtain p1 t1 where 1: "tcp_write ex_tcp_env [65, 66] True ex_end tcp_boot = Inr (ERR_OK, p1, t1)"
    using ex_written_ok unfolding ex_written_def by (auto split: sum.splits)
  obtain e p2 t2 where 2: "tcp_output ex_tcp_env p1 t1 = Inr (e, p2, t2)" "t_out t2 \<noteq> []"
    using ex_sent_ok unfolding ex_sent_def ex_written_def 1 by (auto split: sum.splits)
  obtain src dst s where s: "(src, dst, s) \<in> set (t_out t2)" "s = snd (snd (hd (t_out t2)))"
    using 2(2) by (metis hd_in_set prod.collapse)
  obtain sg q u where 3: "tcp_receive ex_tcp_env (parse_segment s) (ex_end\<lparr>recv_data := None\<rparr>) tcp_boot = Inr (sg, q, u)"
    "delivered q = [65, 66]"
    using ex_arrived_ok unfolding ex_arrived_def ex_sent_def ex_written_def 1 by (auto simp: 2(1) s(2) split: sum.splits)
  let ?st = "net_step ex_tcp_env ex_tcp_env"
  have "?st (([], ex_end, tcp_boot), ex_end, tcp_boot, []) (([65, 66], p1, t1), ex_end, tcp_boot, [])"
    using tx_step.writes [OF 1, of "[]"] by (intro net_step.sender) simp
  moreover have "?st (([65, 66], p1, t1), ex_end, tcp_boot, []) (([65, 66], p2, t2), ex_end, tcp_boot, [])"
    by (rule net_step.sender [OF tx_step.sends [OF 2(1)]])
  moreover have "?st (([65, 66], p2, t2), ex_end, tcp_boot, []) (([65, 66], p2, t2), q, u, [65, 66])"
    using net_step.arrives [OF s(1) 3(1), of ex_tcp_env "[65, 66]" p2 "[]"] 3(2) by simp
  ultimately show ?thesis by (meson rtranclp.rtrancl_into_rtrancl rtranclp.rtrancl_refl)
qed

theorem tcp_end_to_end_witness:
  "\<exists>pcb t q u. (net_step ex_tcp_env ex_tcp_env)\<^sup>*\<^sup>* (([], ex_end, tcp_boot), ex_end, tcp_boot, []) (([65, 66], pcb, t), q, u, [65, 66])
     \<and> rcv_nxt q = 0 + of_nat (length [65, 66 :: byte])
     \<and> (\<exists>a\<le>length [65, 66 :: byte]. lastack pcb = 0 + of_nat a \<and> (\<exists>p\<le>a. queue_bytes (unacked pcb @ unsent pcb) = drop p [65, 66]))"
proof -
  obtain pcb t q u where run: "(net_step ex_tcp_env ex_tcp_env)\<^sup>*\<^sup>* (([], ex_end, tcp_boot), ex_end, tcp_boot, [])
      (([65, 66], pcb, t), q, u, [65, 66])" using ex_run by blast
  have start: "state ex_end \<noteq> SYN_SENT" "0 < mss ex_end" "mss ex_end \<le> TCP_MSS" "snd_lbb ex_end = 0" "snd_nxt ex_end = 0"
    "snd_max ex_end = 0" "lastack ex_end = 0" "unacked ex_end = []" "unsent ex_end = []" "t_out tcp_boot = []"
    "rcv_nxt ex_end = 0" "ooseq ex_end = []"
    by (simp_all add: ex_end_def new_pcb_def TCP_MSS_def tcp_boot_def tcp_init_def)
  have "length [65, 66 :: byte] < 2 ^ 30" by simp
  from tcp_end_to_end [OF run this start] run show ?thesis by blast
qed

end
