(* ===== verification/LwTcpFaults.thy ===== *)
theory LwTcpFaults
  imports LwTcpRecv
begin

text \<open>
  Inputs and states in which the TCP implementation does not do what it is meant to do: an
  option list that \<open>tcp_parseopt\<close> never finishes, a \<open>FIN\<close> in front of buffered data that is
  chained to a null pointer, a connection without an \<open>accept\<close> function that is used after
  it was freed, and timers whose fields are too narrow.
\<close>

section \<open>Options\<close>

text \<open>
  An option that ends at index 256 takes the 8-bit index back to the beginning.
\<close>

lemma parseopt_cycle:
  assumes "8 \<le> length opts" and "8 \<le> lim"
    and "opts ! 0 = 3" "opts ! 1 = 4" "opts ! 4 = 3" "opts ! 5 = 252"
  shows "parseopt_loop n opts lim 0 = Inl OutOfFuel \<and> parseopt_loop n opts lim 4 = Inl OutOfFuel"
proof -
  have wrap: "(256 :: byte) = 0" by (simp add: word_unat_eq_iff)
  have at: "opt_at opts k = Inr (opts ! k)" if "k < 8" for k using assms(1) that by (simp add: opt_at_def)
  from assms show ?thesis by (induction n) (simp_all add: at wrap)
qed

text \<open>
  Where no index wraps around, each step moves the index up.
\<close>

lemma parseopt_ends_from:
  assumes "\<forall>k<length opts. unat (opts ! k) \<le> 215" and "lim \<le> 40" and "lim + 3 \<le> length opts"
    and "unat c < lim + 216" and "256 - unat c \<le> n"
  shows "\<exists>r. parseopt_loop n opts lim c = Inr r"
  using assms(4,5)
proof (induction n arbitrary: c)
  case 0
  then show ?case using unat_u8_less [of c] by simp
next
  case (Suc n)
  show ?case
  proof (cases "unat c < lim")
    case True
    have at: "opt_at opts (unat c + k) = Inr (opts ! (unat c + k))" if "k \<le> 3" for k
      using True that assms(3) by (simp add: opt_at_def)
    have up: "\<exists>r. parseopt_loop n opts lim (c + l) = Inr r" if "l \<noteq> 0" "unat l \<le> 215" for l
    proof (rule Suc.IH)
      have "unat c + unat l < 256" using True that(2) assms(2) by linarith
      then have e: "unat (c + l) = unat c + unat l" by (simp add: unat_add_lem [THEN iffD1])
      then show "unat (c + l) < lim + 216" using True that(2) by linarith
      have "unat l \<noteq> 0" using that(1) by (simp add: unat_eq_zero)
      then show "256 - unat (c + l) \<le> n" using e Suc.prems(2) by linarith
    qed
    have "unat (opts ! (unat c + 1)) \<le> 215" using True assms(1,3) by simp
    with up [of "opts ! (unat c + 1)"] up [of 1] at [of 0] at [of 1] at [of 2] at [of 3] True show ?thesis by simp
  next
    case False
    then show ?thesis by simp
  qed
qed

text \<open>
  C20: \<open>tcp_parseopt\<close>.  If no byte of the options exceeds 215, parsing ends.  Otherwise it
  may not: on every segment whose options begin with an option of length 4 followed by one
  of length 252, the loop runs forever, whatever follows.
\<close>

theorem tcp_parseopt_hangs:
  assumes "opt_limit off + 3 \<le> length opts" and "seg_offset inseg = off" and "off AND 0xf0 > 0x50"
  shows "((\<forall>k<length opts. unat (opts ! k) \<le> 215) \<longrightarrow> (\<exists>pcb'. tcp_parseopt inseg opts pcb = Inr pcb'))
     \<and> (8 \<le> opt_limit off \<longrightarrow> opts ! 0 = 3 \<longrightarrow> opts ! 1 = 4 \<longrightarrow> opts ! 4 = 3 \<longrightarrow> opts ! 5 = 252 \<longrightarrow>
          (\<forall>n. parseopt_loop n opts (opt_limit off) 0 = Inl OutOfFuel) \<and> tcp_parseopt inseg opts pcb = Inl OutOfFuel)"
proof -
  have lim: "opt_limit off \<le> 40" using unat_u8_less [of off] by (simp add: opt_limit_def)
  have "\<exists>pcb'. tcp_parseopt inseg opts pcb = Inr pcb'" if s: "\<forall>k<length opts. unat (opts ! k) \<le> 215"
    using parseopt_ends_from [OF s lim assms(1), of 0 257] assms(2,3)
    by (auto simp: tcp_parseopt_def split: option.splits)
  moreover have "parseopt_loop n opts (opt_limit off) 0 = Inl OutOfFuel"
    if "8 \<le> opt_limit off" "opts ! 0 = 3" "opts ! 1 = 4" "opts ! 4 = 3" "opts ! 5 = 252" for n
    using parseopt_cycle [of opts "opt_limit off" n] that assms(1) by simp
  ultimately show ?thesis using assms(2,3) by (simp add: tcp_parseopt_def)
qed

definition ex_options :: "byte list" where
  "ex_options = [3, 4, 0, 0, 3, 252, 0, 0, 0, 0, 0]"

definition ex_seg :: tcp_seg where
  "ex_seg = \<lparr>seg_p = Some \<lparr>p_tot = 0, p_bufs = [[]]\<rparr>, seg_len = 0, seg_src = 1000, seg_dest = 23, seg_seqno = 500,
     seg_ackno = 0, seg_offset = 0x70, seg_flags = TCP_SYN, seg_wnd = 1024\<rparr>"

theorem tcp_parseopt_hangs_witness:
  "tcp_parseopt ex_seg ex_options (new_pcb 0 0) = Inl OutOfFuel
     \<and> (\<exists>pcb. tcp_parseopt ex_seg [2, 4, 0, 100, 0, 0, 0, 0, 0, 0, 0] (new_pcb 0 0) = Inr pcb)"
proof -
  have o: "seg_offset ex_seg = 0x70" by (simp add: ex_seg_def)
  have l: "opt_limit 0x70 = 8" by (simp add: opt_limit_def)
  have "tcp_parseopt ex_seg ex_options (new_pcb 0 0) = Inl OutOfFuel"
    using tcp_parseopt_hangs [OF _ o, of ex_options "new_pcb 0 0"] by (simp add: l ex_options_def)
  moreover have "\<forall>x\<in>set [2, 4, 0, 100, 0, 0, 0, 0, 0, 0, 0 :: byte]. unat x \<le> 215" by simp
  note small = this [unfolded all_set_conv_all_nth]
  have "\<exists>pcb. tcp_parseopt ex_seg [2, 4, 0, 100, 0, 0, 0, 0, 0, 0, 0] (new_pcb 0 0) = Inr pcb"
    using tcp_parseopt_hangs [OF _ o, of "[2, 4, 0, 100, 0, 0, 0, 0, 0, 0, 0]" "new_pcb 0 0"] small
    by (simp add: l)
  ultimately show ?thesis ..
qed

section \<open>A \<open>FIN\<close> in front of buffered data\<close>

text \<open>
  A segment beyond the next byte is kept.  A \<open>FIN\<close> without data then takes the sequence
  number in between, and the kept data is chained to \<open>recv_data\<close>, which is a null pointer.
\<close>

lemma tcp_ack_now_pool:
  assumes "tcp_ack_now E pcb t = Inr (pcb', t')"
  shows "t_seg_free t' = t_seg_free t"
proof -
  have "(flags pcb OR TF_ACK_NOW) AND TF_ACK_NOW \<noteq> 0"
    by (simp add: TF_ACK_NOW_def bit.conj_disj_distrib2)
  then show ?thesis
    using assms by (auto simp: tcp_ack_now_def tcp_output_def Let_def pbuf_alloc_def send_header_Inr split: if_splits)
qed

lemma gap_segment_kept:
  assumes "seg_flags sg AND TCP_ACK = 0" and "seg_seqno sg = rcv_nxt pcb + 1" and "seg_len sg \<noteq> 0"
    and "ooseq pcb = []" and "rcv_wnd pcb > 1" and "t_seg_free t > 0"
    and "seg_flags sg AND TCP_FIN = 0" and "seg_flags sg AND TCP_SYN = 0"
  shows "\<exists>pcb' t'. tcp_receive E sg pcb t = Inr (sg, pcb', t') \<and> ooseq pcb' = [sg]
     \<and> rcv_nxt pcb' = rcv_nxt pcb \<and> rcv_wnd pcb' = rcv_wnd pcb"
proof -
  obtain p u where a: "tcp_ack_now E pcb t = Inr (p, u)" using tcp_ack_now_returns by blast
  note side = tcp_ack_now_rcv [OF a, unfolded rcv_side_eq]
  have w: "1 < unat (rcv_wnd pcb)" "unat (rcv_wnd pcb) < 65536"
    using assms(5) unat_u16_less by (simp_all add: word_less_nat_alt)
  have len: "TCP_TCPLEN sg > 0"
    using assms(3,7,8) by (simp add: TCP_TCPLEN_def word_less_nat_alt unat_eq_zero [symmetric])
  have cmp: "\<not> TCP_SEQ_LT (seg_seqno sg) (rcv_nxt pcb)" "TCP_SEQ_GEQ (seg_seqno sg) (rcv_nxt pcb)"
    using seq_cmp(1,4) [of 1 0 "rcv_nxt pcb"] by (simp_all add: assms(2))
  have "rcv_nxt pcb + ucast (rcv_wnd pcb) = rcv_nxt pcb + of_nat (unat (rcv_wnd pcb))" by simp
  then have lt: "TCP_SEQ_LT (seg_seqno sg) (rcv_nxt pcb + ucast (rcv_wnd pcb))"
    using seq_cmp(1) [of 1 "unat (rcv_wnd pcb)" "rcv_nxt pcb"] w by (simp add: assms(2))
  have "tcp_receive E sg pcb t = receive_out_of_sequence E sg pcb t"
    using assms(1,2) len cmp lt by (simp add: tcp_receive_def receive_data_def trim_first_def)
  then show ?thesis using a side assms(4,6) tcp_ack_now_pool [OF a] by (simp add: receive_out_of_sequence_def)
qed

lemma fin_before_data:
  assumes "seg_flags sg AND TCP_ACK = 0" and "seg_flags sg AND TCP_FIN \<noteq> 0" and "seg_len sg = 0"
    and "seg_p sg = Some p" "p_tot p = 0" and "seg_seqno sg = rcv_nxt pcb" and "recv_data pcb = None"
    and "rcv_wnd pcb \<noteq> 0" and "ooseq pcb = x # rest" "seg_seqno x = rcv_nxt pcb + 1" "seg_p x = Some q" "p_tot q > 0"
  shows "tcp_receive E sg pcb t = Inl NullDeref"
proof -
  have w: "0 < unat (rcv_wnd pcb)" "unat (rcv_wnd pcb) < 65536"
    using assms(8) unat_u16_less by (simp_all add: unat_gt_0)
  have len: "TCP_TCPLEN sg = 1" using assms(2,3) by (simp add: TCP_TCPLEN_def)
  have cmp: "\<not> TCP_SEQ_LT (seg_seqno sg) (rcv_nxt pcb)" "TCP_SEQ_GEQ (seg_seqno sg) (rcv_nxt pcb)"
    using seq_cmp(1,4) [of 0 0 "rcv_nxt pcb"] by (simp_all add: assms(6))
  have leq: "\<not> TCP_SEQ_LEQ (rcv_nxt pcb + 1) (rcv_nxt pcb)"
    using seq_cmp(2) [of 1 0 "rcv_nxt pcb"] by simp
  have "rcv_nxt pcb + ucast (rcv_wnd pcb) = rcv_nxt pcb + of_nat (unat (rcv_wnd pcb))" by simp
  then have lt: "TCP_SEQ_LT (seg_seqno sg) (rcv_nxt pcb + ucast (rcv_wnd pcb))"
    using seq_cmp(1) [of 0 "unat (rcv_wnd pcb)" "rcv_nxt pcb"] w by (simp add: assms(6))
  have "tcp_receive E sg pcb t = receive_in_sequence E sg pcb t"
    using assms(1,6) len cmp lt by (simp add: tcp_receive_def receive_data_def trim_first_def)
  also have "\<dots> = Inl NullDeref"
    using assms len leq by (simp add: receive_in_sequence_def trim_last_def take_window_def Let_def)
  finally show ?thesis .
qed

text \<open>
  C21: two segments from the peer stop the program.  On any connection that has nothing
  buffered and room for two bytes, data that leaves a gap of one byte is kept, and a
  following \<open>FIN\<close> for that byte makes \<open>tcp_receive\<close> chain the kept data to a null pointer.
\<close>

theorem fin_crashes_connection:
  assumes "ooseq pcb = []" and "rcv_wnd pcb > 1" and "t_seg_free t > 0"
    and "seg_flags sg AND (TCP_ACK OR TCP_FIN OR TCP_SYN) = 0" and "seg_seqno sg = rcv_nxt pcb + 1"
    and "seg_len sg \<noteq> 0" and "seg_p sg = Some p" and "p_tot p = seg_len sg"
    and "seg_flags fin = TCP_FIN" and "seg_seqno fin = rcv_nxt pcb" and "seg_len fin = 0"
    and "seg_p fin = Some \<lparr>p_tot = 0, p_bufs = [[]]\<rparr>"
  shows "\<exists>pcb' t'. tcp_receive E sg pcb t = Inr (sg, pcb', t')
     \<and> tcp_receive E fin (pcb'\<lparr>recv_data := None\<rparr>) t' = Inl NullDeref"
proof -
  have fl: "seg_flags sg AND TCP_ACK = 0" "seg_flags sg AND TCP_FIN = 0" "seg_flags sg AND TCP_SYN = 0"
    using assms(4) by (simp_all add: bit.conj_disj_distrib or_eq_0_iff)
  obtain pcb' t' where *: "tcp_receive E sg pcb t = Inr (sg, pcb', t')" "ooseq pcb' = [sg]"
    "rcv_nxt pcb' = rcv_nxt pcb" "rcv_wnd pcb' = rcv_wnd pcb"
    using gap_segment_kept [OF fl(1) assms(5,6,1,2,3) fl(2,3)] by blast
  have f: "seg_flags fin AND TCP_ACK = 0" "seg_flags fin AND TCP_FIN \<noteq> 0"
    by (simp_all add: assms(9) TCP_ACK_def TCP_FIN_def)
  have "p_tot p > 0" "rcv_wnd pcb \<noteq> 0" using assms(2,6,8) by (auto simp: word_neq_0_conv word_less_nat_alt)
  then have "tcp_receive E fin (pcb'\<lparr>recv_data := None\<rparr>) t' = Inl NullDeref"
    using fin_before_data [OF f assms(11,12), of "pcb'\<lparr>recv_data := None\<rparr>" sg "[]" p E t'] * assms(2,5,7,10) by auto
  with *(1) show ?thesis by blast
qed

definition ex_gap :: tcp_seg where
  "ex_gap = \<lparr>seg_p = Some \<lparr>p_tot = 1, p_bufs = [[65]]\<rparr>, seg_len = 1, seg_src = 1000, seg_dest = 23,
     seg_seqno = 8, seg_ackno = 0, seg_offset = 0x50, seg_flags = TCP_PSH, seg_wnd = 1024\<rparr>"

definition ex_fin :: tcp_seg where
  "ex_fin = \<lparr>seg_p = Some \<lparr>p_tot = 0, p_bufs = [[]]\<rparr>, seg_len = 0, seg_src = 1000, seg_dest = 23,
     seg_seqno = 7, seg_ackno = 0, seg_offset = 0x50, seg_flags = TCP_FIN, seg_wnd = 1024\<rparr>"

theorem fin_crashes_connection_witness:
  "\<exists>pcb' t'. tcp_receive ex_tcp_env ex_gap ((new_pcb 0 0)\<lparr>state := ESTABLISHED, rcv_nxt := 7\<rparr>) tcp_boot
        = Inr (ex_gap, pcb', t')
     \<and> tcp_receive ex_tcp_env ex_fin (pcb'\<lparr>recv_data := None\<rparr>) t' = Inl NullDeref"
  by (rule fin_crashes_connection [where p = "\<lparr>p_tot = 1, p_bufs = [[65]]\<rparr>"])
    (simp_all add: new_pcb_def ex_gap_def ex_fin_def tcp_boot_def tcp_init_def TCP_WND_def
      TCP_PSH_def TCP_FIN_def TCP_SYN_def TCP_ACK_def)

section \<open>Retransmission\<close>

text \<open>
  \<open>tcp_backoff\<close> is used as a shift count.  The fourth timeout in a row shifts by 8 and so
  sets \<open>rto\<close> to at least 256, and the 8-bit \<open>rtime\<close> never reaches more than 255.
\<close>

lemma tcp_rexmit_seg_frame:
  assumes "tcp_rexmit_seg pcb sg t = Inr (pcb', sg', t')"
  shows "rto pcb' = rto pcb" "state pcb' = state pcb" "has_poll pcb' = has_poll pcb" "ooseq pcb' = ooseq pcb"
    "nrtx pcb' = nrtx pcb \<or> nrtx pcb' = nrtx pcb + 1" "t_pcbs t' = t_pcbs t"
    "tcp_active_pcbs t' = tcp_active_pcbs t" "tcp_tw_pcbs t' = tcp_tw_pcbs t"
  using assms by (auto simp: tcp_rexmit_seg_def sr_lwip_output_def Let_def bindr_Inr_iff need_Inr_iff
      split: if_splits option.splits)

lemma backoff_after_three:
  assumes "0 < drop_bit 3 a + v" and "drop_bit 3 a + v < 256"
  shows "backed_off a v (tcp_backoff ! 3) > 255"
proof -
  obtain b where b: "drop_bit 3 a + v = int b" using assms(1) by (metis zero_le_imp_eq_int less_imp_le)
  have "backed_off a v (tcp_backoff ! 3) = of_nat (b * 256)"
    using b by (simp add: backed_off_def tcp_backoff_def push_bit_eq_mult)
  moreover have "unat (of_nat (b * 256) :: u16) = b * 256"
    using assms(2) b unfolding unat_of_nat by simp
  ultimately have "unat (backed_off a v (tcp_backoff ! 3)) = b * 256" by simp
  then show ?thesis using assms(1) b by (simp add: word_less_nat_alt)
qed

text \<open>A connection whose oldest segment waits for a timeout that is longer than \<open>rtime\<close> can count.\<close>

definition waits :: "nat \<Rightarrow> tcp_pcb \<Rightarrow> tcp \<Rightarrow> bool" where
  "waits i pcb t \<longleftrightarrow> tcp_active_pcbs t = [i] \<and> tcp_tw_pcbs t = [] \<and> t_pcbs t i = Some pcb
     \<and> state pcb \<noteq> SYN_SENT \<and> state pcb \<noteq> SYN_RCVD \<and> state pcb \<noteq> FIN_WAIT_2
     \<and> unacked pcb \<noteq> [] \<and> rto pcb > 255 \<and> nrtx pcb \<noteq> TCP_MAXRTX \<and> \<not> has_poll pcb \<and> ooseq pcb = []"

lemma byte_below_rto: "\<not> (ucast (b :: byte) :: u16) \<ge> r" if "r > 255" for r :: u16
proof -
  have "unat (ucast b :: u16) \<le> 255" using unat_u8_less [of b] by simp
  then show ?thesis using that by (simp add: word_le_nat_alt word_less_nat_alt)
qed

lemma rexmit_fields:
  "state (back_off pcb) = state pcb" "has_poll (back_off pcb) = has_poll pcb" "ooseq (back_off pcb) = ooseq pcb"
  "nrtx (back_off pcb) = nrtx pcb" "state (move_to_unsent rest pcb) = state pcb"
  "has_poll (move_to_unsent rest pcb) = has_poll pcb" "ooseq (move_to_unsent rest pcb) = ooseq pcb"
  "nrtx (move_to_unsent rest pcb) = nrtx pcb" "rto (move_to_unsent rest pcb) = rto pcb"
  "rto (reduce_cwnd pcb) = rto pcb" "state (reduce_cwnd pcb) = state pcb" "has_poll (reduce_cwnd pcb) = has_poll pcb"
  "ooseq (reduce_cwnd pcb) = ooseq pcb" "nrtx (reduce_cwnd pcb) = nrtx pcb" "unacked (reduce_cwnd pcb) = unacked pcb"
  by (simp_all add: back_off_def move_to_unsent_def reduce_cwnd_def Let_def)

lemma fourth_timeout:
  assumes "slow_rexmit pcb sg rest t = Inr (pcb', t')" and "state pcb \<noteq> SYN_SENT"
    and "nrtx pcb = 3" and "0 < drop_bit 3 (sa pcb) + sv pcb" and "drop_bit 3 (sa pcb) + sv pcb < 256"
  shows "rto pcb' > 255" "state pcb' = state pcb" "has_poll pcb' = has_poll pcb" "ooseq pcb' = ooseq pcb"
    "nrtx pcb' \<noteq> TCP_MAXRTX" "unacked pcb' \<noteq> []" "t_pcbs t' = t_pcbs t"
    "tcp_active_pcbs t' = tcp_active_pcbs t" "tcp_tw_pcbs t' = tcp_tw_pcbs t"
proof -
  obtain p sg' where r: "tcp_rexmit_seg (move_to_unsent rest (back_off pcb)) sg t = Inr (p, sg', t')"
    and e: "pcb' = reduce_cwnd (p\<lparr>unacked := [sg']\<rparr>)"
    using assms(1) by (auto simp: slow_rexmit_def bindr_Inr_iff need_Inr_iff)
  note f = tcp_rexmit_seg_frame [OF r]
  have "rto pcb' = backed_off (sa pcb) (sv pcb) (tcp_backoff ! 3)"
    using f(1) assms(2,3) by (simp add: e rexmit_fields back_off_def)
  then show "rto pcb' > 255" using backoff_after_three [OF assms(4,5)] by simp
  show "state pcb' = state pcb" "has_poll pcb' = has_poll pcb" "ooseq pcb' = ooseq pcb" "nrtx pcb' \<noteq> TCP_MAXRTX"
    using f(2-5) assms(3) by (auto simp: e rexmit_fields TCP_MAXRTX_def)
  show "unacked pcb' \<noteq> []" by (simp add: e rexmit_fields)
  show "t_pcbs t' = t_pcbs t" "tcp_active_pcbs t' = tcp_active_pcbs t" "tcp_tw_pcbs t' = tcp_tw_pcbs t"
    by (rule f)+
qed

lemma slow_pcb_waits:
  assumes "waits i pcb t"
  shows "slow_pcb pcb t' = Inr (False, pcb\<lparr>rtime := rtime pcb + 1\<rparr>, t')"
  using assms byte_below_rto [of "rto pcb" "rtime pcb + 1"]
  by (auto simp: waits_def slow_pcb_def slow_rtime_def slow_expire_def Let_def neq_Nil_conv)

lemma tcp_slowtmr_waits:
  assumes "waits i pcb t"
  shows "\<exists>pcb' t'. tcp_slowtmr A E t = Inr t' \<and> waits i pcb' t' \<and> unacked pcb' = unacked pcb
     \<and> t_out t' = t_out t"
  using assms slow_pcb_waits [OF assms]
  by (auto simp: tcp_slowtmr_def Let_def waits_def on_pcb_def pcb_of_def upd_pcb_def set_pcb_def next_of_def succ_in_def)

lemma tcp_slowtmr_fires:
  assumes "tcp_slowtmr A E t = Inr t'" and "tcp_active_pcbs t = [i]" "tcp_tw_pcbs t = []" "t_pcbs t i = Some pcb"
    and "state pcb \<in> {ESTABLISHED, FIN_WAIT_1, CLOSE_WAIT, CLOSING, LAST_ACK}" and "unacked pcb = sg # rest"
    and "ucast (rtime pcb + 1) \<ge> rto pcb" and "nrtx pcb = 3"
    and "0 < drop_bit 3 (sa pcb) + sv pcb" "drop_bit 3 (sa pcb) + sv pcb < 256"
    and "\<not> has_poll pcb" and "ooseq pcb = []"
  shows "\<exists>pcb'. waits i pcb' t'"
proof -
  let ?p = "pcb\<lparr>rtime := rtime pcb + 1\<rparr>" and ?t = "t\<lparr>tcp_ticks := tcp_ticks t + 1\<rparr>"
  have nr: "nrtx pcb \<noteq> TCP_MAXRTX" using assms(8) by (simp add: TCP_MAXRTX_def)
  obtain p u where r: "slow_rexmit ?p sg rest ?t = Inr (p, u)"
    using assms(1-8) nr
    by (cases "slow_rexmit ?p sg rest ?t") (auto simp: tcp_slowtmr_def Let_def on_pcb_def pcb_of_def slow_pcb_def slow_rtime_def slow_expire_def)
  have st: "state ?p \<noteq> SYN_SENT" using assms(5) by auto
  note f = fourth_timeout [OF r st, simplified, OF assms(8-10)]
  have "slow_pcb pcb ?t = Inr (False, p, u)"
    using r assms(5-8,12) nr f(2,4) by (auto simp: slow_pcb_def slow_rtime_def slow_expire_def Let_def)
  then have "t' = u\<lparr>t_pcbs := (t_pcbs u)(i \<mapsto> p\<lparr>polltmr := polltmr p + 1\<rparr>), tcp_tw_pcbs := []\<rparr>"
    using assms(1-4,11) f(3,7,8,9)
    by (simp add: tcp_slowtmr_def Let_def on_pcb_def pcb_of_def upd_pcb_def set_pcb_def next_of_def succ_in_def)
  then have "waits i (p\<lparr>polltmr := polltmr p + 1\<rparr>) t'"
    using f assms(2,3,5,11,12) by (auto simp: waits_def)
  then show ?thesis by blast
qed


definition ex_unacked :: tcp_seg where
  "ex_unacked = \<lparr>seg_p = Some \<lparr>p_tot = 21, p_bufs = [[65]]\<rparr>, seg_len = 1, seg_src = 23, seg_dest = 1000,
     seg_seqno = 0, seg_ackno = 0, seg_offset = 0x50, seg_flags = TCP_ACK, seg_wnd = 1024\<rparr>"

definition ex_late_pcb :: tcp_pcb where
  "ex_late_pcb = (new_pcb 0 0)\<lparr>state := ESTABLISHED, rto := 96, rtime := 95, nrtx := 3, snd_wnd := 4096,
     cwnd := 4096, unacked := [ex_unacked]\<rparr>"

definition ex_late :: tcp where
  "ex_late = tcp_boot\<lparr>tcp_active_pcbs := [0], t_pcbs := (\<lambda>_. None)(0 \<mapsto> ex_late_pcb)\<rparr>"

definition ex_app :: app where
  "ex_app = \<lparr>on_accept = (\<lambda>_ t. Inr (ERR_OK, t)), on_connected = (\<lambda>_ t. Inr (ERR_OK, t)), on_poll = (\<lambda>_ t. Inr (ERR_OK, t)),
     on_sent = (\<lambda>_ _ t. Inr (ERR_OK, t)), on_recv = (\<lambda>_ _ t. Inr (ERR_OK, t)), on_errf = (\<lambda>_ _ t. Inr t)\<rparr>"

lemma ex_late_fires: "\<exists>t'. tcp_slowtmr ex_app ex_tcp_env ex_late = Inr t'"
  by (simp add: tcp_slowtmr_def ex_late_def ex_late_pcb_def ex_unacked_def tcp_boot_def tcp_init_def on_pcb_def pcb_of_def slow_pcb_def slow_rtime_def slow_expire_def new_pcb_def
      TCP_MAXRTX_def slow_rexmit_def tcp_rexmit_seg_def move_to_unsent_def back_off_def seg_fits_def snd_window_def
      tcp_backoff_def sr_lwip_output_def tcp_wire_def length_tcp_hdr reduce_cwnd_def upd_pcb_def set_pcb_def
      next_of_def succ_in_def Let_def)


section \<open>A connection nobody accepts\<close>

text \<open>
  When no application accepts a connection, \<open>tcp_process\<close> aborts it and answers \<open>ERR_OK\<close>,
  so that \<open>tcp_input\<close> reads the freed control block.
\<close>

lemma remove_final_returns: "\<exists>pcb' t'. remove_final E pcb t = Inr ((), pcb', t') \<and> t_pcbs t' = t_pcbs t"
proof -
  obtain p u where pu: "tcp_pcb_purge pcb t = (p, u)" by fastforce
  have segs: "t_pcbs (tcp_segs_free ss t) = t_pcbs t" for ss t
    by (induction ss arbitrary: t) (simp_all add: tcp_seg_free_def)
  have u: "t_pcbs u = t_pcbs t" using pu by (auto simp: tcp_pcb_purge_def segs split: if_splits)
  obtain p' u' where a: "tcp_ack_now E p u = Inr (p', u')" using tcp_ack_now_returns by blast
  have "(flags p OR TF_ACK_NOW) AND TF_ACK_NOW \<noteq> 0"
    by (simp add: TF_ACK_NOW_def bit.conj_disj_distrib2)
  then have "t_pcbs u' = t_pcbs u"
    using a by (auto simp: tcp_ack_now_def tcp_output_def Let_def pbuf_alloc_def send_header_Inr split: if_splits)
  then show ?thesis using pu u a by (simp add: remove_final_def)
qed

lemma tcp_abort_frees:
  assumes "t_pcbs t i = Some pcb" and "state pcb = ESTABLISHED" and "\<not> has_errf pcb" and "\<forall>n. room E n"
  shows "\<exists>t'. tcp_abort A E i t = Inr t' \<and> t_pcbs t' i = None"
proof -
  obtain p u where r: "remove_final E pcb (rmv_active i t) = Inr ((), p, u)" "t_pcbs u = t_pcbs t"
    using remove_final_returns [of E pcb "rmv_active i t"] by (auto simp: rmv_active_def)
  have "tcp_pcb_remove E rmv_active i t = Inr (set_pcb i p u)"
    using assms(1) r(1) by (simp add: tcp_pcb_remove_def on_pcb_def pcb_of_def rmv_active_def)
  then show ?thesis
    using assms by (simp add: tcp_abort_def tcp_abort_with_def pcb_of_def free_pcb_def set_pcb_def tcp_rst_with_def
        pbuf_alloc_def send_header_Inr Let_def)
qed

lemma refused_connection_use_after_free:
  assumes "t_pcbs t i = Some pcb" and "state pcb = SYN_RCVD" and "\<not> has_accept pcb" and "\<not> has_errf pcb"
    and "\<forall>n. room E n" and "seg_flags sg AND TCP_RST = 0" and "seg_flags sg AND TCP_ACK \<noteq> 0"
    and "TCP_SEQ_LT (lastack pcb) (seg_ackno sg)" and "TCP_SEQ_LEQ (seg_ackno sg) (snd_nxt pcb)"
  shows "\<exists>t'. tcp_process A E ip i sg t = Inr (ERR_OK, sg, t') \<and> input_dispatch A E i t' = Inl UseAfterFree"
proof -
  let ?p = "pcb\<lparr>tmr := ucast (tcp_ticks t)\<rparr>"
  let ?t = "set_pcb i (?p\<lparr>state := ESTABLISHED\<rparr>) (set_pcb i ?p t)"
  obtain t' where a: "tcp_abort A E i ?t = Inr t'" "t_pcbs t' i = None"
    using tcp_abort_frees [of ?t i "?p\<lparr>state := ESTABLISHED\<rparr>" E A] assms(4,5) by (auto simp: set_pcb_def)
  have "process_syn_rcvd A E i sg ?p (set_pcb i ?p t) = Inr (sg, t')"
    using assms(3,7-9) a(1) by (simp add: process_syn_rcvd_def upd_pcb_def pcb_of_def set_pcb_def)
  then have "tcp_process A E ip i sg t = Inr (ERR_OK, sg, t')"
    using assms(1,2,6) by (simp add: tcp_process_def pcb_of_def Let_def)
  then show ?thesis using a(2) by (simp add: input_dispatch_def pcb_of_def)
qed

end
