(* ===== verification/Examples.thy ===== *)
theory Examples
  imports System WorkQueue
begin

text \<open>
  A small concrete router for the instances of the theorems: two interfaces,
  10.0.1.1/24 and 10.0.2.1/24, with their static routes, the host 10.0.2.5 in the
  ARP cache, one immediate neighbour 10.0.2.2 that advertises the subnet 10.0.3.0/24,
  and frames addressed to and through it.
\<close>

definition ip4 :: "byte \<Rightarrow> byte \<Rightarrow> byte \<Rightarrow> byte \<Rightarrow> addr_ip" where
  "ip4 a b c d =
     ucast a OR push_bit 8 (ucast b) OR push_bit 16 (ucast c) OR push_bit 24 (ucast d)"

definition ex_env :: env where
  "ex_env = \<lparr>clock = (\<lambda>t. \<lparr>tv_sec = 1000 + int t, tv_usec = 0\<rparr>),
             low_level_output = (\<lambda>_ _. 0), stack_bytes = (\<lambda>i. 0xA0 + of_nat i), junk_u16 = 7,
             junk_tv = \<lparr>tv_sec = 0, tv_usec = 0\<rparr>, memcmp_rtable = (=)\<rparr>"

definition ex_tv :: timeval where
  "ex_tv = \<lparr>tv_sec = 1000, tv_usec = 0\<rparr>"

definition ex_neighbour :: pwospf_list_entry where
  "ex_neighbour =
     \<lparr>neighbour_id = ip4 10 0 2 2, neighbour_ip = ip4 10 0 2 2, nb_helloint = 5,
      nb_timestamp = ex_tv, immediate_neighbour = 1, lsu_lastseq = 1,
      lsu_lastcontents = LsuData
        [\<lparr>lsa_subnet = ip4 10 0 2 0, lsa_netmask = ip4 255 255 255 0, lsa_router_id = ip4 10 0 2 2\<rparr>,
         \<lparr>lsa_subnet = ip4 10 0 3 0, lsa_netmask = ip4 255 255 255 0, lsa_router_id = ip4 10 0 2 2\<rparr>],
      lsu_lastcontents_count = 2, lsu_timestamp = ex_tv\<rparr>"

definition ex_intf :: "string \<Rightarrow> addr_mac \<Rightarrow> addr_ip \<Rightarrow> pwospf_list_entry list \<Rightarrow> interface" where
  "ex_intf name mac ip nbs =
     \<lparr>if_name = name, if_mac = mac, if_ip = ip, enabled = True,
      subnet_mask = ip4 255 255 255 0, hw_id = 0, helloint = 5,
      neighbours = queue_of sizeof_pwospf_list_entry nbs\<rparr>"

definition ex_route :: "addr_ip \<Rightarrow> nat \<Rightarrow> rtable_entry" where
  "ex_route sub i =
     \<lparr>router_ip = 0, subnet = sub, netmask = ip4 255 255 255 0, rt_interface = Some i,
      metric = 0, dynamic = False\<rparr>"

definition ex_world :: world where
  "ex_world =
     \<lparr>interface = [ex_intf ''r0-eth0'' (MAC 2 0 0 0 1 1) (ip4 10 0 1 1) [],
                   ex_intf ''r0-eth1'' (MAC 2 0 0 0 2 1) (ip4 10 0 2 1) [ex_neighbour],
                   ex_intf [] (MAC 0 0 0 0 0 0) 0 [], ex_intf [] (MAC 0 0 0 0 0 0) 0 []],
      num_interfaces = 2,
      arp_cache = queue_of sizeof_arp_cache_entry
        [\<lparr>arp_ip = ip4 10 0 2 5, arp_mac = MAC 2 0 0 0 2 5, arp_tv = \<lparr>tv_sec = 2000, tv_usec = 0\<rparr>\<rparr>],
      ip_table = queue_of sizeof_rtable_entry
        [ex_route (ip4 10 0 1 0) 0, ex_route (ip4 10 0 2 0) 1],
      iparp_buffer = queue_of sizeof_iparp_buffer_entry [],
      dns_db = queue_of sizeof_dns_db_entry [],
      last_lsu = ex_tv,
      pw_router = \<lparr>router_id = ip4 10 0 1 1, area_id = 0, lsuint = 30\<rparr>,
      use_ospf = True, is_router_running = True,
      ip_id = 0, hid = 0, djkstra_locker = False, ping_list = [], router_shutdown = False,
      sent = [], transport_in = [], ticks = 0\<rparr>"

text \<open>The same router with the sender 10.0.1.9 in the ARP cache.\<close>

definition ex_host9 :: arp_cache_entry where
  "ex_host9 = \<lparr>arp_ip = ip4 10 0 1 9, arp_mac = MAC 2 0 0 0 1 9,
               arp_tv = \<lparr>tv_sec = 2000, tv_usec = 0\<rparr>\<rparr>"

definition ex_world9 :: world where
  "ex_world9 = ex_world\<lparr>arp_cache := queue_of sizeof_arp_cache_entry [ex_host9]\<rparr>"

definition ex_frame :: "byte list \<Rightarrow> packet_info" where
  "ex_frame p = \<lparr>pi_packet = p, pi_len = of_nat (length p), pi_interface = Some 0\<rparr>"

text \<open>A datagram from 10.0.1.9 to 10.0.2.5, TTL 64.\<close>

definition ex_transit :: "byte list" where
  "ex_transit =
     [2, 0, 0, 0, 1, 1, 2, 0, 0, 0, 1, 9, 8, 0, 69, 0, 0, 28, 0, 1, 0, 0, 64, 6, 99,
      206, 10, 0, 1, 9, 10, 0, 2, 5, 1, 2, 3, 4, 5, 6, 7, 8]"

text \<open>The same datagram with TTL 1.\<close>

definition ex_expired :: "byte list" where
  "ex_expired =
     [2, 0, 0, 0, 1, 1, 2, 0, 0, 0, 1, 9, 8, 0, 69, 0, 0, 28, 0, 1, 0, 0, 1, 6, 162,
      206, 10, 0, 1, 9, 10, 0, 2, 5, 1, 2, 3, 4, 5, 6, 7, 8]"

text \<open>A datagram from 10.0.1.9 to 10.0.2.77, which is not in the ARP cache.\<close>

definition ex_unresolved :: "byte list" where
  "ex_unresolved =
     [2, 0, 0, 0, 1, 1, 2, 0, 0, 0, 1, 9, 8, 0, 69, 0, 0, 28, 0, 1, 0, 0, 64, 6, 99,
      134, 10, 0, 1, 9, 10, 0, 2, 77, 1, 2, 3, 4, 5, 6, 7, 8]"

text \<open>An echo request from 10.0.1.9 to 10.0.1.1.\<close>

definition ex_echo :: "byte list" where
  "ex_echo =
     [2, 0, 0, 0, 1, 1, 2, 0, 0, 0, 1, 9, 8, 0, 69, 0, 0, 84, 0, 1, 0, 0, 64, 1, 100,
      159, 10, 0, 1, 9, 10, 0, 1, 1, 8, 0, 0, 229, 0, 7, 0, 1, 0, 1, 2, 3, 4, 5, 6, 7,
      8, 9, 10, 11, 12, 13, 14, 15, 16, 17, 18, 19, 20, 21, 22, 23, 24, 25, 26, 27, 28,
      29, 30, 31, 32, 33, 34, 35, 36, 37, 38, 39, 40, 41, 42, 43, 44, 45, 46, 47, 48,
      49, 50, 51, 52, 53, 54, 55]"

text \<open>An ARP request of 10.0.1.9 for 10.0.1.1.\<close>

definition ex_arp_request :: "byte list" where
  "ex_arp_request =
     [255, 255, 255, 255, 255, 255, 2, 0, 0, 0, 1, 9, 8, 6, 0, 1, 8, 0, 6, 4, 0, 1, 2,
      0, 0, 0, 1, 9, 10, 0, 1, 9, 0, 0, 0, 0, 0, 0, 10, 0, 1, 1]"

text \<open>A link-state packet of router 10.0.1.7 with the advertisement count 0xFFFFFFFF.\<close>

definition ex_negative :: "byte list" where
  "ex_negative =
     [2, 0, 0, 0, 1, 1, 2, 0, 0, 0, 1, 7, 8, 0, 69, 0, 0, 52, 0, 1, 0, 0, 64, 89, 0, 0, 10, 0, 1,
      7, 10, 0, 1, 1, 2, 4, 0, 32, 10, 0, 1, 7, 0, 0, 0, 0, 242, 212, 0, 0, 0, 0, 0, 0, 0, 0, 0, 0, 0,
      1, 0, 64, 255, 255, 255, 255]"

text \<open>A work queue before and after one item was enqueued.\<close>

definition ex_queue0 :: "string work_queue" where
  "ex_queue0 = \<lparr>wq_heap = (\<lambda>_. None), wq_fresh = 0, wq_head = None, wq_tail = None,
                wq_done = False, wq_workers = 1\<rparr>"

definition ex_queue :: "string work_queue" where
  "ex_queue = \<lparr>wq_heap = (\<lambda>_. None)(0 := Some \<lparr>work_type = 1, work_data = ''frame'', work_next = None\<rparr>),
               wq_fresh = 1, wq_head = Some 0, wq_tail = Some 0, wq_done = False, wq_workers = 1\<rparr>"

section \<open>The instances satisfy the hypotheses\<close>

lemma ex_env_sound: "memcmp_sound ex_env"
  by (simp add: memcmp_sound_def ex_env_def)

lemma ex_neighbour_ok: "lsu_ok ex_neighbour"
  by (simp add: lsu_ok_def ex_neighbour_def)

lemma ex_world_wok: "wok {} 2 ex_world"
  by (simp add: wok_def intfs_wf_def ex_world_def ex_intf_def ROUTER_MAX_INTERFACES_def ex_neighbour_ok
      routes_via_def ex_route_def static_routes_def less_2_cases_iff all_conj_distrib)

lemma ex_world_ok: "world_ok ex_world"
  using ex_world_wok wokD(1) [OF ex_world_wok] by (simp add: world_ok_def)

lemma ex_frame_ok: "14 \<le> length p \<Longrightarrow> length p < 1000 \<Longrightarrow> frame_ok 2 (ex_frame p)"
  by (simp add: frame_ok_def ex_frame_def unat_of_nat)

lemma ex_lengths:
  "length ex_transit = 42" "length ex_expired = 42" "length ex_unresolved = 42" "length ex_echo = 98"
  "length ex_arp_request = 42"
  by (simp_all add: ex_transit_def ex_expired_def ex_unresolved_def ex_echo_def ex_arp_request_def)

lemma ex_headers:
  "ip_header_ok ex_transit" "ip_header_ok ex_expired" "ip_header_ok ex_unresolved"
  "ip_header_ok ex_echo"
  by code_simp+

lemma ex_destinations:
  "ip4_dst_ip ex_transit = ip4 10 0 2 5" "ip4_dst_ip ex_expired = ip4 10 0 2 5"
  "ip4_dst_ip ex_unresolved = ip4 10 0 2 77" "ip4_dst_ip ex_echo = ip4 10 0 1 1"
  "ip4_src_ip ex_expired = ip4 10 0 1 9"
  by code_simp+

lemma ex_table:
  "packet (ip_table ex_world) = [ex_route (ip4 10 0 1 0) 0, ex_route (ip4 10 0 2 0) 1]"
  by (simp add: ex_world_def)

lemma ex_matches:
  "rt_matches (ip4 10 0 2 5) (ex_route (ip4 10 0 2 0) 1)"
  "rt_matches (ip4 10 0 2 77) (ex_route (ip4 10 0 2 0) 1)"
  "rt_matches (ip4 10 0 1 9) (ex_route (ip4 10 0 1 0) 0)"
  "\<not> rt_matches (ip4 10 0 2 5) (ex_route (ip4 10 0 1 0) 0)"
  "\<not> rt_matches (ip4 10 0 2 77) (ex_route (ip4 10 0 1 0) 0)"
  "\<not> rt_matches (ip4 10 0 1 9) (ex_route (ip4 10 0 2 0) 1)"
  "0 < ip4 255 255 255 0"
  by code_simp+

lemma ex_routes:
  "lpm (packet (ip_table ex_world)) (ip4 10 0 2 5) = Some (1, ex_route (ip4 10 0 2 0) 1)"
  "lpm (packet (ip_table ex_world)) (ip4 10 0 2 77) = Some (1, ex_route (ip4 10 0 2 0) 1)"
  "lpm (packet (ip_table ex_world)) (ip4 10 0 1 9) = Some (0, ex_route (ip4 10 0 1 0) 0)"
proof -
  have "netmask (ex_route sub i) = ip4 255 255 255 0" for sub i by (simp add: ex_route_def)
  then show "lpm (packet (ip_table ex_world)) (ip4 10 0 2 5) = Some (1, ex_route (ip4 10 0 2 0) 1)"
    "lpm (packet (ip_table ex_world)) (ip4 10 0 2 77) = Some (1, ex_route (ip4 10 0 2 0) 1)"
    "lpm (packet (ip_table ex_world)) (ip4 10 0 1 9) = Some (0, ex_route (ip4 10 0 1 0) 0)"
    by (simp_all add: ex_table ex_matches ex_matches(1,2) [simplified])
qed

lemma ip4_byte3: "ucast (drop_bit 24 (ip4 a b c d)) = d"
  by (rule bit_word_eqI) (auto simp: ip4_def bit_simps dest: bit_imp_le_length)

lemma ip4_byte0: "ucast (ip4 a b c d) = a"
  by (rule bit_word_eqI) (auto simp: ip4_def bit_simps)

lemma ip4_neq: "d \<noteq> d' \<Longrightarrow> ip4 a b c d \<noteq> ip4 a' b' c' d'"
  by (metis ip4_byte3)

lemma ip4_neq_spf: "ip4 10 b c d \<noteq> 0x050000E0"
proof
  assume "ip4 10 b c d = 0x050000E0"
  then have "(ucast (ip4 10 b c d) :: byte) = ucast (0x050000E0 :: addr_ip)" by simp
  then show False by (simp add: ip4_byte0)
qed

lemma ex_in_transit:
  "in_transit ex_world (ex_frame ex_transit)" "in_transit ex_world (ex_frame ex_expired)"
  "in_transit ex_world (ex_frame ex_unresolved)"
proof -
  have own: "\<forall>i<num_interfaces ex_world. if_ip (interface ex_world ! i) \<noteq> ip4 10 0 2 x"
    if "x \<noteq> 1" for x
    using that by (auto simp: ex_world_def ex_intf_def less_2_cases_iff ip4_neq)
  have spf: "\<not> for_ospf p" if "ip4_dst_ip p = ip4 10 0 2 x" for p x
    using that by (simp add: for_ospf_def ALLSPFRouters_def ip4_neq_spf)
  show "in_transit ex_world (ex_frame ex_transit)" "in_transit ex_world (ex_frame ex_expired)"
    "in_transit ex_world (ex_frame ex_unresolved)"
    using own [of 5] own [of 77] spf ex_destinations ex_headers ex_lengths
    by (simp_all add: in_transit_def ex_frame_def)
qed

lemma ex_world9_wok: "wok {} 2 ex_world9"
  unfolding ex_world9_def by (rule wok_set_cache [OF ex_world_wok])

lemma ex_arp_request_fields:
  "ntohs (arp_hardwaretype ex_arp_request) = ARP_HTYPE_ETH"
  "ntohs (arp_protocoltype ex_arp_request) = ARP_PTYPE_IP"
  "arp_hardwareaddresslength ex_arp_request = 6" "arp_protocoladdresslength ex_arp_request = 4"
  "ntohs (arp_opcode ex_arp_request) = ucast ARP_OPCODE_REQUEST"
  "arp_target_ip ex_arp_request = ip4 10 0 1 1" "42 \<le> length ex_arp_request"
  by code_simp+

lemma ex_recompute_ready: "recompute_ready ex_world"
proof -
  have fin: "finite (advertised ex_world)"
    by (simp add: advertised_def intf_lsas_def nb_lsas_def)
  have "advertised ex_world = intf_lsas ex_world 0 \<union> intf_lsas ex_world 1"
    by (auto simp: advertised_def ex_world_def less_2_cases_iff)
  moreover have "intf_lsas ex_world 0 = {own_lsa ex_world (interface ex_world ! 0)}"
    by (simp add: intf_lsas_def ex_world_def ex_intf_def)
  moreover have "intf_lsas ex_world 1 = insert (own_lsa ex_world (interface ex_world ! 1)) (nb_lsas ex_neighbour)"
    by (simp add: intf_lsas_def ex_world_def ex_intf_def)
  moreover have "card (nb_lsas ex_neighbour) \<le> 2"
    unfolding nb_lsas_def
    by (rule order.trans [OF card_image_le]) (simp_all add: lsas_of_def ex_neighbour_def card_insert_if)
  ultimately have "card (advertised ex_world) \<le> 4"
    using card_Un_le [of "intf_lsas ex_world 0" "intf_lsas ex_world 1"]
      card_insert_le_m1 [of 3 "nb_lsas ex_neighbour" "own_lsa ex_world (interface ex_world ! 1)"]
    by (simp add: insert_commute)
  then have "card (link_of ` advertised ex_world) \<le> 4"
    using card_image_le [OF fin, of link_of] by simp
  then show ?thesis using wok_locks [OF ex_world_wok] by (simp add: recompute_ready_def INT_MAX_def)
qed

lemma ex_negative_fields:
  "u32_at ex_negative 62 = 0xFFFFFFFF" "generatechecksum (drop 34 ex_negative) 20 = Inr 0"
  "u32_at ex_negative 38 \<noteq> ip4 10 0 1 1"
  by code_simp+

end
