(* ===== verification/Spec2Isabelle.thy ===== *)
theory Spec2Isabelle
  imports LinkState WorkQueue SrCommon LwMem LwTcpNet LwTcpFaults Examples
begin

text \<open>
  \<^bold>\<open>A verification library for the software router.\<close>

  The program is the router under \<open>src/SW_stub\<close>: Ethernet frames reach \<open>router_handle_packet\<close>
  (\<open>sr_router.c\<close>) from the driver through a work queue; ARP (\<open>arp.c\<close>) and IP (\<open>ip.c\<close>) handle them;
  IP forwards transit packets by longest prefix match, answers expired ones with ICMP
  (\<open>icmp_type.c\<close>), and gives local ones to ICMP, PWOSPF (\<open>pwospf.c\<close>), DNS (\<open>dns.c\<close>) or TCP (\<open>lwtcp/\<close>).
  PWOSPF keeps the neighbours and their link-state advertisements, from which
  \<open>djikstra_recompute\<close> (\<open>djikstra.c\<close>) computes the dynamic routes.  Threads age the ARP cache, the
  packets that wait for ARP, and the neighbours.  All tables are instances of one growable
  array (\<open>dataqueue.c\<close>).

  \<^bold>\<open>Conventions.\<close>  The definitions follow the default build (the MININET mode) on a
  little-endian x86-64 host.  A C function is a HOL function on the record \<open>world\<close> (the router
  with its tables, the frames sent, the datagrams given to TCP) or, for the TCP stack, on the
  record \<open>tcp\<close>.  Fallible functions return \<open>fault + 'a\<close>: an access outside an object, a null or
  dangling pointer, an invalid \<open>free\<close>, a failed \<open>assert\<close>, a call of \<open>die\<close>, a lock that is taken
  twice, and a division by zero are values, and a theorem that an operation returns says that
  none of them happens.  Machine integers are words of their width, frames are byte lists, and
  fields are read and written at the offsets of the packed structs.  The clock, the result of
  the driver's output function, the contents of uninitialised memory and of the padding that
  \<open>memcmp\<close> compares, and the success of \<open>malloc\<close> in the TCP stack come from the records \<open>env\<close> and
  \<open>tcp_env\<close>, the callbacks of a TCP application from the record \<open>app\<close>.  Handlers run one after the other; locks are flags, so that a lock
  that is never released or taken twice is visible.  Printing and statistics are left out.

  \<^bold>\<open>The router.\<close>
  \<^item> \<open>Prelude\<close>: results and their rules (\<open>safe F P r\<close>: the result satisfies \<open>P\<close> or is a fault of \<open>F\<close>),
    loops, byte buffers.
  \<^item> \<open>Checksum\<close>: \<open>generatechecksum\<close> and \<open>malloc_udp_pseudo_header\<close> (\<open>globals.c\<close>); the locale
    \<open>checksummed\<close> with its instances for the IP, ICMP and PWOSPF headers.
  \<^item> \<open>Dataqueue\<close>: every operation of \<open>dataqueue.c\<close> on its parallel arrays, the locale \<open>table\<close> of
    what its clients rely on and the interpretation on the operations; \<open>dataqueue_refines_list\<close>.
  \<^item> \<open>RouterState\<close>: the structs of \<open>packets.h\<close>, \<open>sr_interface.h\<close> and \<open>sr_router.h\<close>, frames, output.
  \<^item> \<open>RouteTable\<close>, \<open>IpHeader\<close>, \<open>Ip\<close>: \<open>ip.c\<close> and \<open>icmp_type.c\<close>.  \<open>ip_onreceive\<close> and the ICMP generators call
    each other; the recursion is cut by fuel, and \<open>ip_onreceive_depth\<close> shows that two levels
    are enough.
  \<^item> \<open>Arp\<close>: \<open>arp.c\<close> up to reception.  \<open>Pwospf\<close>: \<open>pwospf.c\<close>.  \<open>Dns\<close>: \<open>dns.c\<close> up to the database file.
  \<^item> \<open>ShortestPath\<close>, \<open>Djikstra\<close>, \<open>DjikstraRoutes\<close>: \<open>djikstra.c\<close>; the locale \<open>hop_graph\<close> of walks in an
    adjacency matrix; the routes are the shortest paths of the link-state database.
  \<^item> \<open>Router\<close>: \<open>sr_router.c\<close>, reception of ARP, the maintenance threads, \<open>sr_integration.c\<close>, the
    outstanding pings of \<open>cli_ping.c\<close>.
  \<^item> \<open>Invariant\<close>, \<open>Reception\<close>, \<open>IpPath\<close>, \<open>Pending\<close>, \<open>System\<close>: the invariant of the running router, one
    preservation lemma per operation, and the step relation \<open>router_step\<close> whose reachable
    states all satisfy it.  The loop over the waiting packets may append to the list it walks;
    \<open>process_arpipqueue_ends\<close> shows that one iteration more than there are waiting packets is enough.
  \<^item> \<open>Forwarding\<close>, \<open>LinkState\<close>: from a received frame to the frame that leaves; what PWOSPF packets
    mean to their receiver.
  \<^item> \<open>WorkQueue\<close> (\<open>sr_work_queue.c\<close>), \<open>SrCommon\<close> (\<open>sr_common.c\<close>), \<open>Examples\<close> (a concrete router for the
    instances of the theorems).

  \<^bold>\<open>The TCP stack\<close> (\<open>lwtcp/\<close>).
  \<^item> \<open>LwMem\<close>: the memory manager of \<open>mem.c\<close> at its widths; blocks tile the array in every state
    that callers reach, and allocations never overlap.
  \<^item> \<open>LwInet\<close>: \<open>inet.c\<close>; the checksum of a chain of buffers is the router's own checksum.
  \<^item> \<open>LwTcp\<close>: control blocks, segments, buffer chains, globals.  \<open>LwTcpOut\<close>: \<open>tcp_output.c\<close>.
    \<open>LwTcpPcb\<close>: \<open>tcp.c\<close>.  \<open>LwTcpIn\<close>: \<open>tcp_input.c\<close> and \<open>sr_lwtcp_glue.c\<close>.  The loop of \<open>tcp_enqueue\<close> is
    bounded by the pool of segments, that of \<open>tcp_slowtmr\<close> by the length of the list it walks,
    that of \<open>tcp_new_port\<close> by the number of control blocks; option parsing, whose state is an
    8-bit index, gets 257 steps.
  \<^item> \<open>LwTcpRecv\<close>: the receiving side of a connection.  \<open>tcp_delivers_stream\<close> follows the segments of a
    stream through \<open>tcp_receive\<close>, in any order, with losses, duplicates and overlaps.
  \<^item> \<open>LwTcpSend\<close>: the sending side.  The queues \<open>unacked\<close> and \<open>unsent\<close> hold the written bytes from the first
    one that is not acknowledged on, through \<open>tcp_write\<close>, \<open>tcp_output\<close>, acknowledgements and both
    kinds of retransmission, and every datagram carries the bytes its sequence number says.
  \<^item> \<open>LwTcpNet\<close>: the two sides and a network between them.  \<open>tcp_end_to_end\<close> is the contract of
    TCP, a reliable byte stream, for connections that carry less than \<open>2 ^ 30\<close> bytes; the bound keeps the
    signed comparisons of sequence numbers meaningful for arbitrarily old duplicates.  The handshake and the
    closing of a connection are modelled but not part of this theorem.
  \<^item> \<open>LwTcpFaults\<close>: inputs on which the stack fails: an option list that is parsed forever, a \<open>FIN\<close> in
    front of buffered data, a connection nobody accepts, and the timeout after which nothing is sent again.
  \<^bold>\<open>Not modelled.\<close>  The command line and its output (\<open>cli/\<close>), the socket layer, mailboxes and
  threads of the TCP stack (\<open>api_lib.c\<close>, \<open>api_msg.c\<close>, \<open>sockets.c\<close>, \<open>sys_arch.c\<close>, \<open>tcpip.c\<close>), its UDP and IP
  layers, which the router does not call, start-up and drivers (\<open>sr_main.c\<close>, \<open>sr_base.c\<close>,
  \<open>sr_mininet_extension.c\<close>, \<open>sr_cpu_extension_nf2.c\<close>, \<open>sr_dumper.c\<close>, \<open>real_socket_helper.c\<close>), and the hardware projects under \<open>src/HW_stub\<close>: they are input and output,
  generated register maps, or code behind system calls whose behaviour is not in the
  sources.  Preemption between threads is not modelled either, so data races are outside of
  what the theorems say.
\<close>

section \<open>The running router\<close>





text \<open>
  C3: forwarding.  A transit packet (valid header, not addressed to the router, TTL above
  1) with a route and a resolved next hop leaves in exactly one frame, on the interface
  of the longest matching route: to the MAC address the ARP cache holds for the next
  hop, from the MAC address of that interface, with the TTL one less, a header that
  still passes \<open>ip_header_check\<close>, and every other byte of the datagram unchanged.
  Nothing else of the state changes.
\<close>

theorem ip_onreceive_forwards:
  assumes "world_ok w" and "in_transit w pi" and "1 < ip4_ttl (pi_packet pi)"
    and "lpm (packet (ip_table w)) (ip4_dst_ip (pi_packet pi)) = Some (k, e)"
    and "first_match (\<lambda>a. arp_ip a = hop_address e (ip4_dst_ip (pi_packet pi)))
           (packet (arp_cache w)) = Some (j, a)"
  shows "\<exists>i f. rt_interface e = Some i \<and> i < num_interfaces w
     \<and> ip_onreceive (Suc fuel) E pi w = Inr (w\<lparr>sent := sent w @ [(i, f)]\<rparr>)
     \<and> forwarded (wire_frame pi) (arp_mac a) (if_mac (interface w ! i)) f"
proof -
  have ok: "wok {} (num_interfaces w) w" using assms(1) by (simp add: world_ok_def)
  have ttl: "\<not> ip4_ttl (pi_packet pi) \<le> 1" using assms(3) by simp
  from in_transit_sent [OF ok assms(2) ttl assms(4,5), of "ip_onreceive fuel E" E]
  show ?thesis by (auto simp: ip_onreceive.simps)
qed

theorem ip_onreceive_forwards_witness:
  "\<exists>i f. rt_interface (ex_route (ip4 10 0 2 0) 1) = Some i \<and> i < num_interfaces ex_world
     \<and> ip_onreceive (Suc 0) ex_env (ex_frame ex_transit) ex_world =
         Inr (ex_world\<lparr>sent := sent ex_world @ [(i, f)]\<rparr>)
     \<and> forwarded (wire_frame (ex_frame ex_transit)) (MAC 2 0 0 0 2 5) (if_mac (interface ex_world ! i)) f"
proof -
  let ?a = "\<lparr>arp_ip = ip4 10 0 2 5, arp_mac = MAC 2 0 0 0 2 5, arp_tv = \<lparr>tv_sec = 2000, tv_usec = 0\<rparr>\<rparr>"
  have "\<exists>i f. rt_interface (ex_route (ip4 10 0 2 0) 1) = Some i \<and> i < num_interfaces ex_world
     \<and> ip_onreceive (Suc 0) ex_env (ex_frame ex_transit) ex_world =
         Inr (ex_world\<lparr>sent := sent ex_world @ [(i, f)]\<rparr>)
     \<and> forwarded (wire_frame (ex_frame ex_transit)) (arp_mac ?a) (if_mac (interface ex_world ! i)) f"
  proof (rule ip_onreceive_forwards [OF ex_world_ok ex_in_transit(1), where k = 1 and j = 0])
    show "1 < ip4_ttl (pi_packet (ex_frame ex_transit))"
      by (simp add: ex_frame_def ex_transit_def u8_at_def)
    show "lpm (packet (ip_table ex_world)) (ip4_dst_ip (pi_packet (ex_frame ex_transit))) =
        Some (1, ex_route (ip4 10 0 2 0) 1)"
      using ex_routes ex_destinations by (simp add: ex_frame_def)
    show "first_match (\<lambda>a. arp_ip a = hop_address (ex_route (ip4 10 0 2 0) 1)
        (ip4_dst_ip (pi_packet (ex_frame ex_transit)))) (packet (arp_cache ex_world)) = Some (0, ?a)"
      using ex_destinations by (simp add: ex_frame_def ex_world_def hop_address_def ex_route_def)
  qed
  then show ?thesis by simp
qed

text \<open>
  C9: an unresolved next hop.  A transit packet with a route whose next hop is not in the
  ARP cache is appended to the buffer of waiting packets, with its frame, the outgoing
  interface and the address that has to be resolved, and exactly one ARP request for
  that address is broadcast on that interface.
\<close>

theorem ip_onreceive_queues:
  assumes "world_ok w" and "in_transit w pi" and "1 < ip4_ttl (pi_packet pi)"
    and "lpm (packet (ip_table w)) (ip4_dst_ip (pi_packet pi)) = Some (k, e)"
    and "first_match (\<lambda>a. arp_ip a = hop_address e (ip4_dst_ip (pi_packet pi)))
           (packet (arp_cache w)) = None"
  shows "\<exists>i<num_interfaces w. rt_interface e = Some i
     \<and> ip_onreceive (Suc fuel) E pi w = Inr (w\<lparr>ticks := Suc (ticks w),
          iparp_buffer := queue_of sizeof_iparp_buffer_entry (packet (iparp_buffer w) @
            [\<lparr>ib_packet_info = pi\<lparr>pi_packet := wire_frame pi\<rparr>,
              reception_time = clock E (ticks w), sent_arps_count = 1,
              ib_len = sizeof_packet_info + int (unat (pi_len pi)), ib_intf = Some i,
              ib_dest = hop_address e (ip4_dst_ip (pi_packet pi))\<rparr>]),
          sent := sent w @ [(i, arp_request_frame (interface w ! i)
                                  (hop_address e (ip4_dst_ip (pi_packet pi))))]\<rparr>)"
proof -
  have ok: "wok {} (num_interfaces w) w" using assms(1) by (simp add: world_ok_def)
  have ttl: "\<not> ip4_ttl (pi_packet pi) \<le> 1" using assms(3) by simp
  from in_transit_queued [OF ok assms(2) ttl assms(4,5), of "ip_onreceive fuel E" E]
  show ?thesis by (simp add: ip_onreceive.simps)
qed

theorem ip_onreceive_queues_witness:
  "\<exists>i<num_interfaces ex_world. rt_interface (ex_route (ip4 10 0 2 0) 1) = Some i
     \<and> ip_onreceive (Suc 0) ex_env (ex_frame ex_unresolved) ex_world =
       Inr (ex_world\<lparr>ticks := Suc (ticks ex_world),
          iparp_buffer := queue_of sizeof_iparp_buffer_entry (packet (iparp_buffer ex_world) @
            [\<lparr>ib_packet_info = (ex_frame ex_unresolved)\<lparr>pi_packet := wire_frame (ex_frame ex_unresolved)\<rparr>,
              reception_time = clock ex_env (ticks ex_world), sent_arps_count = 1,
              ib_len = sizeof_packet_info + int (unat (pi_len (ex_frame ex_unresolved))), ib_intf = Some i,
              ib_dest = hop_address (ex_route (ip4 10 0 2 0) 1) (ip4_dst_ip (pi_packet (ex_frame ex_unresolved)))\<rparr>]),
          sent := sent ex_world @ [(i, arp_request_frame (interface ex_world ! i)
            (hop_address (ex_route (ip4 10 0 2 0) 1) (ip4_dst_ip (pi_packet (ex_frame ex_unresolved)))))]\<rparr>)"
proof (rule ip_onreceive_queues [OF ex_world_ok ex_in_transit(3), where k = 1])
  show "1 < ip4_ttl (pi_packet (ex_frame ex_unresolved))"
    by (simp add: ex_frame_def ex_unresolved_def u8_at_def)
  show "lpm (packet (ip_table ex_world)) (ip4_dst_ip (pi_packet (ex_frame ex_unresolved))) =
      Some (1, ex_route (ip4 10 0 2 0) 1)"
    using ex_routes ex_destinations by (simp add: ex_frame_def)
  show "first_match (\<lambda>a. arp_ip a = hop_address (ex_route (ip4 10 0 2 0) 1)
      (ip4_dst_ip (pi_packet (ex_frame ex_unresolved)))) (packet (arp_cache ex_world)) = None"
    using ex_destinations
    by (simp add: ex_frame_def ex_world_def hop_address_def ex_route_def ip4_neq)
qed

text \<open>
  C10: an expired transit packet.  When the sender of the packet is routable and its next
  hop is resolved, exactly one frame leaves: an ICMP time exceeded message with valid IP
  and ICMP checksums, from the address of the outgoing interface to the sender.  Its
  data begins with the IP header and the first 8 bytes of the datagram; the other 28
  bytes are whatever the stack holds behind the array \<open>data\<close> of
  \<open>icmp_type_time_exceeded\<close>.
\<close>

theorem ip_onreceive_time_exceeded:
  assumes "world_ok w" and "in_transit w pi" and "ip4_ttl (pi_packet pi) \<le> 1"
    and "42 \<le> length (pi_packet pi)"
    and "\<And>i. i < num_interfaces w \<Longrightarrow> if_ip (interface w ! i) \<noteq> ip4_src_ip (pi_packet pi)"
    and "lpm (packet (ip_table w)) (ip4_src_ip (pi_packet pi)) = Some (k, e)"
    and "first_match (\<lambda>a. arp_ip a = hop_address e (ip4_src_ip (pi_packet pi)))
           (packet (arp_cache w)) = Some (j, a)"
  shows "\<exists>i q f. i < num_interfaces w \<and> rt_interface e = Some i
     \<and> ip_onreceive (Suc (Suc fuel)) E pi w = Inr (w\<lparr>sent := sent w @ [(i, f)]\<rparr>)
     \<and> icmp_message (if_ip (interface w ! i)) (ip4_src_ip (pi_packet pi))
          ICMP_TYPE_TIME_EXCEEDED 0 (icmp_error_data E (pi_packet pi)) q
     \<and> forwarded q (arp_mac a) (if_mac (interface w ! i)) f
     \<and> slice 42 28 f = slice 14 28 (pi_packet pi)
     \<and> slice 70 28 f = map (stack_bytes E) [0..<28]"
proof -
  have ok: "wok {} (num_interfaces w) w" using assms(1) by (simp add: world_ok_def)
  obtain i q f where "i < num_interfaces w" "rt_interface e = Some i"
      and q: "icmp_message (if_ip (interface w ! i)) (ip4_src_ip (pi_packet pi))
          ICMP_TYPE_TIME_EXCEEDED 0 (icmp_error_data E (pi_packet pi)) q"
        "forwarded q (arp_mac a) (if_mac (interface w ! i)) f"
      and "ip_onreceive (Suc (Suc fuel)) E pi w = Inr (w\<lparr>sent := sent w @ [(i, f)]\<rparr>)"
    using expired_sent [OF ok assms(2-4) assms(5) assms(6,7), of E fuel] by blast
  with icmp_error_leak [OF q assms(4)] show ?thesis by blast
qed

theorem ip_onreceive_time_exceeded_witness:
  "\<exists>i q f. i < num_interfaces ex_world9 \<and> rt_interface (ex_route (ip4 10 0 1 0) 0) = Some i
     \<and> ip_onreceive (Suc (Suc 0)) ex_env (ex_frame ex_expired) ex_world9 =
         Inr (ex_world9\<lparr>sent := sent ex_world9 @ [(i, f)]\<rparr>)
     \<and> icmp_message (if_ip (interface ex_world9 ! i)) (ip4_src_ip (pi_packet (ex_frame ex_expired)))
          ICMP_TYPE_TIME_EXCEEDED 0 (icmp_error_data ex_env (pi_packet (ex_frame ex_expired))) q
     \<and> forwarded q (arp_mac ex_host9) (if_mac (interface ex_world9 ! i)) f
     \<and> slice 42 28 f = slice 14 28 (pi_packet (ex_frame ex_expired))
     \<and> slice 70 28 f = map (stack_bytes ex_env) [0..<28]"
proof (rule ip_onreceive_time_exceeded [where k = 0 and j = 0])
  show "world_ok ex_world9"
    using ex_world9_wok wokD(1) [OF ex_world9_wok] by (simp add: world_ok_def)
  show "in_transit ex_world9 (ex_frame ex_expired)"
    using ex_in_transit(2) by (simp add: in_transit_def ex_world9_def)
  show "ip4_ttl (pi_packet (ex_frame ex_expired)) \<le> 1" "42 \<le> length (pi_packet (ex_frame ex_expired))"
    by (simp_all add: ex_frame_def ex_expired_def u8_at_def)
  show "if_ip (interface ex_world9 ! i) \<noteq> ip4_src_ip (pi_packet (ex_frame ex_expired))"
    if "i < num_interfaces ex_world9" for i
    using that ex_destinations
    by (auto simp: ex_world9_def ex_world_def ex_frame_def ex_intf_def less_2_cases_iff ip4_neq)
  show "lpm (packet (ip_table ex_world9)) (ip4_src_ip (pi_packet (ex_frame ex_expired))) =
      Some (0, ex_route (ip4 10 0 1 0) 0)"
    using ex_routes ex_destinations by (simp add: ex_frame_def ex_world9_def)
  show "first_match (\<lambda>a. arp_ip a = hop_address (ex_route (ip4 10 0 1 0) 0)
      (ip4_src_ip (pi_packet (ex_frame ex_expired)))) (packet (arp_cache ex_world9)) = Some (0, ex_host9)"
    using ex_destinations
    by (simp add: ex_frame_def ex_world9_def hop_address_def ex_route_def ex_host9_def)
qed



text \<open>
  C12: an ARP request for the address of the interface it arrives on is answered with
  one ARP reply to the sender that carries the address pair of the interface, and the
  address pair of the sender is learned with the request timeout.  The waiting packets
  that are processed next are those for the router's own address: the reply was written
  into the received frame before the address of the sender is read from it.
\<close>

theorem arp_onreceive_answers:
  assumes "world_ok w" and "pi_interface pi = Some i" and "i < num_interfaces w"
    and "arp_request_for (interface w ! i) (pi_packet pi)"
    and "42 \<le> unat (pi_len pi)" and "unat (pi_len pi) \<le> length (pi_packet pi)"
  shows "\<exists>f. arp_reply (interface w ! i) (arp_sender_ip (pi_packet pi)) (arp_sender_mac (pi_packet pi)) f
    \<and> arp_onreceive steps fuel E pi w = process_arpipqueue steps fuel E (if_ip (interface w ! i))
        (w\<lparr>arp_cache := queue_of sizeof_arp_cache_entry (arp_learn (arp_sender_ip (pi_packet pi))
              (arp_sender_mac (pi_packet pi))
              (stamp (clock E (ticks w)) ARP_CACHE_TIMEOUT_REQUEST) (packet (arp_cache w))),
            ticks := Suc (ticks w), sent := sent w @ [(i, f)]\<rparr>)"
proof -
  have ok: "wok {} (num_interfaces w) w" using assms(1) by (simp add: world_ok_def)
  show ?thesis by (rule arp_onreceive_request [OF ok assms(2-6)])
qed

theorem arp_onreceive_answers_witness:
  "\<exists>f. arp_reply (interface ex_world ! 0) (arp_sender_ip (pi_packet (ex_frame ex_arp_request)))
        (arp_sender_mac (pi_packet (ex_frame ex_arp_request))) f
    \<and> arp_onreceive 1 2 ex_env (ex_frame ex_arp_request) ex_world =
        process_arpipqueue 1 2 ex_env (if_ip (interface ex_world ! 0))
        (ex_world\<lparr>arp_cache := queue_of sizeof_arp_cache_entry
              (arp_learn (arp_sender_ip (pi_packet (ex_frame ex_arp_request)))
                (arp_sender_mac (pi_packet (ex_frame ex_arp_request)))
                (stamp (clock ex_env (ticks ex_world)) ARP_CACHE_TIMEOUT_REQUEST)
                (packet (arp_cache ex_world))),
            ticks := Suc (ticks ex_world), sent := sent ex_world @ [(0, f)]\<rparr>)"
proof (rule arp_onreceive_answers [OF ex_world_ok])
  show "pi_interface (ex_frame ex_arp_request) = Some 0" "0 < num_interfaces ex_world"
    "42 \<le> unat (pi_len (ex_frame ex_arp_request))"
    "unat (pi_len (ex_frame ex_arp_request)) \<le> length (pi_packet (ex_frame ex_arp_request))"
    using ex_lengths by (simp_all add: ex_frame_def ex_world_def)
  show "arp_request_for (interface ex_world ! 0) (pi_packet (ex_frame ex_arp_request))"
    using ex_arp_request_fields by (simp add: ex_world_def ex_intf_def ex_frame_def arp_request_for_def)
qed

text \<open>
  C13: the recursion between \<open>ip_onreceive\<close> and the ICMP functions is at most two deep.
  In a state that satisfies the invariant, more than two levels give the same result as
  two, and with two levels the bound on the depth is never what the computation stops at.
\<close>

theorem ip_onreceive_depth:
  assumes "world_ok w" and "frame_ok (num_interfaces w) pi" and "memcmp_sound E"
  shows "ip_onreceive (Suc (Suc fuel)) E pi w = ip_onreceive 2 E pi w
       \<and> ip_onreceive 2 E pi w \<noteq> Inl OutOfFuel"
proof -
  have ok: "wok {} (num_interfaces w) w" using assms(1) by (simp add: world_ok_def)
  have "safe wire_faults (wok {} (num_interfaces w)) (ip_onreceive 2 E pi w)"
    using ip_onreceive_ok [OF ok assms(2,3), of 0] by (simp add: numeral_2_eq_2)
  then have "ip_onreceive 2 E pi w \<noteq> Inl OutOfFuel" by auto
  with ip_onreceive_two [OF ok] show ?thesis by blast
qed

theorem ip_onreceive_depth_witness:
  "ip_onreceive (Suc (Suc 3)) ex_env (ex_frame ex_expired) ex_world =
     ip_onreceive 2 ex_env (ex_frame ex_expired) ex_world
   \<and> ip_onreceive 2 ex_env (ex_frame ex_expired) ex_world \<noteq> Inl OutOfFuel"
  by (rule ip_onreceive_depth [OF ex_world_ok _ ex_env_sound])
     (use ex_frame_ok [of ex_expired] ex_lengths wokD(1) [OF ex_world_wok] in simp)



text \<open>
  C15: a pass of \<open>thread_arpipqueue_maintain\<close> ends as well, with the same bound and
  without a condition on the waiting packets, and keeps the invariant; its only faults
  are reads outside a frame or outside the interface array (the position in the buffer
  is used as an interface number).
\<close>

theorem thread_arpipqueue_maintain_ends:
  assumes "world_ok w" and "memcmp_sound E" and "length (packet (iparp_buffer w)) < steps"
  shows "safe {OutOfBounds, NullDeref} world_ok
           (thread_arpipqueue_maintain_pass steps (Suc (Suc fuel)) E now w)"
proof -
  have ok: "wok {} (num_interfaces w) w" using assms(1) by (simp add: world_ok_def)
  have "length (packet (iparp_buffer w)) - 0 < steps" using assms(3) by simp
  from maintain_from_ends [OF ip_onreceive_receives [OF assms(2), where f = fuel] ok this,
      where now = now and E = E]
  have "safe wire_faults (wok {} (num_interfaces w))
      (thread_arpipqueue_maintain_pass steps (Suc (Suc fuel)) E now w)"
    by (simp add: thread_arpipqueue_maintain_pass_def)
  then show ?thesis
    by (rule safe_mono) (auto simp: wire_faults_def intro: world_okI)
qed

theorem thread_arpipqueue_maintain_ends_witness:
  "safe {OutOfBounds, NullDeref} world_ok
     (thread_arpipqueue_maintain_pass 1 (Suc (Suc 0)) ex_env ex_tv ex_world)"
  by (rule thread_arpipqueue_maintain_ends [OF ex_world_ok ex_env_sound]) (simp add: ex_world_def)

section \<open>Routing\<close>

text \<open>
  C5: \<open>djikstra_recompute\<close> computes the shortest-path routes.  From a state with
  well-formed, unlocked tables it returns, every lock is released, and only the routing
  table changes.  Its entries are the static entries and, for each advertised subnet
  that is not the subnet of the chosen interface itself, one dynamic entry through the
  interface from which the subnet is the fewest hops away (the first such interface),
  with the gateway of that interface and the number of hops as metric.  The table is
  sorted by mask.  Hops are counted in the graph that joins two subnets when one router
  advertises both.
\<close>

theorem djikstra_recompute_shortest:
  assumes "recompute_ready w" and "memcmp_sound E"
    and "set (static_routes w) \<union> spf_routes w (link_of ` advertised w) \<noteq> {}"
  shows "\<exists>es. djikstra_recompute E w = Inr (w\<lparr>ip_table := queue_of sizeof_rtable_entry es\<rparr>)
     \<and> set es = set (static_routes w) \<union> spf_routes w (link_of ` advertised w)
     \<and> sorted (map netmask es)"
  by (rule djikstra_recompute_routes [OF assms])

theorem djikstra_recompute_shortest_witness:
  "\<exists>es. djikstra_recompute ex_env ex_world =
         Inr (ex_world\<lparr>ip_table := queue_of sizeof_rtable_entry es\<rparr>)
     \<and> set es = set (static_routes ex_world) \<union> spf_routes ex_world (link_of ` advertised ex_world)
     \<and> sorted (map netmask es)"
  by (rule djikstra_recompute_shortest [OF ex_recompute_ready ex_env_sound])
     (simp add: static_routes_def ex_table ex_route_def)



text \<open>
  C17: with neither a static nor a dynamic route to write, \<open>djikstra_recompute\<close> frees a
  pointer that was never assigned.
\<close>

theorem djikstra_recompute_no_routes:
  assumes "recompute_ready w"
    and "set (static_routes w) \<union> spf_routes w (link_of ` advertised w) = {}"
  shows "djikstra_recompute E w = Inl Uninit"
  by (rule djikstra_recompute_empty [OF assms])

theorem djikstra_recompute_no_routes_witness:
  "djikstra_recompute ex_env (ex_world\<lparr>num_interfaces := 0, ip_table := queue_init\<rparr>) = Inl Uninit"
  by (rule djikstra_recompute_no_routes)
     (simp_all add: recompute_ready_def recompute_state_def intfs_wf_def unlocked_intfs_def
       ex_world_def ROUTER_MAX_INTERFACES_def table_inv_def advertised_def static_routes_def
       spf_routes_def INT_MAX_def)

section \<open>Checksums\<close>

text \<open>
  C18: filling the checksum field of a header makes the header verify.  For a header
  of \<open>n\<close> bytes at \<open>base\<close> with a 16-bit aligned checksum field at \<open>off\<close>,
  \<open>checksum_fill\<close> returns, changes only the two bytes of the field, and
  \<open>generatechecksum\<close> over the result is 0.
\<close>

theorem checksum_fill_verifies:
  assumes "base \<le> off" and "even (off - base)"
    and "off + 2 \<le> base + n" and "base + n \<le> length p" and "n < 130000"
  shows "\<exists>p'. checksum_fill base off (int n) p = Inr p'
           \<and> generatechecksum (drop base p') (int n) = Inr 0
           \<and> length p' = length p
           \<and> (\<forall>i. i \<noteq> off \<and> i \<noteq> off + 1 \<longrightarrow> u8_at p' i = u8_at p i)"
proof -
  have "checksummed base off" using assms(1,2) by unfold_locales
  then obtain c where "checksum_fill base off (int n) p = Inr (put16 off c p)"
      "generatechecksum (drop base (put16 off c p)) (int n) = Inr 0"
    using checksummed.fill_verifies assms(3,4,5) by blast
  then show ?thesis by (intro exI [of _ "put16 off c p"]) (auto simp: wire)
qed

theorem checksum_fill_verifies_witness:
  "\<exists>p'. checksum_fill 14 24 (int 20) ex_transit = Inr p'
     \<and> generatechecksum (drop 14 p') (int 20) = Inr 0
     \<and> length p' = length ex_transit
     \<and> (\<forall>i. i \<noteq> 24 \<and> i \<noteq> 24 + 1 \<longrightarrow> u8_at p' i = u8_at ex_transit i)"
  by (rule checksum_fill_verifies) (simp_all add: ex_transit_def)


section \<open>Routing table\<close>

text \<open>
  C8: longest prefix match.  On a well-formed table \<open>ip_longestprefixmatch\<close> returns and leaves the table
  alone.  It answers \<open>-1\<close> (\<open>None\<close>) exactly when every matching entry has mask 0.
  Otherwise the answer is an entry of the table that matches, its mask is the
  largest among the matching entries, and it is the first entry with that mask.
\<close>

theorem ip_longestprefixmatch_longest:
  assumes "table_inv sizeof_rtable_entry t"
  shows "\<exists>r. ip_longestprefixmatch t ip = Inr (r, t) \<and>
    (case r of
       None \<Rightarrow> \<forall>e\<in>set (packet t). rt_matches ip e \<longrightarrow> netmask e = 0
     | Some (i, e) \<Rightarrow> 0 \<le> i \<and> nat i < length (packet t) \<and> packet t ! nat i = e
         \<and> rt_matches ip e \<and> netmask e \<noteq> 0
         \<and> (\<forall>x\<in>set (packet t). rt_matches ip x \<longrightarrow> netmask x \<le> netmask e)
         \<and> (\<forall>j<nat i. rt_matches ip (packet t ! j) \<longrightarrow> netmask (packet t ! j) < netmask e))"
proof -
  obtain es where t: "t = queue_of sizeof_rtable_entry es"
    using assms table_inv_iff by metis
  show ?thesis
  proof (cases "lpm es ip")
    case None
    then show ?thesis using t lpm_None_iff [of ip es] by (simp add: queue_simps)
  next
    case (Some r)
    obtain i e where r: "r = (i, e)" by force
    then obtain k where "k < length es" "i = int k" "es ! k = e" "rt_matches ip e" "0 < netmask e"
        "\<forall>x\<in>set es. rt_matches ip x \<longrightarrow> netmask x \<le> netmask e"
        "\<forall>j<k. rt_matches ip (es ! j) \<longrightarrow> netmask (es ! j) < netmask e"
      using lpm_SomeD Some by blast
    then show ?thesis using t Some r by (simp add: queue_simps)
  qed
qed

theorem ip_longestprefixmatch_longest_witness:
  "\<exists>r. ip_longestprefixmatch (ip_table ex_world) (ip4 10 0 2 5) = Inr (r, ip_table ex_world) \<and>
    (case r of
       None \<Rightarrow> \<forall>e\<in>set (packet (ip_table ex_world)). rt_matches (ip4 10 0 2 5) e \<longrightarrow> netmask e = 0
     | Some (i, e) \<Rightarrow> 0 \<le> i \<and> nat i < length (packet (ip_table ex_world))
         \<and> packet (ip_table ex_world) ! nat i = e
         \<and> rt_matches (ip4 10 0 2 5) e \<and> netmask e \<noteq> 0
         \<and> (\<forall>x\<in>set (packet (ip_table ex_world)).
              rt_matches (ip4 10 0 2 5) x \<longrightarrow> netmask x \<le> netmask e)
         \<and> (\<forall>j<nat i. rt_matches (ip4 10 0 2 5) (packet (ip_table ex_world) ! j)
              \<longrightarrow> netmask (packet (ip_table ex_world) ! j) < netmask e))"
  by (rule ip_longestprefixmatch_longest) (simp add: ex_world_def)



section \<open>IP headers\<close>

text \<open>
  C25: every header \<open>generate_ipv4_header\<close> writes is accepted by \<open>ip_header_check\<close> and
  carries the given addresses, protocol and length; the bytes outside the header do not
  change.
\<close>

theorem generated_header_accepted:
  assumes "34 \<le> length p" and "0 \<le> sz" and "20 + sz < 65536"
  shows "\<exists>q. generate_ipv4_header src sz prot dst p = Inr q \<and> ip_header_check q = Inr True
     \<and> length q = length p \<and> ip_header_is src (20 + sz) 65 prot dst q
     \<and> (\<forall>i. i < 14 \<or> 34 \<le> i \<longrightarrow> u8_at q i = u8_at p i)"
proof -
  have "uint (word_of_int (20 + sz) :: u16) = 20 + sz"
    using assms by (simp only: uint_word_of_int) (simp add: take_bit_eq_mod)
  then have "(word_of_int (20 + sz) :: u16) \<noteq> 0" using assms(2) uint_0_eq by fastforce
  from generate_ipv4_header_safe [OF assms(1) this, of src prot dst]
  show ?thesis using assms(1) by (auto simp: safe_empty_iff ip_header_check_iff)
qed

theorem generated_header_accepted_witness:
  "\<exists>q. generate_ipv4_header (ip4 10 0 1 1) 8 IP_TYPE_UDP (ip4 10 0 2 5) ex_transit = Inr q
     \<and> ip_header_check q = Inr True \<and> length q = length ex_transit
     \<and> ip_header_is (ip4 10 0 1 1) (20 + 8) 65 IP_TYPE_UDP (ip4 10 0 2 5) q
     \<and> (\<forall>i. i < 14 \<or> 34 \<le> i \<longrightarrow> u8_at q i = u8_at ex_transit i)"
  by (rule generated_header_accepted) (simp_all add: ex_lengths)



section \<open>The ARP cache\<close>

text \<open>
  C27: learning.  After \<open>arp_putincache\<close> of an address pair, looking the IP address up
  gives that MAC address, unless another entry already holds the IP address while the
  MAC address is known under a different one.
\<close>

theorem arp_learned_found:
  assumes "arp_cache w = queue_of sizeof_arp_cache_entry xs" and "distinct (map arp_mac xs)"
    and "\<And>e. e \<in> set xs \<Longrightarrow> arp_ip e = ip \<Longrightarrow> arp_mac e = mac \<or> mac \<notin> set (map arp_mac xs)"
  shows "\<exists>w' i e. arp_putincache E ip mac timeout w = Inr w'
     \<and> arp_getcachebyip (arp_cache w') ip = Inr (Some (i, e), arp_cache w') \<and> arp_mac e = mac"
proof -
  let ?ys = "arp_learn ip mac (stamp (clock E (ticks w)) timeout) xs"
  obtain i e where "first_match (\<lambda>e. arp_ip e = ip) ?ys = Some (i, e)" "arp_mac e = mac"
    using arp_learn_lookup [where ip = ip and tv = "stamp (clock E (ticks w)) timeout", OF assms(2,3)] by auto
  then show ?thesis
    by (simp add: arp_putincache_of [OF assms(1)] arp_getcachebyip_def queue_simps)
qed

theorem arp_learned_found_witness:
  "\<exists>w' i e. arp_putincache ex_env (ip4 10 0 1 9) (MAC 2 0 0 0 1 9) 120 ex_world = Inr w'
     \<and> arp_getcachebyip (arp_cache w') (ip4 10 0 1 9) = Inr (Some (i, e), arp_cache w')
     \<and> arp_mac e = MAC 2 0 0 0 1 9"
  by (rule arp_learned_found [where xs = "packet (arp_cache ex_world)"])
     (auto simp: ex_world_def)

text \<open>
  C28: learning keeps the MAC addresses of the cache distinct, and the new pair is bound
  to the given timeout: to the clock plus the timeout, or to -1 for a static entry.
\<close>

theorem arp_cache_macs_distinct:
  assumes "arp_cache w = queue_of sizeof_arp_cache_entry xs" and "distinct (map arp_mac xs)"
  shows "\<exists>w' ys. arp_putincache E ip mac timeout w = Inr w'
     \<and> arp_cache w' = queue_of sizeof_arp_cache_entry ys \<and> distinct (map arp_mac ys)
     \<and> (\<exists>e\<in>set ys. arp_mac e = mac \<and> arp_ip e = ip \<and> tv_sec (arp_tv e) =
          (if timeout = -1 then -1 else timeout + tv_sec (clock E (ticks w))))"
proof -
  let ?tv = "stamp (clock E (ticks w)) timeout"
  obtain e where "e \<in> set (arp_learn ip mac ?tv xs)" "arp_mac e = mac" "arp_ip e = ip" "arp_tv e = ?tv"
    using arp_learn_mac_bound by blast
  then show ?thesis
    using arp_learn_distinct [OF assms(2)]
    by (auto simp: arp_putincache_of [OF assms(1)] stamp_def intro!: bexI [of _ e])
qed

theorem arp_cache_macs_distinct_witness:
  "\<exists>w' ys. arp_putincache ex_env (ip4 10 0 1 9) (MAC 2 0 0 0 2 5) (-1) ex_world = Inr w'
     \<and> arp_cache w' = queue_of sizeof_arp_cache_entry ys \<and> distinct (map arp_mac ys)
     \<and> (\<exists>e\<in>set ys. arp_mac e = MAC 2 0 0 0 2 5 \<and> arp_ip e = ip4 10 0 1 9 \<and> tv_sec (arp_tv e) =
          (if (-1 :: int) = -1 then -1 else -1 + tv_sec (clock ex_env (ticks ex_world))))"
  by (rule arp_cache_macs_distinct [where xs = "packet (arp_cache ex_world)"])
     (auto simp: ex_world_def)



text \<open>
  C30: the ageing pass never evicts an entry for the size of the cache.  Above the
  threshold the bound \<open>ARP_THRESHOLD - size\<close> of its loop is negative, so the pass only
  sweeps expired entries.
\<close>

theorem arp_maintain_never_evicts:
  assumes "arp_cache w = queue_of sizeof_arp_cache_entry xs"
    and "\<And>e t. e \<in> set xs \<Longrightarrow> arp_is_static e \<or> tv_sec (clock E t) < tv_sec (arp_tv e)"
  shows "\<exists>t. arp_maintain_cache_pass E w = Inr (w\<lparr>ticks := t\<rparr>)"
proof -
  have "sweep_list (arp_expired E) xs t = (xs, t + length xs)" for t
    using assms(2)
  proof (induction xs arbitrary: t)
    case (Cons x xs)
    have "arp_expired E x t = (False, Suc t)"
      using Cons.prems [of x t] by (auto simp: arp_expired_def arp_is_static_def)
    moreover have "sweep_list (arp_expired E) xs (Suc t) = (xs, Suc t + length xs)"
      by (rule Cons.IH) (use Cons.prems in auto)
    ultimately show ?case by simp
  qed simp
  moreover have "w\<lparr>arp_cache := queue_of sizeof_arp_cache_entry xs, ticks := t\<rparr> = w\<lparr>ticks := t\<rparr>" for t
    using assms(1) by (cases w) simp
  ultimately have "arp_maintain_cache_pass E w = Inr (w\<lparr>ticks := ticks w + length xs\<rparr>)"
    using arp_maintain_cache_pass_of [OF assms(1), of E] by simp
  then show ?thesis by blast
qed

theorem arp_maintain_never_evicts_witness:
  "\<exists>t. arp_maintain_cache_pass ex_env
         (ex_world\<lparr>arp_cache := queue_of sizeof_arp_cache_entry
            (replicate 40 \<lparr>arp_ip = 1, arp_mac = MAC 0 0 0 0 0 1, arp_tv = \<lparr>tv_sec = -1, tv_usec = 0\<rparr>\<rparr>)\<rparr>) =
       Inr (ex_world\<lparr>arp_cache := queue_of sizeof_arp_cache_entry
            (replicate 40 \<lparr>arp_ip = 1, arp_mac = MAC 0 0 0 0 0 1, arp_tv = \<lparr>tv_sec = -1, tv_usec = 0\<rparr>\<rparr>),
            ticks := t\<rparr>)"
  by (rule arp_maintain_never_evicts
        [where xs = "replicate 40 \<lparr>arp_ip = 1, arp_mac = MAC 0 0 0 0 0 1, arp_tv = \<lparr>tv_sec = -1, tv_usec = 0\<rparr>\<rparr>"])
     (auto simp: arp_is_static_def)

section \<open>Queues\<close>


text \<open>
  C32: the work queue is first in, first out and loses nothing.  After any interleaving
  of enqueues by the drivers and dequeues by the workers, the items handed out are, in
  order, a prefix of the items enqueued; a worker that asks next gets the first of the
  others, or waits when there is none; and the next enqueue succeeds.
\<close>

theorem work_queue_fifo:
  assumes "wq_init n = Inr wq0" and "wq_run wq0 es wq"
  shows "\<exists>rest. enqueued es = dequeued es @ rest
     \<and> (case rest of
          [] \<Rightarrow> wq_take wq = Inr (WorkWait, wq)
        | (ty, x) # _ \<Rightarrow> \<exists>wq'. wq_take wq = Inr (WorkItem ty x, wq'))
     \<and> (\<forall>ty x. \<exists>wq'. wq_enqueue ty x wq = Inr wq')"
proof -
  obtain as where as: "wq_repr wq as" "\<not> wq_done wq" "enqueued es = dequeued es @ wq_list wq as"
    using wq_run_fifo [OF assms(2,1)] by blast
  have "\<exists>wq'. wq_enqueue ty x wq = Inr wq'" for ty x using wq_enqueue_refines [OF as(1)] by blast
  moreover have "case wq_list wq as of
          [] \<Rightarrow> wq_take wq = Inr (WorkWait, wq)
        | (ty, x) # _ \<Rightarrow> \<exists>wq'. wq_take wq = Inr (WorkItem ty x, wq')"
  proof (cases as)
    case Nil
    then show ?thesis using as(1,2) by (simp add: wq_list_def wq_repr_def wq_take_def)
  next
    case (Cons a as')
    then obtain wq' where "wq_take wq = Inr (case_prod WorkItem (item (wq_heap wq) a), wq')"
      using wq_take_refines [of wq a as'] as(1,2) by blast
    then show ?thesis using Cons by (auto simp: wq_list_def split: prod.split)
  qed
  ultimately show ?thesis using as(3) by blast
qed

theorem work_queue_fifo_witness:
  "\<exists>rest. enqueued [Enq 1 ''frame''] = dequeued [Enq 1 ''frame''] @ rest
     \<and> (case rest of
          [] \<Rightarrow> wq_take ex_queue = Inr (WorkWait, ex_queue)
        | (ty, x) # _ \<Rightarrow> \<exists>wq'. wq_take ex_queue = Inr (WorkItem ty x, wq'))
     \<and> (\<forall>ty x. \<exists>wq'. wq_enqueue ty x ex_queue = Inr wq')"
proof (rule work_queue_fifo [where n = 1])
  show "wq_init 1 = Inr ex_queue0" by (simp add: wq_init_def ex_queue0_def)
  have "wq_step ex_queue0 (Enq 1 ''frame'') ex_queue"
    by (rule wq_step.enq) (simp add: wq_enqueue_def ex_queue0_def ex_queue_def)
  from wq_run.more [OF wq_run.start this] show "wq_run ex_queue0 [Enq 1 ''frame''] ex_queue" by simp
qed

text \<open>
  C33: \<open>wq_destroy\<close> frees every queued node exactly once and leaves the queue empty and
  shut down; but the tail pointer still names the freed last node, so an enqueue after
  the destruction of a non-empty queue writes to freed memory.
\<close>

theorem wq_destroy_frees:
  assumes "wq_repr wq as"
  shows "\<exists>wq'. wq_destroy wq = Inr wq' \<and> wq_done wq' \<and> wq_head wq' = None
     \<and> (\<forall>a\<in>set as. wq_heap wq' a = None)
     \<and> (as \<noteq> [] \<longrightarrow> wq_enqueue ty x wq' = Inl UseAfterFree)"
proof -
  have r: "chain (wq_heap wq) (wq_head wq) as" "distinct as" "\<forall>a\<in>set as. a < wq_fresh wq"
    "wq_tail wq = (if as = [] then None else Some (last as))"
    using assms by (simp_all add: wq_repr_def)
  obtain h where h: "free_nodes (wq_fresh wq) (wq_head wq) (wq_heap wq) = Inr h"
      "\<forall>a\<in>set as. h a = None"
    using free_nodes_all [OF r(1,2) distinct_below_length [OF r(2,3)]] by blast
  have "last as \<noteq> wq_fresh wq \<and> h (last as) = None" if "as \<noteq> []"
    using r(3) h(2) last_in_set [OF that] by auto
  then have "as \<noteq> [] \<longrightarrow> wq_enqueue ty x (wq\<lparr>wq_done := True, wq_head := None, wq_heap := h\<rparr>) = Inl UseAfterFree"
    using r(4) by (simp add: wq_enqueue_def Let_def)
  moreover have "wq_destroy wq = Inr (wq\<lparr>wq_done := True, wq_head := None, wq_heap := h\<rparr>)"
    using h(1) by (simp add: wq_destroy_def)
  ultimately show ?thesis using h(2) by simp
qed

theorem wq_destroy_frees_witness:
  "\<exists>wq'. wq_destroy ex_queue = Inr wq' \<and> wq_done wq' \<and> wq_head wq' = None
     \<and> (\<forall>a\<in>set [0 :: nat]. wq_heap wq' a = None)
     \<and> ([0 :: nat] \<noteq> [] \<longrightarrow> wq_enqueue 2 ''late'' wq' = Inl UseAfterFree)"
  by (rule wq_destroy_frees) (simp add: wq_repr_def ex_queue_def)

section \<open>Link state\<close>

text \<open>
  C34: a HELLO is understood by the neighbour.  A packet with the PWOSPF header that
  \<open>generate_pwospf_hello_header\<close> wrote, received on an interface with the same mask and
  the standard interval from an address that is not in its neighbour table, enters an
  immediate neighbour with the router id and the address of the sender, and the routes
  are recomputed and advertised.
\<close>

theorem hello_understood:
  assumes "generate_pwospf_hello_header rid 0 msk p = Inr q" and "pi_packet pi = q"
    and "world_ok w" and "pi_interface pi = Some i" and "i < num_interfaces w"
    and "subnet_mask (interface w ! i) = msk" and "helloint (interface w ! i) = HELLOINT"
    and "area_id (pw_router w) = 0"
    and "66 \<le> unat (pi_len pi)" and "unat (pi_len pi) \<le> length q"
    and "\<And>e. e \<in> set (packet (neighbours (interface w ! i))) \<Longrightarrow> neighbour_ip e \<noteq> ip4_src_ip p"
  shows "pwospf_onreceive E pi w = recompute_and_send E (set_neighbours i
     (queue_of sizeof_pwospf_list_entry (packet (neighbours (interface w ! i)) @
        [new_neighbour E rid (ip4_src_ip p) (clock E (ticks w))]))
     (w\<lparr>ticks := Suc (ticks w)\<rparr>))"
proof -
  have "66 \<le> length p"
    using assms(1) by (auto simp: generate_pwospf_hello_header_def need_Inr_iff)
  then have q: "hello_packet rid 0 msk q" "\<forall>j<34. u8_at q j = u8_at p j"
    using generate_hello [of p rid 0 msk] assms(1) by auto
  have ip: "ip4_src_ip q = ip4_src_ip p" by (rule u32_at_cong) (use q(2) in simp)
  have ok: "wok {} (num_interfaces w) w" using assms(3) by (simp add: world_ok_def)
  from hello_accepted [OF ok assms(4,5), of rid E] q(1) ip assms(2,6-11) show ?thesis by simp
qed

theorem hello_understood_witness:
  "\<exists>q. generate_pwospf_hello_header (ip4 10 0 1 7) 0 (ip4 255 255 255 0) (replicate 66 0) = Inr q
     \<and> pwospf_onreceive ex_env (ex_frame q) ex_world = recompute_and_send ex_env (set_neighbours 0
         (queue_of sizeof_pwospf_list_entry (packet (neighbours (interface ex_world ! 0)) @
            [new_neighbour ex_env (ip4 10 0 1 7) (ip4_src_ip (replicate 66 0)) (clock ex_env (ticks ex_world))]))
         (ex_world\<lparr>ticks := Suc (ticks ex_world)\<rparr>))"
proof -
  obtain q where q: "generate_pwospf_hello_header (ip4 10 0 1 7) 0 (ip4 255 255 255 0) (replicate 66 0) = Inr q"
      "length q = 66"
    using generate_hello [of "replicate 66 0" "ip4 10 0 1 7" 0 "ip4 255 255 255 0"] by auto
  have "pwospf_onreceive ex_env (ex_frame q) ex_world = recompute_and_send ex_env (set_neighbours 0
         (queue_of sizeof_pwospf_list_entry (packet (neighbours (interface ex_world ! 0)) @
            [new_neighbour ex_env (ip4 10 0 1 7) (ip4_src_ip (replicate 66 0)) (clock ex_env (ticks ex_world))]))
         (ex_world\<lparr>ticks := Suc (ticks ex_world)\<rparr>))"
    by (rule hello_understood [OF q(1) _ ex_world_ok])
       (use q(2) in \<open>simp_all add: ex_frame_def ex_world_def ex_intf_def HELLOINT_def\<close>)
  with q show ?thesis by blast
qed

text \<open>
  C35: the advertisements \<open>send_pwospf_lsa_packet\<close> copies into a packet are the ones a
  receiver reads from it, in the same order; no byte outside the buffer is written.
\<close>

theorem advertisements_roundtrip:
  assumes "66 + 12 * length ls \<le> length p"
  shows "\<exists>q. for_loop (length ls) 0 (lsa_copy (queue_of sizeof_pwospf_lsa ls)) p = Inr q
     \<and> length q = length p \<and> payload (length ls) q = ls"
  by (rule lsa_copies_payload [OF assms])

theorem advertisements_roundtrip_witness:
  "\<exists>q. for_loop (length (lsas_of ex_neighbour)) 0
         (lsa_copy (queue_of sizeof_pwospf_lsa (lsas_of ex_neighbour))) (replicate 90 0) = Inr q
     \<and> length q = length (replicate 90 (0 :: byte))
     \<and> payload (length (lsas_of ex_neighbour)) q = lsas_of ex_neighbour"
  by (rule advertisements_roundtrip) (simp add: lsas_of_def ex_neighbour_def)

text \<open>
  C36: \<open>compare_lsus\<close> on two blocks of the same size answers yes exactly when every entry
  of the first occurs in the second; a block in another order is recognised as
  unchanged, but so is one in which an entry is replaced by a duplicate of another.
\<close>

theorem compare_lsus_subset:
  assumes "length a = n" and "length b = n"
  shows "compare_lsus a b n \<longleftrightarrow> set a \<subseteq> set b"
  by (rule compare_lsus_iff [OF assms])

theorem compare_lsus_subset_witness:
  "compare_lsus (lsas_of ex_neighbour) (rev (lsas_of ex_neighbour)) 2
     \<longleftrightarrow> set (lsas_of ex_neighbour) \<subseteq> set (rev (lsas_of ex_neighbour))"
  by (rule compare_lsus_subset) (simp_all add: lsas_of_def ex_neighbour_def)

text \<open>
  C37: a link-state packet whose advertisement count is 0xFFFFFFFF and whose first 20
  bytes have a valid checksum, from a router without an entry, passes the length test
  and makes the router write through a null pointer.
\<close>

theorem negative_count_null:
  assumes "world_ok w" and "pi_interface pi = Some i" and "i < num_interfaces w"
    and "54 \<le> unat (pi_len pi)" and "u32_at (pi_packet pi) 62 = 0xFFFFFFFF"
    and "generatechecksum (drop 34 (pi_packet pi)) 20 = Inr 0"
    and "u32_at (pi_packet pi) 38 \<noteq> router_id (pw_router w)"
    and "\<And>e. e \<in> set (packet (neighbours (interface w ! i))) \<Longrightarrow>
           neighbour_id e \<noteq> u32_at (pi_packet pi) 38"
  shows "pwospf_onreceive_link E pi w = Inl NullDeref"
proof -
  have ok: "wok {} (num_interfaces w) w" using assms(1) by (simp add: world_ok_def)
  show ?thesis by (rule negative_count_crash [OF ok assms(2-8)])
qed

theorem negative_count_null_witness:
  "pwospf_onreceive_link ex_env (ex_frame ex_negative) ex_world = Inl NullDeref"
proof (rule negative_count_null [OF ex_world_ok, where i = 0])
  show "54 \<le> unat (pi_len (ex_frame ex_negative))" "pi_interface (ex_frame ex_negative) = Some 0"
    "0 < num_interfaces ex_world"
    by (simp_all add: ex_frame_def ex_negative_def ex_world_def)
  show "u32_at (pi_packet (ex_frame ex_negative)) 62 = 0xFFFFFFFF"
    "generatechecksum (drop 34 (pi_packet (ex_frame ex_negative))) 20 = Inr 0"
    "u32_at (pi_packet (ex_frame ex_negative)) 38 \<noteq> router_id (pw_router ex_world)"
    unfolding ex_frame_def ex_world_def packet_info.simps router.simps world.simps pwospf_router.simps
    using ex_negative_fields by simp_all
  show "neighbour_id e \<noteq> u32_at (pi_packet (ex_frame ex_negative)) 38"
    if "e \<in> set (packet (neighbours (interface ex_world ! 0)))" for e
    using that by (simp add: ex_world_def ex_intf_def)
qed

end
